(* ===== verification/Prelude.thy ===== *)
theory Prelude
  imports Main "HOL-Library.Word"
begin

text \<open>
  Shared vocabulary of the development: the machine integer types of the Rust sources, the
  slice and \<open>Result\<close> operations of the Rust standard library that the components use,
  big-endian byte encodings of words, and association lists keyed up to an equivalence
  (the model of \<open>HashMap\<close>, whose key comparison is the key type's \<open>Eq\<close> instance).
\<close>

unbundle bit_operations_syntax

named_theorems rust_simps \<open>rewrite rules for slices, options and results\<close>
named_theorems codec_simps \<open>rewrite rules for encoders and decoders\<close>

type_synonym u8 = "8 word"
type_synonym u16 = "16 word"
type_synonym u32 = "32 word"
type_synonym u64 = "64 word"
type_synonym u128 = "128 word"

text \<open>A byte sequence: \<open>Vec<u8>\<close>, \<open>&[u8]\<close>, and the UTF-8 contents of a \<open>str\<close>.\<close>

type_synonym bytes = "u8 list"

definition byte_str :: "string \<Rightarrow> bytes" where
  "byte_str s = map (\<lambda>c. of_nat (of_char c)) s"

section \<open>Results and slices\<close>

text \<open>\<open>Result<T, E>\<close> is \<open>'e + 'a\<close>; \<open>and_then\<close> is the \<open>?\<close> operator.\<close>

fun and_then :: "'e + 'a \<Rightarrow> ('a \<Rightarrow> 'e + 'b) \<Rightarrow> 'e + 'b" where
  "and_then (Inl e) f = Inl e"
| "and_then (Inr x) f = f x"

fun ok_or :: "'e \<Rightarrow> 'a option \<Rightarrow> 'e + 'a" where
  "ok_or e None = Inl e"
| "ok_or e (Some x) = Inr x"

fun ok :: "'e + 'a \<Rightarrow> 'a option" where
  "ok (Inl e) = None"
| "ok (Inr x) = Some x"

lemma and_then_cong [fundef_cong]:
  "r = r' \<Longrightarrow> (\<And>x. r' = Inr x \<Longrightarrow> f x = f' x) \<Longrightarrow> and_then r f = and_then r' f'"
  by (cases r') auto

lemma and_then_eq_Inr [rust_simps]:
  "and_then r f = Inr y \<longleftrightarrow> (\<exists>x. r = Inr x \<and> f x = Inr y)"
  by (cases r) auto

lemma ok_or_eq_Inr [rust_simps]: "ok_or e r = Inr x \<longleftrightarrow> r = Some x"
  by (cases r) auto

lemma ok_eq_Some [rust_simps]: "ok r = Some x \<longleftrightarrow> r = Inr x"
  by (cases r) auto

text \<open>\<open>slice.get(i)\<close> and \<open>slice.get(a..b)\<close>: \<open>None\<close> out of range.\<close>

definition get_at :: "'a list \<Rightarrow> nat \<Rightarrow> 'a option" where
  "get_at xs i = (if i < length xs then Some (xs ! i) else None)"

definition get_range :: "'a list \<Rightarrow> nat \<Rightarrow> nat \<Rightarrow> 'a list option" where
  "get_range xs a b = (if a \<le> b \<and> b \<le> length xs then Some (take (b - a) (drop a xs)) else None)"

lemma get_at_Some [rust_simps]: "get_at xs i = Some x \<longleftrightarrow> i < length xs \<and> xs ! i = x"
  by (auto simp: get_at_def)

lemma get_range_Some [rust_simps]:
  "get_range xs a b = Some ys \<longleftrightarrow> a \<le> b \<and> b \<le> length xs \<and> ys = take (b - a) (drop a xs)"
  by (auto simp: get_range_def)

lemma length_get_range: "get_range xs a b = Some ys \<Longrightarrow> length ys = b - a"
  by (auto simp: get_range_def split: if_splits)

text \<open>Reads inside a message that is known around the read position.\<close>

lemma get_at_append [codec_simps]: "get_at (pre @ x # post) (length pre) = Some x"
  by (simp add: get_at_def nth_append)

lemma get_range_append [codec_simps]:
  "length ys = n \<Longrightarrow> get_range (pre @ ys @ post) (length pre) (length pre + n) = Some ys"
  by (simp add: get_range_def)

lemma get_at_in_append:
  "p = length pre \<Longrightarrow> msg = pre @ x # post \<Longrightarrow> get_at msg p = Some x"
  by (simp add: get_at_append)

lemma get_range_in_append:
  "p = length pre \<Longrightarrow> q = p + length ys \<Longrightarrow> msg = pre @ ys @ post \<Longrightarrow> get_range msg p q = Some ys"
  by (simp add: get_range_append)

section \<open>Big-endian encodings\<close>

text \<open>
  \<open>to_be_bytes\<close> and \<open>from_be_bytes\<close> of the unsigned integers, for any width: \<open>be_bytes n w\<close>
  is the big-endian representation of \<open>w\<close> in \<open>n\<close> bytes.
\<close>

definition be_bytes :: "nat \<Rightarrow> 'a::len word \<Rightarrow> bytes" where
  "be_bytes n w = map (\<lambda>i. ucast (drop_bit (8 * i) w)) (rev [0..<n])"

definition from_be :: "bytes \<Rightarrow> 'a::len word" where
  "from_be bs = foldl (\<lambda>acc b. push_bit 8 acc OR ucast b) 0 bs"

lemma length_be_bytes [simp]: "length (be_bytes n w) = n"
  by (simp add: be_bytes_def)

lemma be_bytes_0 [simp]: "be_bytes 0 w = []"
  by (simp add: be_bytes_def)

lemma be_bytes_Suc: "be_bytes (Suc n) w = be_bytes n (drop_bit 8 w) @ [ucast w]"
proof -
  have "[0..<Suc n] = 0 # map Suc [0..<n]"
    by (simp add: map_Suc_upt upt_conv_Cons del: upt_Suc)
  then have "rev [0..<Suc n] = map Suc (rev [0..<n]) @ [0]"
    by (simp add: rev_map del: upt_Suc)
  then show ?thesis
    by (simp add: be_bytes_def comp_def drop_bit_drop_bit algebra_simps)
qed

lemma from_be_Nil [simp]: "from_be [] = 0"
  by (simp add: from_be_def)

lemma from_be_snoc: "from_be (bs @ [b]) = push_bit 8 (from_be bs) OR ucast b"
  by (simp add: from_be_def)

lemma push_drop_8: "push_bit 8 (drop_bit 8 w) OR ucast (ucast w :: u8) = (w :: 'a::len word)"
  by (rule bit_word_eqI) (auto simp: bit_simps)

lemma from_be_be_bytes_take:
  "from_be (be_bytes n w) = take_bit (8 * n) (w :: 'a::len word)"
proof (induction n arbitrary: w)
  case 0
  then show ?case by simp
next
  case (Suc n)
  show ?case
    by (rule bit_word_eqI)
       (auto simp: be_bytes_Suc from_be_snoc Suc.IH bit_simps)
qed

lemma from_be_be_bytes [codec_simps]:
  "8 * n \<ge> LENGTH('a) \<Longrightarrow> from_be (be_bytes n (w :: 'a::len word)) = w"
  by (simp add: from_be_be_bytes_take take_bit_word_eq_self)

lemma be_bytes_from_be [codec_simps]:
  "length bs = n \<Longrightarrow> 8 * n \<le> LENGTH('a) \<Longrightarrow> be_bytes n (from_be bs :: 'a::len word) = bs"
proof (induction bs arbitrary: n rule: rev_induct)
  case Nil
  then show ?case by simp
next
  case (snoc b bs)
  then obtain m where n: "n = Suc m" "length bs = m" "8 * m \<le> LENGTH('a)" "8 * Suc m \<le> LENGTH('a)"
    by (cases n) auto
  let ?w = "from_be bs :: 'a word"
  have small: "\<And>k. bit ?w k \<Longrightarrow> k < 8 * m"
  proof -
    have "be_bytes m ?w = bs" using snoc.IH n by simp
    then have "?w = take_bit (8 * m) ?w" using from_be_be_bytes_take [of m ?w] by simp
    then show "\<And>k. bit ?w k \<Longrightarrow> k < 8 * m" by (metis bit_take_bit_iff)
  qed
  have "drop_bit 8 (push_bit 8 ?w OR ucast b) = ?w"
  proof (rule bit_word_eqI)
    fix k
    show "bit (drop_bit 8 (push_bit 8 ?w OR ucast b)) k = bit ?w k"
      using small [of k] n by (auto simp: bit_simps dest: bit_imp_le_length)
  qed
  moreover have "ucast (push_bit 8 ?w OR ucast b) = b"
    using n by (intro bit_word_eqI) (auto simp: bit_simps)
  ultimately show ?case
    using snoc.IH [OF n(2,3)] by (simp add: n from_be_snoc be_bytes_Suc)
qed

section \<open>Iterators, instants\<close>

text \<open>\<open>Iterator::min_by_key\<close>: the first of the elements with the least key.\<close>

fun min_by_key :: "('a \<Rightarrow> 'b::linorder) \<Rightarrow> 'a list \<Rightarrow> 'a option" where
  "min_by_key f [] = None"
| "min_by_key f (x # xs) =
     (case min_by_key f xs of
        None \<Rightarrow> Some x
      | Some y \<Rightarrow> if f x \<le> f y then Some x else Some y)"

lemma min_by_key_eq_None [simp]: "min_by_key f xs = None \<longleftrightarrow> xs = []"
  by (cases xs) (auto split: option.splits)

lemma min_by_key_Some:
  "min_by_key f xs = Some x \<Longrightarrow> x \<in> set xs \<and> (\<forall>y \<in> set xs. f x \<le> f y)"
proof (induction xs arbitrary: x)
  case (Cons a xs)
  then show ?case by (cases "min_by_key f xs") (fastforce split: if_splits)+
qed simp

text \<open>The least key wins; among equal keys the earliest element does.\<close>

lemma min_by_key_first:
  "min_by_key f xs = Some x \<Longrightarrow>
   \<exists>pre post. xs = pre @ x # post \<and> (\<forall>y \<in> set pre. f x < f y) \<and> (\<forall>y \<in> set post. f x \<le> f y)"
proof (induction xs arbitrary: x)
  case (Cons a xs)
  show ?case
  proof (cases "min_by_key f xs")
    case None
    with Cons.prems show ?thesis by (intro exI [of _ "[]"]) auto
  next
    case (Some y)
    then obtain pre post where xs: "xs = pre @ y # post"
      "\<forall>z \<in> set pre. f y < f z" "\<forall>z \<in> set post. f y \<le> f z"
      using Cons.IH by blast
    show ?thesis
    proof (cases "f a \<le> f y")
      case True
      then have "x = a" using Cons.prems Some by simp
      moreover have "\<forall>z \<in> set xs. f a \<le> f z" using True min_by_key_Some [OF Some] by fastforce
      ultimately show ?thesis by (intro exI [of _ "[]"] exI [of _ xs]) auto
    next
      case False
      then have "x = y" using Cons.prems Some by simp
      with xs False show ?thesis by (intro exI [of _ "a # pre"] exI [of _ post]) auto
    qed
  qed
qed simp

text \<open>
  An \<open>Instant\<close> is a number of nanoseconds since some origin and a \<open>Duration\<close> a number of
  nanoseconds; subtraction on \<open>nat\<close> is \<open>saturating_duration_since\<close>.
\<close>

type_synonym instant = nat
type_synonym duration = nat

definition from_secs :: "nat \<Rightarrow> duration" where
  "from_secs n = n * 1000000000"

definition as_secs :: "duration \<Rightarrow> nat" where
  "as_secs d = d div 1000000000"

lemma as_secs_from_secs [simp]: "as_secs (from_secs n) = n"
  by (simp add: as_secs_def from_secs_def)

section \<open>Association lists keyed up to an equivalence\<close>

text \<open>
  \<open>HashMap<K, V>\<close>: the list order stands for the iteration order, which Rust leaves
  unspecified; \<open>eq\<close> is \<open>K\<close>'s \<open>Eq\<close>. \<open>hm_insert\<close> replaces the value under an equal key
  (keeping the stored key, as \<open>HashMap::insert\<close> does) and adds a new entry otherwise.
\<close>

fun hm_get :: "('k \<Rightarrow> 'k \<Rightarrow> bool) \<Rightarrow> 'k \<Rightarrow> ('k \<times> 'v) list \<Rightarrow> 'v option" where
  "hm_get eq k [] = None"
| "hm_get eq k ((k', v) # xs) = (if eq k k' then Some v else hm_get eq k xs)"

fun hm_insert :: "('k \<Rightarrow> 'k \<Rightarrow> bool) \<Rightarrow> 'k \<Rightarrow> 'v \<Rightarrow> ('k \<times> 'v) list \<Rightarrow> ('k \<times> 'v) list" where
  "hm_insert eq k v [] = [(k, v)]"
| "hm_insert eq k v ((k', v') # xs) =
     (if eq k k' then (k', v) # xs else (k', v') # hm_insert eq k v xs)"

definition hm_remove :: "('k \<Rightarrow> 'k \<Rightarrow> bool) \<Rightarrow> 'k \<Rightarrow> ('k \<times> 'v) list \<Rightarrow> ('k \<times> 'v) list" where
  "hm_remove eq k xs = filter (\<lambda>(k', v). \<not> eq k k') xs"

fun hm_wf :: "('k \<Rightarrow> 'k \<Rightarrow> bool) \<Rightarrow> ('k \<times> 'v) list \<Rightarrow> bool" where
  "hm_wf eq [] = True"
| "hm_wf eq ((k, v) # xs) = ((\<forall>(k', v') \<in> set xs. \<not> eq k k') \<and> hm_wf eq xs)"

text \<open>The laws a map client relies on, for any equivalence used as the key comparison.\<close>

locale hash_map =
  fixes eq :: "'k \<Rightarrow> 'k \<Rightarrow> bool"
  assumes eq_refl: "eq k k"
    and eq_sym: "eq k k' \<Longrightarrow> eq k' k"
    and eq_trans: "eq k k' \<Longrightarrow> eq k' k'' \<Longrightarrow> eq k k''"
begin

lemma eq_left: "eq k k' \<Longrightarrow> eq k a \<longleftrightarrow> eq k' a"
  by (blast intro: eq_sym eq_trans)

lemma eq_right: "eq k k' \<Longrightarrow> eq a k \<longleftrightarrow> eq a k'"
  by (blast intro: eq_sym eq_trans)

lemma get_insert:
  "hm_get eq k' (hm_insert eq k v xs) = (if eq k' k then Some v else hm_get eq k' xs)"
  by (induction xs) (auto dest: eq_left eq_right)

lemma get_remove:
  "hm_get eq k' (hm_remove eq k xs) = (if eq k' k then None else hm_get eq k' xs)"
  by (induction xs) (auto simp: hm_remove_def dest: eq_left eq_right)

lemma get_eq_None: "hm_get eq k xs = None \<longleftrightarrow> (\<forall>(k', v) \<in> set xs. \<not> eq k k')"
  by (induction xs) (auto split: if_splits)

lemma insert_keys:
  "(k', v') \<in> set (hm_insert eq k v xs) \<Longrightarrow> (k', v') \<in> set xs \<or> (eq k k' \<and> v' = v)"
  by (induction xs) (auto intro: eq_refl split: if_splits)

lemma wf_insert: "hm_wf eq xs \<Longrightarrow> hm_wf eq (hm_insert eq k v xs)"
proof (induction xs)
  case (Cons x xs)
  obtain k0 v0 where x: "x = (k0, v0)" by (cases x)
  show ?case
  proof (cases "eq k k0")
    case True
    with Cons x show ?thesis by auto
  next
    case False
    with Cons x show ?thesis by (auto dest!: insert_keys dest: eq_sym eq_left)
  qed
qed simp

lemma wf_filter: "hm_wf eq xs \<Longrightarrow> hm_wf eq (filter P xs)"
  by (induction xs) auto

lemma wf_remove: "hm_wf eq xs \<Longrightarrow> hm_wf eq (hm_remove eq k xs)"
  by (simp add: hm_remove_def wf_filter)

lemma in_set_get: "hm_wf eq xs \<Longrightarrow> (k, v) \<in> set xs \<Longrightarrow> hm_get eq k xs = Some v"
  by (induction xs) (force intro: eq_refl dest: eq_sym)+

lemma get_in_set: "hm_get eq k xs = Some v \<Longrightarrow> \<exists>k'. eq k k' \<and> (k', v) \<in> set xs"
  by (induction xs) (auto split: if_splits)

lemma get_cong: "eq k k' \<Longrightarrow> hm_get eq k xs = hm_get eq k' xs"
  by (induction xs) (auto simp: eq_left)

lemma get_filter_value:
  "hm_wf eq xs \<Longrightarrow>
   hm_get eq k (filter (\<lambda>(k, v). P v) xs) =
     (case hm_get eq k xs of None \<Rightarrow> None | Some v \<Rightarrow> if P v then Some v else None)"
proof (induction xs)
  case (Cons x xs)
  obtain k0 v0 where x: "x = (k0, v0)" by (cases x)
  have "eq k k0 \<Longrightarrow> hm_get eq k xs = None"
    using Cons.prems x by (auto simp: get_eq_None dest: eq_left)
  with Cons x show ?case by (auto split: option.splits)
qed simp

lemma get_filter_key:
  "(\<And>k k'. eq k k' \<Longrightarrow> P k = P k') \<Longrightarrow>
   hm_get eq k (filter (\<lambda>(k, v). P k) xs) = (if P k then hm_get eq k xs else None)"
  by (induction xs) auto

lemma length_insert:
  "length (hm_insert eq k v xs) = (if hm_get eq k xs = None then Suc (length xs) else length xs)"
  by (induction xs) (auto split: if_splits)

lemma length_remove:
  "hm_wf eq xs \<Longrightarrow> length (hm_remove eq k xs) =
     (if hm_get eq k xs = None then length xs else length xs - 1)"
proof (induction xs)
  case (Cons x xs)
  obtain k0 v0 where x: "x = (k0, v0)" by (cases x)
  show ?case
  proof (cases "eq k k0")
    case True
    then have "\<forall>(k', v') \<in> set xs. \<not> eq k k'"
      using Cons.prems x by (auto dest: eq_left)
    then have "hm_remove eq k xs = xs"
      by (auto simp: hm_remove_def filter_id_conv)
    with True x show ?thesis by (simp add: hm_remove_def)
  next
    case False
    with Cons x have *: "length (hm_remove eq k (x # xs)) = Suc (length (hm_remove eq k xs))"
      by (simp add: hm_remove_def)
    have "hm_get eq k xs \<noteq> None \<Longrightarrow> length xs > 0" by (cases xs) auto
    with * False Cons x show ?thesis by auto
  qed
qed (simp add: hm_remove_def)

text \<open>Well-formedness does not depend on the iteration order.\<close>

lemma wf_iff_once: "hm_wf eq xs \<longleftrightarrow> (\<forall>p \<in> set xs. length (filter (\<lambda>q. eq (fst p) (fst q)) xs) = 1)"
proof (induction xs)
  case (Cons x xs)
  obtain k v where x: "x = (k, v)" by (cases x)
  have some: "length (filter (\<lambda>q. eq (fst p) (fst q)) xs) > 0" if "p \<in> set xs" for p
    using that eq_refl by (auto simp: filter_empty_conv)
  have none: "(\<forall>(k', v') \<in> set xs. \<not> eq k k') \<longleftrightarrow> filter (\<lambda>q. eq k (fst q)) xs = []"
    by (auto simp: filter_empty_conv)
  have sym: "eq a b \<longleftrightarrow> eq b a" for a b using eq_sym by blast
  show ?case
  proof
    assume wf: "hm_wf eq (x # xs)"
    then have "\<not> eq (fst p) k" if "p \<in> set xs" for p using that x sym by auto
    with wf none show "\<forall>p \<in> set (x # xs). length (filter (\<lambda>q. eq (fst p) (fst q)) (x # xs)) = 1"
      using Cons x eq_refl by auto
  next
    assume once: "\<forall>p \<in> set (x # xs). length (filter (\<lambda>q. eq (fst p) (fst q)) (x # xs)) = 1"
    then have nil: "filter (\<lambda>q. eq k (fst q)) xs = []" using x eq_refl by auto
    have "length (filter (\<lambda>q. eq (fst p) (fst q)) xs) = 1" if "p \<in> set xs" for p
      using once that some [OF that] by (cases "eq (fst p) (fst x)") fastforce+
    then show "hm_wf eq (x # xs)" using Cons nil none x by auto
  qed
qed simp

end

text \<open>Keys compared by structural equality: identifiers and pairs of primitive values.\<close>

interpretation ids: hash_map "(=)"
  by unfold_locales auto

end
