(* ===== verification/Dns_Name.thy ===== *)
theory Dns_Name
  imports Prelude "HOL-Library.Sublist"
begin

text \<open>
  Domain names: \<open>dns/src/lib.rs\<close>, lines 24 to 341. A name is a list of labels without the
  root label; labels are arbitrary bytes. Positions and lengths (\<open>usize\<close>) are \<open>nat\<close>: every
  sum of them is bounded by the length of a slice plus 65, far below \<open>2 ^ 64\<close>.
\<close>

section \<open>Limits and errors\<close>

definition CLASSIC_UDP_SIZE :: u16 where
  "CLASSIC_UDP_SIZE = 512"

definition EDNS_UDP_SIZE :: u16 where
  "EDNS_UDP_SIZE = 1232"

definition MAX_MESSAGE_SIZE :: nat where
  "MAX_MESSAGE_SIZE = 65535"

definition MAX_NAME_LEN :: nat where
  "MAX_NAME_LEN = 255"

definition MAX_LABEL_LEN :: nat where
  "MAX_LABEL_LEN = 63"

lemmas limits = CLASSIC_UDP_SIZE_def EDNS_UDP_SIZE_def MAX_MESSAGE_SIZE_def
  MAX_NAME_LEN_def MAX_LABEL_LEN_def

datatype dns_error =
    Truncated
  | NameTooLong
  | BadLabel
  | BadPointer
  | BadRData
  | TrailingBytes
  | BadName
  | TooLarge

section \<open>ASCII case\<close>

text \<open>\<open>u8::is_ascii_uppercase\<close>, \<open>is_ascii_alphabetic\<close>, \<open>to_ascii_lowercase\<close> of the standard library.\<close>

definition is_ascii_uppercase :: "u8 \<Rightarrow> bool" where
  "is_ascii_uppercase b \<longleftrightarrow> 65 \<le> b \<and> b \<le> 90"

definition is_ascii_alphabetic :: "u8 \<Rightarrow> bool" where
  "is_ascii_alphabetic b \<longleftrightarrow> (65 \<le> b \<and> b \<le> 90) \<or> (97 \<le> b \<and> b \<le> 122)"

definition to_ascii_lowercase :: "u8 \<Rightarrow> u8" where
  "to_ascii_lowercase b = (if is_ascii_uppercase b then b OR 32 else b)"

definition eq_ignore_ascii_case :: "bytes \<Rightarrow> bytes \<Rightarrow> bool" where
  "eq_ignore_ascii_case a b \<longleftrightarrow>
     length a = length b \<and> list_all2 (\<lambda>x y. to_ascii_lowercase x = to_ascii_lowercase y) a b"

text \<open>Facts on a range of bytes follow from the facts on each byte of the range.\<close>

lemma byte_interval:
  assumes "a \<le> b" "b \<le> (c :: u8)"
  shows "b \<in> word_of_nat ` set [unat a..<Suc (unat c)]"
proof -
  have "b = word_of_nat (unat b)" by simp
  moreover have "unat b \<in> set [unat a..<Suc (unat c)]"
    using assms by (auto simp: word_le_nat_alt)
  ultimately show ?thesis by (rule image_eqI)
qed

lemma byte_interval_all:
  "list_all (\<lambda>n. P (word_of_nat n :: u8)) [unat a..<Suc (unat c)] \<Longrightarrow> a \<le> b \<Longrightarrow> b \<le> c \<Longrightarrow> P b"
  using byte_interval [of a b c] by (auto simp: list_all_iff simp del: upt_Suc)

lemma upper_or_32: "is_ascii_uppercase b \<Longrightarrow> \<not> is_ascii_uppercase (b OR 32)"
  by (rule byte_interval_all [where a = 65 and c = 90])
     (simp_all add: is_ascii_uppercase_def upt_rec)

lemma lower_idem [simp]: "to_ascii_lowercase (to_ascii_lowercase b) = to_ascii_lowercase b"
  by (simp add: to_ascii_lowercase_def upper_or_32)

lemma lower_flip:
  assumes "is_ascii_alphabetic b"
  shows "to_ascii_lowercase (b XOR 32) = to_ascii_lowercase b"
proof (cases "b \<le> 90")
  case True
  with assms have "65 \<le> b"
    by (auto simp: is_ascii_alphabetic_def intro: order.trans [of 65 97])
  then show ?thesis using True
    by (rule byte_interval_all [where a = 65 and c = 90, rotated])
       (simp add: is_ascii_uppercase_def to_ascii_lowercase_def upt_rec)
next
  case False
  with assms have "97 \<le> b" "b \<le> 122" by (auto simp: is_ascii_alphabetic_def)
  then show ?thesis
    by (rule byte_interval_all [where a = 97 and c = 122, rotated])
       (simp add: is_ascii_uppercase_def to_ascii_lowercase_def upt_rec)
qed

lemma eq_ignore_ascii_case_iff:
  "eq_ignore_ascii_case a b \<longleftrightarrow> map to_ascii_lowercase a = map to_ascii_lowercase b"
  by (auto simp: eq_ignore_ascii_case_def list_all2_conv_all_nth list_eq_iff_nth_eq)

section \<open>Names\<close>

datatype name = Name (labels: "bytes list")

definition root :: name where
  "root = Name []"

definition is_root :: "name \<Rightarrow> bool" where
  "is_root n \<longleftrightarrow> labels n = []"

definition label_count :: "name \<Rightarrow> nat" where
  "label_count n = length (labels n)"

definition wire_len :: "name \<Rightarrow> nat" where
  "wire_len n = sum_list (map (\<lambda>l. length l + 1) (labels n)) + 1"

text \<open>The check that both \<open>Name::parse\<close> and \<open>Name::from_labels\<close> make on a label.\<close>

definition bad_label :: "bytes \<Rightarrow> bool" where
  "bad_label l \<longleftrightarrow> l = [] \<or> length l > MAX_LABEL_LEN"

definition from_labels :: "bytes list \<Rightarrow> dns_error + name" where
  "from_labels ls =
     (if list_ex bad_label ls then Inl BadName
      else if wire_len (Name ls) > MAX_NAME_LEN then Inl NameTooLong
      else Inr (Name ls))"

text \<open>\<open>str::split('.')\<close>: the pieces between the separators, one piece if there is none.\<close>

fun split_on :: "u8 \<Rightarrow> bytes \<Rightarrow> bytes list" where
  "split_on c [] = [[]]"
| "split_on c (b # bs) =
     (if b = c then [] # split_on c bs
      else case split_on c bs of [] \<Rightarrow> [[b]] | l # ls \<Rightarrow> (b # l) # ls)"

definition strip_dot :: "bytes \<Rightarrow> bytes" where
  "strip_dot s = (if s \<noteq> [] \<and> last s = 46 then butlast s else s)"

definition parse :: "bytes \<Rightarrow> dns_error + name" where
  "parse s =
     (let s = strip_dot s in
      if s = [] then Inr root
      else let ls = split_on 46 s in
        if list_ex bad_label ls then Inl BadName
        else if wire_len (Name ls) > MAX_NAME_LEN then Inl NameTooLong
        else Inr (Name ls))"

definition ends_with :: "name \<Rightarrow> name \<Rightarrow> bool" where
  "ends_with n s \<longleftrightarrow>
     (if length (labels s) > length (labels n) then False
      else list_all (\<lambda>(a, b). eq_ignore_ascii_case a b)
             (zip (drop (length (labels n) - length (labels s)) (labels n)) (labels s)))"

definition join :: "name \<Rightarrow> name \<Rightarrow> dns_error + name" where
  "join n s = from_labels (labels n @ labels s)"

definition to_lowercase :: "name \<Rightarrow> name" where
  "to_lowercase n = Name (map (map to_ascii_lowercase) (labels n))"

text \<open>\<open>impl PartialEq for Name\<close> and the bytes \<open>impl Hash for Name\<close> feeds to the hasher.\<close>

definition name_eq :: "name \<Rightarrow> name \<Rightarrow> bool" where
  "name_eq a b \<longleftrightarrow>
     length (labels a) = length (labels b) \<and>
     list_all (\<lambda>(x, y). eq_ignore_ascii_case x y) (zip (labels a) (labels b))"

definition name_hash :: "name \<Rightarrow> nat \<times> bytes" where
  "name_hash n =
     (length (labels n), concat (map (\<lambda>l. map to_ascii_lowercase l @ [255]) (labels n)))"

text \<open>The derived \<open>PartialOrd\<close>: the label vectors compared lexicographically, byte for byte.\<close>

fun bytes_lt :: "bytes \<Rightarrow> bytes \<Rightarrow> bool" where
  "bytes_lt _ [] = False"
| "bytes_lt [] (b # bs) = True"
| "bytes_lt (a # as) (b # bs) = (a < b \<or> (a = b \<and> bytes_lt as bs))"

fun labels_lt :: "bytes list \<Rightarrow> bytes list \<Rightarrow> bool" where
  "labels_lt _ [] = False"
| "labels_lt [] (b # bs) = True"
| "labels_lt (a # as) (b # bs) = (bytes_lt a b \<or> (a = b \<and> labels_lt as bs))"

definition name_lt :: "name \<Rightarrow> name \<Rightarrow> bool" where
  "name_lt a b \<longleftrightarrow> labels_lt (labels a) (labels b)"

text \<open>
  The names the rest of the program may hold: every label has 1 to 63 bytes and the wire
  form fits 255 bytes. It is what \<open>parse\<close>, \<open>from_labels\<close> and \<open>read\<close> guarantee.
\<close>

definition wf_label :: "bytes \<Rightarrow> bool" where
  "wf_label l \<longleftrightarrow> l \<noteq> [] \<and> length l \<le> MAX_LABEL_LEN"

definition wf_name :: "name \<Rightarrow> bool" where
  "wf_name n \<longleftrightarrow> list_all wf_label (labels n) \<and> wire_len n \<le> MAX_NAME_LEN"

subsection \<open>Equality up to case\<close>

lemma all_zip_eq_ignore_case:
  "length xs = length ys \<Longrightarrow>
   list_all (\<lambda>(a, b). eq_ignore_ascii_case a b) (zip xs ys) \<longleftrightarrow>
   map (map to_ascii_lowercase) xs = map (map to_ascii_lowercase) ys"
  by (induction xs ys rule: list_induct2) (auto simp: eq_ignore_ascii_case_iff)

lemma name_eq_iff: "name_eq a b \<longleftrightarrow> to_lowercase a = to_lowercase b"
  unfolding name_eq_def to_lowercase_def
  using all_zip_eq_ignore_case [of "labels a" "labels b"]
  by (metis length_map name.inject)

interpretation names: hash_map name_eq
  by unfold_locales (auto simp: name_eq_iff)

lemma name_eq_refl [simp]: "name_eq n n"
  by (rule names.eq_refl)

lemma to_lowercase_idem [simp]: "to_lowercase (to_lowercase n) = to_lowercase n"
  by (simp add: to_lowercase_def comp_def)

lemma name_eq_lowercase [simp]:
  "name_eq (to_lowercase a) b = name_eq a b" "name_eq a (to_lowercase b) = name_eq a b"
  by (simp_all add: name_eq_iff)

lemma name_hash_lowercase: "name_hash (to_lowercase n) = name_hash n"
  by (simp add: name_hash_def to_lowercase_def comp_def)

lemma suffix_iff_drop:
  "length ys \<le> length xs \<Longrightarrow> suffix ys xs \<longleftrightarrow> drop (length xs - length ys) xs = ys"
  by (auto simp: suffix_def) (metis append_take_drop_id)

lemma ends_with_iff:
  "ends_with n s \<longleftrightarrow> suffix (labels (to_lowercase s)) (labels (to_lowercase n))"
proof (cases "length (labels s) \<le> length (labels n)")
  case True
  then show ?thesis
    by (simp add: ends_with_def all_zip_eq_ignore_case to_lowercase_def suffix_iff_drop drop_map)
next
  case False
  then show ?thesis
    by (auto simp: ends_with_def to_lowercase_def dest: suffix_length_le)
qed

subsection \<open>Construction\<close>

lemma not_bad_label: "\<not> bad_label l \<longleftrightarrow> wf_label l"
  by (auto simp: bad_label_def wf_label_def)

lemma list_ex_bad_label: "list_ex bad_label ls \<longleftrightarrow> \<not> list_all wf_label ls"
  by (auto simp: list_all_iff list_ex_iff simp flip: not_bad_label)

lemma from_labels_Inr: "from_labels ls = Inr n \<longleftrightarrow> n = Name ls \<and> wf_name n"
  by (auto simp: from_labels_def wf_name_def list_ex_bad_label)

lemma wf_root [simp]: "wf_name root"
  by (simp add: wf_name_def root_def wire_len_def limits)

lemma parse_Inr_wf: "parse s = Inr n \<Longrightarrow> wf_name n"
  by (auto simp: parse_def Let_def wf_name_def list_ex_bad_label split: if_splits)
     (use wf_root in \<open>auto simp: wf_name_def\<close>)

lemma join_Inr: "join n s = Inr m \<longleftrightarrow> m = Name (labels n @ labels s) \<and> wf_name m"
  by (simp add: join_def from_labels_Inr)

text \<open>Dotted strings: \<open>dotted ls\<close> is the presentation of labels that need no escape.\<close>

fun dotted :: "bytes list \<Rightarrow> bytes" where
  "dotted [] = []"
| "dotted [l] = l"
| "dotted (l # ls) = l @ 46 # dotted ls"

lemma split_on_append:
  "46 \<notin> set l \<Longrightarrow> split_on 46 (l @ 46 # s) = l # split_on 46 s"
  by (induction l) auto

lemma split_on_plain: "46 \<notin> set l \<Longrightarrow> split_on 46 l = [l]"
  by (induction l) auto

lemma split_on_dotted:
  "ls \<noteq> [] \<Longrightarrow> \<forall>l \<in> set ls. 46 \<notin> set l \<Longrightarrow> split_on 46 (dotted ls) = ls"
  by (induction ls rule: dotted.induct) (auto simp: split_on_append split_on_plain)

lemma dotted_eq_Nil: "\<forall>l \<in> set ls. l \<noteq> [] \<Longrightarrow> dotted ls = [] \<longleftrightarrow> ls = []"
  by (induction ls rule: dotted.induct) auto

lemma last_dotted:
  "ls \<noteq> [] \<Longrightarrow> \<forall>l \<in> set ls. l \<noteq> [] \<and> 46 \<notin> set l \<Longrightarrow> last (dotted ls) \<noteq> 46"
proof (induction ls rule: dotted.induct)
  case (2 l)
  then show ?case by (auto dest: last_in_set)
next
  case (3 l m ls)
  then have "dotted (m # ls) \<noteq> []" using dotted_eq_Nil [of "m # ls"] by simp
  with 3 show ?case by simp
qed simp

lemma parse_dotted:
  assumes "wf_name (Name ls)" and "\<forall>l \<in> set ls. 46 \<notin> set l"
  shows "parse (dotted ls) = Inr (Name ls)"
proof (cases "ls = []")
  case True
  then show ?thesis by (simp add: parse_def strip_dot_def root_def)
next
  case False
  have ne: "\<forall>l \<in> set ls. l \<noteq> []"
    using assms(1) by (auto simp: wf_name_def wf_label_def list_all_iff)
  have "strip_dot (dotted ls) = dotted ls"
    using last_dotted [OF False] ne assms(2) by (auto simp: strip_dot_def)
  moreover have "dotted ls \<noteq> []" using False ne dotted_eq_Nil by blast
  ultimately show ?thesis
    using assms False by (simp add: parse_def split_on_dotted wf_name_def list_ex_bad_label)
qed

section \<open>Case randomisation\<close>

text \<open>
  \<open>Name::randomise_case\<close> calls its bit source once for every ASCII letter, in order. The
  source is a function of the call number; \<open>None\<close> is a call that panics.
\<close>

fun randomise_label :: "(nat \<Rightarrow> bool option) \<Rightarrow> nat \<Rightarrow> bytes \<Rightarrow> (bytes \<times> nat) option" where
  "randomise_label bits n [] = Some ([], n)"
| "randomise_label bits n (b # bs) =
     (if is_ascii_alphabetic b then
        (case bits n of
           None \<Rightarrow> None
         | Some flip \<Rightarrow>
             map_option (\<lambda>(bs', n'). ((if flip then b XOR 32 else b) # bs', n'))
               (randomise_label bits (n + 1) bs))
      else map_option (\<lambda>(bs', n'). (b # bs', n')) (randomise_label bits n bs))"

fun randomise_labels :: "(nat \<Rightarrow> bool option) \<Rightarrow> nat \<Rightarrow> bytes list \<Rightarrow> bytes list option" where
  "randomise_labels bits n [] = Some []"
| "randomise_labels bits n (l # ls) =
     (case randomise_label bits n l of
        None \<Rightarrow> None
      | Some (l', n') \<Rightarrow> map_option ((#) l') (randomise_labels bits n' ls))"

definition randomise_case :: "name \<Rightarrow> (nat \<Rightarrow> bool option) \<Rightarrow> name option" where
  "randomise_case n bits = map_option Name (randomise_labels bits 0 (labels n))"

lemma randomise_label_Some:
  "randomise_label bits n bs = Some (bs', n') \<Longrightarrow>
   map to_ascii_lowercase bs' = map to_ascii_lowercase bs \<and> n' \<le> n + length bs"
  by (induction bs arbitrary: n bs' n')
     (auto simp: lower_flip split: if_splits option.splits, fastforce+)

lemma randomise_label_total:
  "\<forall>k < m. bits k \<noteq> None \<Longrightarrow> n + length bs \<le> m \<Longrightarrow> randomise_label bits n bs \<noteq> None"
proof (induction bs arbitrary: n)
  case (Cons b bs)
  then have "randomise_label bits n bs \<noteq> None" "randomise_label bits (n + 1) bs \<noteq> None" "bits n \<noteq> None"
    by auto
  then show ?case by auto
qed simp

lemma randomise_labels_Some:
  "randomise_labels bits n ls = Some ls' \<Longrightarrow>
   map (map to_ascii_lowercase) ls' = map (map to_ascii_lowercase) ls"
  by (induction ls arbitrary: n ls')
     (auto dest!: randomise_label_Some split: option.splits)

lemma randomise_labels_total:
  "\<forall>k < m. bits k \<noteq> None \<Longrightarrow> n + sum_list (map length ls) \<le> m \<Longrightarrow> randomise_labels bits n ls \<noteq> None"
proof (induction ls arbitrary: n)
  case (Cons l ls)
  obtain l' n' where l: "randomise_label bits n l = Some (l', n')"
    using randomise_label_total [of m bits n l] Cons.prems by fastforce
  then have "n' \<le> n + length l" using randomise_label_Some by blast
  then have "randomise_labels bits n' ls \<noteq> None"
    using Cons.prems by (intro Cons.IH) auto
  with l show ?case by auto
qed simp

lemma randomise_case_eq: "randomise_case n bits = Some n' \<Longrightarrow> name_eq n' n"
  by (auto simp: randomise_case_def name_eq_iff to_lowercase_def dest!: randomise_labels_Some)

lemma same_shape_wire_len:
  "to_lowercase a = to_lowercase b \<Longrightarrow> wire_len a = wire_len b"
proof -
  assume "to_lowercase a = to_lowercase b"
  then have "map (map to_ascii_lowercase) (labels a) = map (map to_ascii_lowercase) (labels b)"
    by (simp add: to_lowercase_def)
  then have "map length (map (map to_ascii_lowercase) (labels a)) =
      map length (map (map to_ascii_lowercase) (labels b))" by simp
  then have "map length (labels a) = map length (labels b)" by (simp add: comp_def)
  then have "map Suc (map length (labels a)) = map Suc (map length (labels b))" by simp
  then show ?thesis unfolding wire_len_def by (simp add: comp_def)
qed

lemma wf_name_eq: "name_eq a b \<Longrightarrow> wf_name b \<Longrightarrow> wf_name a"
proof -
  assume eq: "name_eq a b" and wf: "wf_name b"
  have "list_all wf_label (labels n) \<longleftrightarrow> list_all wf_label (labels (to_lowercase n))" for n
    by (simp add: to_lowercase_def list_all_length wf_label_def)
  moreover have "to_lowercase a = to_lowercase b" using eq by (simp add: name_eq_iff)
  ultimately have "list_all wf_label (labels a)" using wf unfolding wf_name_def by metis
  then show ?thesis
    using wf same_shape_wire_len [OF \<open>to_lowercase a = to_lowercase b\<close>] by (simp add: wf_name_def)
qed

section \<open>Wire form\<close>

text \<open>\<open>Name::write\<close> appends to the output buffer; \<open>name_write\<close> is what it appends.\<close>

definition name_write :: "name \<Rightarrow> bytes" where
  "name_write n = concat (map (\<lambda>l. word_of_nat (length l) # l) (labels n)) @ [0]"

text \<open>
  The loop of \<open>Name::read\<close>: \<open>p\<close> is the read position, \<open>e\<close> the position after the first
  pointer (\<open>end\<close> in the source), \<open>hops\<close> and \<open>tot\<close> (\<open>total\<close>) the two budgets. A label consumes input
  and a pointer consumes a hop, so the loop ends whatever the input is.
\<close>

function read_loop ::
  "bytes \<Rightarrow> nat \<Rightarrow> nat option \<Rightarrow> nat \<Rightarrow> nat \<Rightarrow> bytes list \<Rightarrow> dns_error + (name \<times> nat)" where
  "read_loop msg p e hops tot ls =
     (case get_at msg p of
        None \<Rightarrow> Inl Truncated
      | Some len \<Rightarrow>
          if len AND 0xC0 = 0 then
            (if len = 0 then Inr (Name ls, case e of None \<Rightarrow> p + 1 | Some q \<Rightarrow> q)
             else case get_range msg (p + 1) (p + 1 + unat len) of
                    None \<Rightarrow> Inl Truncated
                  | Some label \<Rightarrow>
                      if tot + (unat len + 1) + 1 > MAX_NAME_LEN then Inl NameTooLong
                      else read_loop msg (p + 1 + unat len) e hops (tot + (unat len + 1))
                             (ls @ [label]))
          else if len AND 0xC0 = 0xC0 then
            (case get_at msg (p + 1) of
               None \<Rightarrow> Inl Truncated
             | Some lo \<Rightarrow>
                 let target = (push_bit 8 (unat len AND 0x3F)) OR unat lo;
                     e' = (case e of None \<Rightarrow> Some (p + 2) | Some q \<Rightarrow> Some q)
                 in if target \<ge> p then Inl BadPointer
                    else if hops + 1 > 64 then Inl BadPointer
                    else read_loop msg target e' (hops + 1) tot ls)
          else Inl BadLabel)"
  by pat_completeness auto
termination
  by (relation "measures [\<lambda>(msg, p, e, hops, tot, ls). 65 - hops,
        \<lambda>(msg, p, e, hops, tot, ls). length msg - p]")
     (auto simp: rust_simps)

declare read_loop.simps [simp del]

definition name_read :: "bytes \<Rightarrow> nat \<Rightarrow> dns_error + (name \<times> nat)" where
  "name_read msg pos = read_loop msg pos None 0 0 []"

subsection \<open>What a successful read guarantees\<close>

lemma and_C0_lt:
  assumes "(b :: u8) AND 0xC0 = 0"
  shows "unat b < 64"
proof -
  have z: "\<not> bit (b AND 0xC0) 6" "\<not> bit (b AND 0xC0) 7" using assms by simp_all
  have "b = take_bit 6 b"
  proof (rule bit_word_eqI)
    fix n assume "n < LENGTH(8)"
    then have "n < 6 \<or> n = 6 \<or> n = 7" by auto
    then show "bit b n = bit (take_bit 6 b) n"
      using z by (auto simp: bit_simps)
  qed
  then have "unat b = take_bit 6 (unat b)" by (metis unsigned_take_bit_eq)
  then show ?thesis using take_bit_nat_less_exp [of 6 "unat b"] by simp
qed

text \<open>
  Invariant of the loop: the labels read so far are well-formed and their bytes are \<open>tot\<close>;
  \<open>e\<close>, once set, is past the start and inside the message; so is the position while it is not.
\<close>

definition read_inv :: "bytes \<Rightarrow> nat \<Rightarrow> nat \<Rightarrow> nat option \<Rightarrow> nat \<Rightarrow> bytes list \<Rightarrow> bool" where
  "read_inv msg pos p e tot ls \<longleftrightarrow>
     list_all wf_label ls \<and> tot = sum_list (map (\<lambda>l. length l + 1) ls) \<and> tot + 1 \<le> MAX_NAME_LEN \<and>
     (case e of None \<Rightarrow> pos \<le> p | Some q \<Rightarrow> pos < q \<and> q \<le> length msg)"

lemma read_loop_sound:
  "read_loop msg p e hops tot ls = Inr (n, q) \<Longrightarrow> read_inv msg pos p e tot ls \<Longrightarrow>
   wf_name n \<and> pos < q \<and> q \<le> length msg"
proof (induction msg p e hops tot ls rule: read_loop.induct)
  case (1 msg p e hops tot ls)
  note eq = "1.prems"(1) and inv = "1.prems"(2)
  obtain len where len: "get_at msg p = Some len"
    using eq by (subst (asm) read_loop.simps) (auto split: option.splits)
  consider (zero) "len = 0" | (label) "len AND 0xC0 = 0" "len \<noteq> 0" | (ptr) "len AND 0xC0 \<noteq> 0"
    by blast
  then show ?case
  proof cases
    case zero
    then have "n = Name ls" "q = (case e of None \<Rightarrow> p + 1 | Some q \<Rightarrow> q)"
      using eq len by (subst (asm) read_loop.simps; simp)+
    with inv len show ?thesis
      by (auto simp: read_inv_def wf_name_def wire_len_def rust_simps split: option.splits)
  next
    case label
    then obtain l where l: "get_range msg (p + 1) (p + 1 + unat len) = Some l"
      and fits: "tot + (unat len + 1) + 1 \<le> MAX_NAME_LEN"
      and rec: "read_loop msg (p + 1 + unat len) e hops (tot + (unat len + 1)) (ls @ [l]) = Inr (n, q)"
      using eq len by (subst (asm) read_loop.simps) (auto split: option.splits if_splits)
    have "length l = unat len" using length_get_range [OF l] by simp
    moreover have "0 < unat len" using label(2) by (simp add: unat_gt_0)
    moreover have "unat len \<le> 63" using and_C0_lt [OF label(1)] by simp
    ultimately have "read_inv msg pos (p + 1 + unat len) e (tot + (unat len + 1)) (ls @ [l])"
      using inv fits by (auto simp: read_inv_def wf_label_def MAX_LABEL_LEN_def split: option.splits)
    with label len l fits rec show ?thesis by (intro "1.IH"(1)) auto
  next
    case ptr
    then obtain lo where lo: "get_at msg (p + 1) = Some lo"
      and C0: "len AND 0xC0 = 0xC0"
      and lower: "\<not> (push_bit 8 (unat len AND 0x3F)) OR unat lo \<ge> p" and hops: "\<not> hops + 1 > 64"
      and rec: "read_loop msg ((push_bit 8 (unat len AND 0x3F)) OR unat lo)
        (case e of None \<Rightarrow> Some (p + 2) | Some q \<Rightarrow> Some q) (hops + 1) tot ls = Inr (n, q)"
      using eq len by (subst (asm) read_loop.simps) (auto simp: Let_def split: option.splits if_splits)
    have "p + 2 \<le> length msg" using lo by (simp add: rust_simps)
    then have "read_inv msg pos ((push_bit 8 (unat len AND 0x3F)) OR unat lo)
        (case e of None \<Rightarrow> Some (p + 2) | Some q \<Rightarrow> Some q) tot ls"
      using inv by (auto simp: read_inv_def split: option.splits)
    with ptr len lo C0 lower hops rec show ?thesis by (intro "1.IH"(2)) auto
  qed
qed

lemma name_read_sound:
  assumes "name_read msg pos = Inr (n, q)"
  shows "wf_name n" "pos < q" "q \<le> length msg"
  using assms read_loop_sound [of msg pos None 0 0 "[]" n q pos]
  by (auto simp: name_read_def read_inv_def MAX_NAME_LEN_def)

subsection \<open>Reading back what was written\<close>

lemma name_write_Cons: "name_write (Name (l # ls)) = word_of_nat (length l) # l @ name_write (Name ls)"
  by (simp add: name_write_def)

lemma name_write_Nil: "name_write (Name []) = [0]"
  by (simp add: name_write_def)

lemma length_name_write: "length (name_write n) = wire_len n"
  by (simp add: name_write_def wire_len_def length_concat comp_def)

lemma length_byte_and_C0:
  assumes "k \<le> 63"
  shows "(word_of_nat k :: u8) AND 0xC0 = 0"
proof -
  have "0 \<le> (word_of_nat k :: u8)" "(word_of_nat k :: u8) \<le> 63"
    using assms by (simp_all add: word_le_nat_alt unsigned_of_nat take_bit_nat_eq_self)
  then show ?thesis
    by (rule byte_interval_all [where a = 0 and c = 63, rotated]) (simp add: upt_rec)
qed

lemma read_loop_write:
  "list_all wf_label ks \<Longrightarrow> tot + sum_list (map (\<lambda>l. length l + 1) ks) + 1 \<le> MAX_NAME_LEN \<Longrightarrow>
   msg = pre @ name_write (Name ks) @ post \<Longrightarrow>
   read_loop msg (length pre) None 0 tot ls =
     Inr (Name (ls @ ks), length pre + wire_len (Name ks))"
proof (induction ks arbitrary: pre tot ls)
  case Nil
  then have "get_at msg (length pre) = Some 0"
    by (intro get_at_in_append) (auto simp: name_write_Nil)
  then show ?case by (subst read_loop.simps) (simp add: wire_len_def)
next
  case (Cons k ks)
  let ?b = "word_of_nat (length k) :: u8"
  have k: "0 < length k" "length k \<le> 63" "list_all wf_label ks"
    using Cons.prems(1) by (auto simp: wf_label_def [of k] MAX_LABEL_LEN_def)
  have b: "unat ?b = length k" using k by (simp add: unsigned_of_nat take_bit_nat_eq_self)
  have msg: "msg = pre @ ?b # k @ name_write (Name ks) @ post"
    using Cons.prems(3) by (simp add: name_write_Cons)
  have at: "get_at msg (length pre) = Some ?b"
    using msg by (intro get_at_in_append) auto
  have range: "get_range msg (length pre + 1) (length pre + 1 + length k) = Some k"
    using msg by (intro get_range_in_append [where pre = "pre @ [?b]"]) auto
  have "read_loop msg (length pre) None 0 tot ls =
      read_loop msg (length (pre @ ?b # k)) None 0 (tot + (length k + 1)) (ls @ [k])"
    using at range k b length_byte_and_C0 [OF k(2)] Cons.prems(2)
    by (subst read_loop.simps) (auto simp: word_unat_eq_iff)
  also have "\<dots> = Inr (Name ((ls @ [k]) @ ks), length (pre @ ?b # k) + wire_len (Name ks))"
    using Cons.prems k msg by (intro Cons.IH) auto
  finally show ?case by (simp add: wire_len_def)
qed

lemma name_read_write [codec_simps]:
  "wf_name n \<Longrightarrow> name_read (pre @ name_write n @ post) (length pre) = Inr (n, length pre + wire_len n)"
  using read_loop_write [of "labels n" 0 _ pre post "[]"]
  by (simp add: name_read_def wf_name_def wire_len_def)

end
