(* ===== verification/Dns_Reverse.thy ===== *)
theory Dns_Reverse
  imports Dns_Name
begin

text \<open>
  Presentation of names and reverse-mapping names: \<open>dns/src/lib.rs\<close>, lines 166 to 211 and
  316 to 335. A \<open>str\<close> is its byte sequence. \<open>Ipv4Addr\<close> and \<open>Ipv6Addr\<close> are 32-bit and 128-bit
  words; \<open>octets\<close> is their big-endian byte sequence. \<open>None\<close> models the panic of \<open>expect\<close>.
\<close>

datatype ip_addr = V4 u32 | V6 u128

section \<open>Formatting\<close>

definition digit :: "nat \<Rightarrow> u8" where
  "digit d = 48 + word_of_nat d"

text \<open>\<open>format!("{}", b)\<close>, \<open>format!("{:03}", b)\<close> and \<open>format!("{:x}", nibble)\<close>.\<close>

definition dec_u8 :: "u8 \<Rightarrow> bytes" where
  "dec_u8 b =
     (let n = unat b in
      if n \<ge> 100 then [digit (n div 100), digit (n div 10 mod 10), digit (n mod 10)]
      else if n \<ge> 10 then [digit (n div 10), digit (n mod 10)]
      else [digit n])"

definition dec3_u8 :: "u8 \<Rightarrow> bytes" where
  "dec3_u8 b =
     (let n = unat b in [digit (n div 100), digit (n div 10 mod 10), digit (n mod 10)])"

definition hex_digit :: "u8 \<Rightarrow> u8" where
  "hex_digit n = (if n < 10 then 48 + n else 87 + n)"

definition display_byte :: "u8 \<Rightarrow> bytes" where
  "display_byte b =
     (if b = 46 \<or> b = 92 then [92, b]
      else if 0x21 \<le> b \<and> b \<le> 0x7e then [b]
      else 92 # dec3_u8 b)"

definition name_display :: "name \<Rightarrow> bytes" where
  "name_display n =
     (if labels n = [] then [46]
      else dotted (map (\<lambda>l. concat (map display_byte l)) (labels n)))"

section \<open>Parsing numbers\<close>

text \<open>
  \<open>str::parse::<u8>()\<close>: an optional plus sign, at least one digit, no overflow. Non-ASCII
  bytes fail the digit test, so the preceding \<open>from_utf8\<close> check of the source adds nothing.
\<close>

fun parse_digits :: "nat \<Rightarrow> bytes \<Rightarrow> nat option" where
  "parse_digits acc [] = Some acc"
| "parse_digits acc (b # bs) =
     (if 48 \<le> b \<and> b \<le> 57 then
        (let acc' = acc * 10 + unat (b - 48) in
         if acc' > 255 then None else parse_digits acc' bs)
      else None)"

definition parse_u8 :: "bytes \<Rightarrow> u8 option" where
  "parse_u8 s =
     (case s of
        [] \<Rightarrow> None
      | b # bs \<Rightarrow>
          if (b = 43 \<or> b = 45) \<and> bs = [] then None
          else map_option word_of_nat (parse_digits 0 (if b = 43 then bs else s)))"

text \<open>\<open>char::to_digit(16)\<close>.\<close>

definition to_digit16 :: "u8 \<Rightarrow> u8 option" where
  "to_digit16 b =
     (if 48 \<le> b \<and> b \<le> 57 then Some (b - 48)
      else if 97 \<le> b \<and> b \<le> 102 then Some (b - 87)
      else if 65 \<le> b \<and> b \<le> 70 then Some (b - 55)
      else None)"

section \<open>Reverse-mapping names\<close>

definition in_addr_arpa :: name where
  "in_addr_arpa = Name [byte_str ''in-addr'', byte_str ''arpa'']"

definition ip6_arpa :: name where
  "ip6_arpa = Name [byte_str ''ip6'', byte_str ''arpa'']"

definition reverse_v4 :: "u32 \<Rightarrow> name option" where
  "reverse_v4 a =
     (let ob = be_bytes 4 a in
      ok (parse (dec_u8 (ob ! 3) @ 46 # dec_u8 (ob ! 2) @ 46 # dec_u8 (ob ! 1) @ 46 #
                 dec_u8 (ob ! 0) @ 46 # byte_str ''in-addr.arpa'')))"

definition reverse_v6 :: "u128 \<Rightarrow> name option" where
  "reverse_v6 a =
     ok (parse (concat (map (\<lambda>b. [hex_digit (b AND 15), 46, hex_digit (drop_bit 4 b), 46])
                            (rev (be_bytes 16 a))) @ byte_str ''ip6.arpa''))"

fun fill_v4 :: "nat \<Rightarrow> bytes list \<Rightarrow> bytes \<Rightarrow> bytes option" where
  "fill_v4 i [] ob = Some ob"
| "fill_v4 i (l # ls) ob =
     (case parse_u8 l of
        None \<Rightarrow> None
      | Some b \<Rightarrow> fill_v4 (i + 1) ls (ob[3 - i := b]))"

fun fill_v6 :: "nat \<Rightarrow> bytes list \<Rightarrow> bytes \<Rightarrow> bytes option" where
  "fill_v6 i [] ob = Some ob"
| "fill_v6 i (l # ls) ob =
     (if length l \<noteq> 1 then None
      else case to_digit16 (l ! 0) of
             None \<Rightarrow> None
           | Some nibble \<Rightarrow>
               let byte = 15 - i div 2 in
               fill_v6 (i + 1) ls
                 (if i mod 2 = 0 then ob[byte := ob ! byte OR nibble]
                  else ob[byte := ob ! byte OR push_bit 4 nibble]))"

definition reverse_address :: "name \<Rightarrow> ip_addr option" where
  "reverse_address n =
     (if ends_with n in_addr_arpa \<and> length (labels n) = 6 then
        map_option (\<lambda>ob. V4 (from_be ob)) (fill_v4 0 (take 4 (labels n)) (replicate 4 0))
      else if ends_with n ip6_arpa \<and> length (labels n) = 34 then
        map_option (\<lambda>ob. V6 (from_be ob)) (fill_v6 0 (take 32 (labels n)) (replicate 16 0))
      else None)"

lemma byte_str_arpa:
  "byte_str ''in-addr.arpa'' = dotted [byte_str ''in-addr'', byte_str ''arpa'']"
  "byte_str ''ip6.arpa'' = dotted [byte_str ''ip6'', byte_str ''arpa'']"
  by (simp_all add: byte_str_def)

lemma parse_arpa:
  "parse (byte_str ''in-addr.arpa'') = Inr in_addr_arpa"
  "parse (byte_str ''ip6.arpa'') = Inr ip6_arpa"
  unfolding byte_str_arpa in_addr_arpa_def ip6_arpa_def
  by (rule parse_dotted; simp add: byte_str_def wf_name_def wf_label_def wire_len_def limits)+

subsection \<open>Digits\<close>

lemma digit_facts:
  assumes "d < 10"
  shows "48 \<le> digit d" "digit d \<le> 57" "unat (digit d - 48) = d" "digit d \<noteq> 43" "digit d \<noteq> 45"
    "digit d \<noteq> 46"
proof -
  have "d \<in> set [0..<10]" using assms by simp
  then have "d = 0 \<or> d = 1 \<or> d = 2 \<or> d = 3 \<or> d = 4 \<or> d = 5 \<or> d = 6 \<or> d = 7 \<or> d = 8 \<or> d = 9"
    by auto
  then show "48 \<le> digit d" "digit d \<le> 57" "unat (digit d - 48) = d" "digit d \<noteq> 43" "digit d \<noteq> 45"
    "digit d \<noteq> 46"
    by (elim disjE; simp add: digit_def)+
qed

lemma unat_u8_lt: "unat (b :: u8) < 256"
  using unsigned_less [of b] by simp

lemma parse_digits_digit:
  "d < 10 \<Longrightarrow> acc * 10 + d \<le> 255 \<Longrightarrow>
   parse_digits acc (digit d # bs) = parse_digits (acc * 10 + d) bs"
  by (simp add: digit_facts Let_def)

lemma dec_u8_cases:
  obtains d ds where "dec_u8 b = digit d # ds" "d < 10" "set ds \<subseteq> digit ` {..<10}"
    "length ds \<le> 2"
proof -
  have n: "unat b < 256" by (rule unat_u8_lt)
  consider "unat b \<ge> 100" | "10 \<le> unat b" "unat b < 100" "unat b div 10 < 10" | "unat b < 10"
    by linarith
  then show thesis
  proof cases
    case 1
    have "dec_u8 b = digit (unat b div 100) # [digit (unat b div 10 mod 10), digit (unat b mod 10)]"
      using 1 by (simp add: dec_u8_def Let_def)
    then show thesis by (rule that) (use n in auto)
  next
    case 2
    then have "dec_u8 b = digit (unat b div 10) # [digit (unat b mod 10)]" by (simp add: dec_u8_def Let_def)
    then show thesis by (rule that) (use 2 in auto)
  next
    case 3
    then show thesis by (intro that [of "unat b" "[]"]) (auto simp: dec_u8_def)
  qed
qed

lemma parse_digits_3:
  assumes "a < 10" "b < 10" "c < 10" "(a * 10 + b) * 10 + c \<le> 255"
  shows "parse_digits 0 [digit a, digit b, digit c] = Some ((a * 10 + b) * 10 + c)"
  using assms by (simp add: parse_digits_digit del: parse_digits.simps(2))

lemma parse_digits_2:
  "a < 10 \<Longrightarrow> b < 10 \<Longrightarrow> parse_digits 0 [digit a, digit b] = Some (a * 10 + b)"
  by (simp add: parse_digits_digit del: parse_digits.simps(2))

lemma parse_digits_dec: "parse_digits 0 (dec_u8 b) = Some (unat b)"
proof -
  define n where "n = unat b"
  have n: "n < 256" by (simp add: n_def unat_u8_lt)
  consider "n \<ge> 100" | "10 \<le> n" "n < 100" | "n < 10" by linarith
  then have "parse_digits 0 (dec_u8 b) = Some n"
  proof cases
    case 1
    have eq: "(n div 100 * 10 + n div 10 mod 10) * 10 + n mod 10 = n"
      using div_mult2_eq [of n 10 10] by simp
    have "parse_digits 0 [digit (n div 100), digit (n div 10 mod 10), digit (n mod 10)] = Some n"
      using parse_digits_3 [of "n div 100" "n div 10 mod 10" "n mod 10"] n unfolding eq by simp
    with 1 show ?thesis by (simp add: dec_u8_def n_def Let_def del: parse_digits.simps(2))
  next
    case 2
    have eq: "n div 10 * 10 + n mod 10 = n" by simp
    have "parse_digits 0 [digit (n div 10), digit (n mod 10)] = Some n"
      using parse_digits_2 [of "n div 10" "n mod 10"] 2 unfolding eq by simp
    with 2 show ?thesis by (simp add: dec_u8_def n_def Let_def del: parse_digits.simps(2))
  next
    case 3
    then show ?thesis
      by (simp add: dec_u8_def n_def parse_digits_digit del: parse_digits.simps(2))
  qed
  then show ?thesis by (simp add: n_def)
qed

lemma parse_dec_u8: "parse_u8 (dec_u8 b) = Some b"
proof -
  obtain d ds where d: "dec_u8 b = digit d # ds" "d < 10" by (rule dec_u8_cases)
  then show ?thesis
    using parse_digits_dec [of b] digit_facts(4,5) [of d]
    by (simp add: parse_u8_def del: parse_digits.simps(2))
qed

lemma dec_u8_label: "wf_label (dec_u8 b)" "46 \<notin> set (dec_u8 b)" "length (dec_u8 b) \<le> 3"
proof -
  obtain d ds where d: "dec_u8 b = digit d # ds" "d < 10" "set ds \<subseteq> digit ` {..<10}"
    "length ds \<le> 2" by (rule dec_u8_cases)
  show "wf_label (dec_u8 b)" "length (dec_u8 b) \<le> 3"
    using d by (simp_all add: wf_label_def MAX_LABEL_LEN_def)
  show "46 \<notin> set (dec_u8 b)" using d digit_facts(6) by (fastforce simp: subset_iff)
qed

lemma hex_digit_facts:
  assumes "n < 16"
  shows "to_digit16 (hex_digit n) = Some n" "hex_digit n \<noteq> 46"
proof -
  have "0 \<le> n" "n \<le> 15" using assms by (simp_all add: word_le_nat_alt word_less_nat_alt)
  then show "to_digit16 (hex_digit n) = Some n" "hex_digit n \<noteq> 46"
    by (rule byte_interval_all [where a = 0 and c = 15, rotated];
        simp add: upt_rec to_digit16_def hex_digit_def)+
qed

lemma nibbles:
  "(b :: u8) AND 15 < 16" "drop_bit 4 b < 16" "(b AND 15) OR push_bit 4 (drop_bit 4 b) = b"
proof -
  have "unat (b AND 15) \<le> 15"
    using word_and_le1 [of b 15] by (simp add: word_le_nat_alt)
  then show "b AND 15 < 16" by (simp add: word_less_nat_alt)
  have "unat (drop_bit 4 b) = unat b div 16"
    by (simp add: drop_bit_eq_div unat_div)
  then show "drop_bit 4 b < 16" using unat_u8_lt [of b] by (simp add: word_less_nat_alt)
  have "(b AND 15) = take_bit 4 b" by (simp add: take_bit_eq_mask mask_eq_decr_exp)
  then show "(b AND 15) OR push_bit 4 (drop_bit 4 b) = b"
  proof (intro bit_word_eqI)
    fix n
    show "bit ((b AND 15) OR push_bit 4 (drop_bit 4 b)) n = bit b n" if "n < LENGTH(8)"
      using that \<open>b AND 15 = take_bit 4 b\<close> by (cases "n < 4") (auto simp: bit_simps)
  qed
qed

subsection \<open>Round trips\<close>

lemma reverse_v4_labels:
  "reverse_v4 a = Some (Name [dec_u8 (be_bytes 4 a ! 3), dec_u8 (be_bytes 4 a ! 2),
     dec_u8 (be_bytes 4 a ! 1), dec_u8 (be_bytes 4 a ! 0), byte_str ''in-addr'', byte_str ''arpa''])"
proof -
  define ls where "ls = [dec_u8 (be_bytes 4 a ! 3), dec_u8 (be_bytes 4 a ! 2),
     dec_u8 (be_bytes 4 a ! 1), dec_u8 (be_bytes 4 a ! 0), byte_str ''in-addr'', byte_str ''arpa'']"
  have "wire_len (Name ls) \<le> MAX_NAME_LEN"
    using dec_u8_label(3) [of "be_bytes 4 a ! 3"] dec_u8_label(3) [of "be_bytes 4 a ! 2"]
      dec_u8_label(3) [of "be_bytes 4 a ! Suc 0"] dec_u8_label(3) [of "be_bytes 4 a ! 0"]
    by (simp add: ls_def wire_len_def byte_str_def limits)
  then have "wf_name (Name ls)"
    by (simp add: ls_def wf_name_def dec_u8_label byte_str_def wf_label_def [of "_ # _"] limits)
  moreover have "\<forall>l \<in> set ls. 46 \<notin> set l"
    by (simp add: ls_def dec_u8_label byte_str_def)
  ultimately have "parse (dotted ls) = Inr (Name ls)" by (rule parse_dotted)
  then show ?thesis
    by (simp add: reverse_v4_def Let_def ls_def byte_str_arpa)
qed

lemma list4: "length xs = 4 \<Longrightarrow> [xs ! 0, xs ! 1, xs ! 2, xs ! 3] = xs"
  by (cases xs; cases "tl xs"; cases "tl (tl xs)"; cases "tl (tl (tl xs))") auto

lemma ends_with_append: "ends_with (Name (ls @ labels s)) s"
  by (simp add: ends_with_iff to_lowercase_def suffix_def)

lemma reverse_v4_address: "Option.bind (reverse_v4 a) reverse_address = Some (V4 a)"
proof -
  let ?o = "be_bytes 4 a"
  have "ends_with (Name ([dec_u8 (?o ! 3), dec_u8 (?o ! 2), dec_u8 (?o ! 1), dec_u8 (?o ! 0)] @
      labels in_addr_arpa)) in_addr_arpa" by (rule ends_with_append)
  moreover have "fill_v4 0 [dec_u8 (?o ! 3), dec_u8 (?o ! 2), dec_u8 (?o ! 1), dec_u8 (?o ! 0)]
      [0, 0, 0, 0] = Some ?o"
    using list4 [of ?o] by (simp add: parse_dec_u8)
  moreover have "replicate 4 (0 :: u8) = [0, 0, 0, 0]" by (simp add: numeral_eq_Suc)
  moreover have "from_be ?o = a" by (rule from_be_be_bytes) simp
  ultimately show ?thesis
    by (simp add: reverse_v4_labels reverse_address_def in_addr_arpa_def)
qed

definition nibble_labels :: "bytes \<Rightarrow> bytes list" where
  "nibble_labels bs = concat (map (\<lambda>b. [[hex_digit (b AND 15)], [hex_digit (drop_bit 4 b)]]) bs)"

lemma nibble_labels_simps [simp]:
  "nibble_labels [] = []"
  "nibble_labels (b # bs) = [hex_digit (b AND 15)] # [hex_digit (drop_bit 4 b)] # nibble_labels bs"
  by (simp_all add: nibble_labels_def)

lemma length_nibble_labels [simp]: "length (nibble_labels bs) = 2 * length bs"
  by (induction bs) auto

lemma wire_nibble_labels: "sum_list (map (\<lambda>l. length l + 1) (nibble_labels bs)) = 4 * length bs"
  by (induction bs) auto

lemma nibble_labels_plain:
  "list_all wf_label (nibble_labels bs)" "\<forall>l \<in> set (nibble_labels bs). 46 \<notin> set l"
  by (induction bs) (auto simp: wf_label_def MAX_LABEL_LEN_def hex_digit_facts nibbles)

lemma dotted_nibbles:
  "ls \<noteq> [] \<Longrightarrow>
   concat (map (\<lambda>b. [hex_digit (b AND 15), 46, hex_digit (drop_bit 4 b), 46]) bs) @ dotted ls =
   dotted (nibble_labels bs @ ls)"
proof (induction bs)
  case (Cons b bs)
  then have "nibble_labels bs @ ls \<noteq> []" by simp
  then obtain m ms where m: "nibble_labels bs @ ls = m # ms" by (cases "nibble_labels bs @ ls") auto
  with Cons show ?case by simp
qed simp

lemma reverse_v6_labels:
  "reverse_v6 a = Some (Name (nibble_labels (rev (be_bytes 16 a)) @ labels ip6_arpa))"
proof -
  let ?ls = "nibble_labels (rev (be_bytes 16 a)) @ [byte_str ''ip6'', byte_str ''arpa'']"
  have "wf_name (Name ?ls)"
    by (simp add: wf_name_def wire_len_def nibble_labels_plain wire_nibble_labels [simplified]
        byte_str_def wf_label_def limits)
  moreover have "\<forall>l \<in> set ?ls. 46 \<notin> set l"
    using nibble_labels_plain(2) by (auto simp: byte_str_def)
  ultimately have "parse (dotted ?ls) = Inr (Name ?ls)" by (rule parse_dotted)
  then show ?thesis
    by (simp add: reverse_v6_def byte_str_arpa dotted_nibbles ip6_arpa_def del: dotted.simps)
qed

lemma fill_v6_step:
  assumes "k < 16" "length ob = 16" "ob ! (15 - k) = 0"
  shows "fill_v6 (2 * k) ([hex_digit (x AND 15)] # [hex_digit (drop_bit 4 x)] # ls) ob =
    fill_v6 (2 * Suc k) ls (ob[15 - k := x])"
  using assms by (simp add: hex_digit_facts nibbles Let_def)

lemma fill_v6_nibbles:
  "length ob = 16 \<Longrightarrow> k + length xs \<le> 16 \<Longrightarrow> \<forall>i. i + k < 16 \<longrightarrow> ob ! i = 0 \<Longrightarrow>
   fill_v6 (2 * k) (nibble_labels xs) ob =
     Some (take (16 - k - length xs) ob @ rev xs @ drop (16 - k) ob)"
proof (induction xs arbitrary: k ob)
  case Nil
  then show ?case by simp
next
  case (Cons x xs)
  let ?ob = "ob[15 - k := x]"
  have "fill_v6 (2 * k) (nibble_labels (x # xs)) ob = fill_v6 (2 * Suc k) (nibble_labels xs) ?ob"
    using Cons.prems by (simp only: nibble_labels_simps) (rule fill_v6_step; simp)
  also have "\<dots> = Some (take (16 - Suc k - length xs) ?ob @ rev xs @ drop (16 - Suc k) ?ob)"
    using Cons.prems by (intro Cons.IH) auto
  also have "take (16 - Suc k - length xs) ?ob = take (16 - k - length (x # xs)) ob"
    using Cons.prems by simp
  also have "drop (16 - Suc k) ?ob = x # drop (16 - k) ob"
  proof -
    have "16 - Suc k = 15 - k" "Suc (15 - k) = 16 - k" "15 - k < length ?ob"
      using Cons.prems by auto
    then show ?thesis by (simp add: Cons_nth_drop_Suc [symmetric])
  qed
  finally show ?case by simp
qed

lemma reverse_v6_address: "Option.bind (reverse_v6 a) reverse_address = Some (V6 a)"
proof -
  let ?o = "be_bytes 16 a"
  have n: "\<not> (ends_with n in_addr_arpa \<and> length (labels n) = 6)"
    if "length (labels n) = 34" for n using that by simp
  have "fill_v6 (2 * 0) (nibble_labels (rev ?o)) (replicate 16 0) =
      Some (take (16 - 0 - length (rev ?o)) (replicate 16 0) @ rev (rev ?o) @ drop (16 - 0) (replicate 16 0))"
    by (rule fill_v6_nibbles) auto
  then have "fill_v6 0 (nibble_labels (rev ?o)) (replicate 16 0) = Some ?o" by simp
  moreover have "from_be ?o = a" by (rule from_be_be_bytes) simp
  moreover have "ends_with (Name (nibble_labels (rev ?o) @ labels ip6_arpa)) ip6_arpa"
    by (rule ends_with_append)
  ultimately show ?thesis
    by (simp add: reverse_v6_labels reverse_address_def) (simp add: ip6_arpa_def)
qed

subsection \<open>Display and parse\<close>

definition plain_byte :: "u8 \<Rightarrow> bool" where
  "plain_byte b \<longleftrightarrow> 0x21 \<le> b \<and> b \<le> 0x7e \<and> b \<noteq> 46 \<and> b \<noteq> 92"

definition plain_name :: "name \<Rightarrow> bool" where
  "plain_name n \<longleftrightarrow> list_all (list_all plain_byte) (labels n)"

lemma display_plain_label: "list_all plain_byte l \<Longrightarrow> concat (map display_byte l) = l"
  by (induction l) (auto simp: display_byte_def plain_byte_def)

lemma parse_display:
  assumes "wf_name n" "plain_name n"
  shows "parse (name_display n) = Inr n"
proof (cases "labels n = []")
  case True
  then have "n = root" by (cases n) (simp add: root_def)
  then show ?thesis by (simp add: name_display_def parse_def strip_dot_def root_def)
next
  case False
  have "map (\<lambda>l. concat (map display_byte l)) (labels n) = labels n"
    using assms(2) by (simp add: plain_name_def list_all_iff display_plain_label map_idI)
  then have "name_display n = dotted (labels n)" using False by (simp add: name_display_def)
  moreover have "\<forall>l \<in> set (labels n). 46 \<notin> set l"
    using assms(2) by (auto simp: plain_name_def list_all_iff plain_byte_def)
  ultimately show ?thesis using assms(1) parse_dotted [of "labels n"] by simp
qed

lemma plain_digit: "d < 10 \<Longrightarrow> plain_byte (digit d)"
proof -
  assume "d < 10"
  then have "48 \<le> digit d" "digit d \<le> 57" by (rule digit_facts)+
  then show ?thesis
    by (rule byte_interval_all [where a = 48 and c = 57, rotated]) (simp add: upt_rec plain_byte_def)
qed

lemma plain_dec_u8: "list_all plain_byte (dec_u8 b)"
proof -
  obtain d ds where "dec_u8 b = digit d # ds" "d < 10" "set ds \<subseteq> digit ` {..<10}"
    by (rule dec_u8_cases)
  then show ?thesis by (auto simp: list_all_iff plain_digit)
qed

lemma plain_hex_digit: "n < 16 \<Longrightarrow> plain_byte (hex_digit n)"
proof -
  assume "n < 16"
  then have "0 \<le> n" "n \<le> 15" by (simp_all add: word_le_nat_alt word_less_nat_alt)
  then show ?thesis
    by (rule byte_interval_all [where a = 0 and c = 15, rotated])
       (simp add: upt_rec plain_byte_def hex_digit_def)
qed

lemma plain_reverse_v4: "reverse_v4 a = Some n \<Longrightarrow> plain_name n"
  by (auto simp: reverse_v4_labels plain_name_def plain_dec_u8 byte_str_def plain_byte_def)

lemma plain_nibble_labels: "list_all (list_all plain_byte) (nibble_labels bs)"
  by (induction bs) (auto simp: plain_hex_digit nibbles)

lemma plain_reverse_v6: "reverse_v6 a = Some n \<Longrightarrow> plain_name n"
  by (auto simp: reverse_v6_labels plain_name_def plain_nibble_labels ip6_arpa_def byte_str_def
      plain_byte_def)

lemma wf_reverse:
  "reverse_v4 a = Some n \<Longrightarrow> wf_name n" "reverse_v6 b = Some n \<Longrightarrow> wf_name n"
  by (auto simp: reverse_v4_def reverse_v6_def Let_def rust_simps dest: parse_Inr_wf)

subsection \<open>Presentation is injective\<close>

lemma div_mod_eq_imp: "(m :: nat) div k = n div k \<Longrightarrow> m mod k = n mod k \<Longrightarrow> m = n"
  by (metis div_mult_mod_eq)

lemma dec3_u8_inj: "dec3_u8 b = dec3_u8 c \<Longrightarrow> b = c"
proof -
  assume eq: "dec3_u8 b = dec3_u8 c"
  have lt: "unat b div 100 < 10" "unat c div 100 < 10" using unat_u8_lt [of b] unat_u8_lt [of c] by simp_all
  have dg: "m < 10 \<Longrightarrow> n < 10 \<Longrightarrow> digit m = digit n \<Longrightarrow> m = n" for m n
    by (metis digit_facts(3))
  have eqs: "digit (unat b div 100) = digit (unat c div 100)"
    "digit (unat b div 10 mod 10) = digit (unat c div 10 mod 10)"
    "digit (unat b mod 10) = digit (unat c mod 10)"
    using eq unfolding dec3_u8_def Let_def list.inject by blast+
  have digits: "unat b div 100 = unat c div 100" "unat b div 10 mod 10 = unat c div 10 mod 10"
    "unat b mod 10 = unat c mod 10"
    by (rule dg [OF lt eqs(1)], rule dg [OF _ _ eqs(2)], simp, simp, rule dg [OF _ _ eqs(3)], simp, simp)
  have hundred: "m div 100 = m div 10 div 10" for m :: nat
    using div_mult2_eq [of m 10 10] by simp
  have "unat b div 10 = unat c div 10"
    by (rule div_mod_eq_imp [OF digits(1) [unfolded hundred] digits(2)])
  then have "unat b = unat c" by (rule div_mod_eq_imp [OF _ digits(3)])
  then show ?thesis by (simp add: word_unat_eq_iff)
qed

lemma dec3_u8_head: "dec3_u8 b ! 0 \<noteq> 46" "dec3_u8 b ! 0 \<noteq> 92" "length (dec3_u8 b) = 3"
proof -
  have lt: "unat b div 100 < 10" using unat_u8_lt [of b] by auto
  have "digit (unat b div 100) \<le> 57" using digit_facts(2) [OF lt] .
  then have "digit (unat b div 100) \<noteq> 92" by auto
  then show "dec3_u8 b ! 0 \<noteq> 46" "dec3_u8 b ! 0 \<noteq> 92" "length (dec3_u8 b) = 3"
    using digit_facts(6) [OF lt] by (simp_all add: dec3_u8_def Let_def)
qed

lemma display_byte_inj:
  assumes "display_byte b @ xs = display_byte c @ ys"
  shows "b = c \<and> xs = ys"
proof -
  obtain d1 d2 d3 where d: "dec3_u8 b = [d1, d2, d3]" "d1 \<noteq> 46" "d1 \<noteq> 92"
    using dec3_u8_head [of b] by (auto simp: dec3_u8_def Let_def)
  obtain f1 f2 f3 where f: "dec3_u8 c = [f1, f2, f3]" "f1 \<noteq> 46" "f1 \<noteq> 92"
    using dec3_u8_head [of c] by (auto simp: dec3_u8_def Let_def)
  show ?thesis
    using assms dec3_u8_inj [of b c] d f by (auto simp: display_byte_def split: if_splits)
qed

lemma display_byte_head: "display_byte b \<noteq> []" "hd (display_byte b) \<noteq> 46"
  by (auto simp: display_byte_def)

definition display_label :: "bytes \<Rightarrow> bytes" where
  "display_label l = concat (map display_byte l)"

lemma display_label_inj:
  assumes "display_label l @ r = display_label l' @ r'"
    and "r = [] \<or> hd r = 46" "r' = [] \<or> hd r' = 46"
  shows "l = l' \<and> r = r'"
  using assms
proof (induction l arbitrary: l')
  case Nil
  then show ?case using display_byte_head
    by (cases l') (auto simp: display_label_def hd_append)
next
  case (Cons b l)
  show ?case
  proof (cases l')
    case Nil
    then show ?thesis using Cons.prems display_byte_head [of b] by (auto simp: display_label_def hd_append)
  next
    case (Cons c l'')
    then have "display_byte b @ (display_label l @ r) = display_byte c @ (display_label l'' @ r')"
      using Cons.prems(1) by (simp add: display_label_def)
    from display_byte_inj [OF this] Cons.IH Cons.prems(2,3) show ?thesis using Cons by auto
  qed
qed

lemma dotted_display_inj:
  assumes "dotted (map display_label ls) = dotted (map display_label ls')" "ls \<noteq> []" "ls' \<noteq> []"
  shows "ls = ls'"
  using assms
proof (induction ls arbitrary: ls')
  case (Cons l ls)
  obtain l' ls2 where ls': "ls' = l' # ls2" using Cons.prems(3) by (cases ls') auto
  define tail where "tail xs = (if xs = [] then [] else 46 # dotted (map display_label xs))" for xs
  have dot: "dotted (map display_label (x # xs)) = display_label x @ tail xs" for x xs
    by (cases xs) (simp_all add: tail_def)
  have "l = l' \<and> tail ls = tail ls2"
    using Cons.prems(1) unfolding ls' dot
    by (rule display_label_inj) (simp_all add: tail_def)
  then show ?case using Cons.IH [of ls2] ls' by (auto simp: tail_def split: if_splits)
qed simp

lemma name_display_inj:
  assumes "wf_name a" "wf_name b" "name_display a = name_display b"
  shows "a = b"
proof -
  have nd: "name_display n = (if labels n = [] then [46] else dotted (map display_label (labels n)))" for n
    by (simp add: name_display_def display_label_def [abs_def])
  have hd: "dotted (map display_label (labels n)) \<noteq> [46]" if wf: "wf_name n" and ne: "labels n \<noteq> []" for n
  proof -
    obtain l ls where l: "labels n = l # ls" using ne by (cases "labels n") auto
    then obtain b bs where "l = b # bs" using wf by (cases l) (auto simp: wf_name_def wf_label_def)
    then have "dotted (map display_label (labels n)) = display_byte b @ (display_label bs @
        (if ls = [] then [] else 46 # dotted (map display_label ls)))"
      using l by (cases ls) (simp_all add: display_label_def)
    then have "hd (dotted (map display_label (labels n))) = hd (display_byte b)"
      using display_byte_head(1) [of b] by (simp add: hd_append)
    then show ?thesis using display_byte_head(2) [of b] by force
  qed
  show ?thesis using assms hd [of a] hd [of b] dotted_display_inj [of "labels a" "labels b"]
    by (auto simp: nd name.expand split: if_splits)
qed

end
