(* ===== verification/Dns_Message.thy ===== *)
theory Dns_Message
  imports Dns_Reverse
begin

unbundle bit_operations_syntax

text \<open>
  The DNS message format: \<open>dns/src/lib.rs\<close>, lines 343 to 963. Header flags, questions,
  records with typed data, and the whole message with its encoder and decoder.
\<close>

section \<open>Constants\<close>

abbreviation RT_A :: u16 where "RT_A \<equiv> 1"
abbreviation RT_NS :: u16 where "RT_NS \<equiv> 2"
abbreviation RT_CNAME :: u16 where "RT_CNAME \<equiv> 5"
abbreviation RT_SOA :: u16 where "RT_SOA \<equiv> 6"
abbreviation RT_PTR :: u16 where "RT_PTR \<equiv> 12"
abbreviation RT_MX :: u16 where "RT_MX \<equiv> 15"
abbreviation RT_TXT :: u16 where "RT_TXT \<equiv> 16"
abbreviation RT_AAAA :: u16 where "RT_AAAA \<equiv> 28"
abbreviation RT_SRV :: u16 where "RT_SRV \<equiv> 33"
abbreviation RT_OPT :: u16 where "RT_OPT \<equiv> 41"
abbreviation RT_ANY :: u16 where "RT_ANY \<equiv> 255"
abbreviation CLASS_IN :: u16 where "CLASS_IN \<equiv> 1"
abbreviation NOERROR :: u8 where "NOERROR \<equiv> 0"
abbreviation FORMERR :: u8 where "FORMERR \<equiv> 1"
abbreviation SERVFAIL :: u8 where "SERVFAIL \<equiv> 2"
abbreviation NXDOMAIN :: u8 where "NXDOMAIN \<equiv> 3"
abbreviation NOTIMP :: u8 where "NOTIMP \<equiv> 4"
abbreviation REFUSED :: u8 where "REFUSED \<equiv> 5"

section \<open>Header\<close>

record header =
  hdr_id :: u16
  response :: bool
  opcode :: u8
  authoritative :: bool
  truncated :: bool
  recursion_desired :: bool
  recursion_available :: bool
  authentic_data :: bool
  checking_disabled :: bool
  hdr_rcode :: u8

definition default_header :: header where
  "default_header =
     \<lparr>hdr_id = 0, response = False, opcode = 0, authoritative = False, truncated = False,
      recursion_desired = False, recursion_available = False, authentic_data = False,
      checking_disabled = False, hdr_rcode = 0\<rparr>"

definition flags :: "header \<Rightarrow> u16" where
  "flags h =
     push_bit 15 (of_bool (response h))
     OR push_bit 11 (ucast (opcode h) AND 0xF)
     OR push_bit 10 (of_bool (authoritative h))
     OR push_bit 9 (of_bool (truncated h))
     OR push_bit 8 (of_bool (recursion_desired h))
     OR push_bit 7 (of_bool (recursion_available h))
     OR push_bit 5 (of_bool (authentic_data h))
     OR push_bit 4 (of_bool (checking_disabled h))
     OR (ucast (hdr_rcode h) AND 0xF)"

definition from_flags :: "u16 \<Rightarrow> u16 \<Rightarrow> header" where
  "from_flags i f =
     \<lparr>hdr_id = i,
      response = (f AND 0x8000 \<noteq> 0),
      opcode = ucast (drop_bit 11 f AND 0xF),
      authoritative = (f AND 0x0400 \<noteq> 0),
      truncated = (f AND 0x0200 \<noteq> 0),
      recursion_desired = (f AND 0x0100 \<noteq> 0),
      recursion_available = (f AND 0x0080 \<noteq> 0),
      authentic_data = (f AND 0x0020 \<noteq> 0),
      checking_disabled = (f AND 0x0010 \<noteq> 0),
      hdr_rcode = ucast (f AND 0xF)\<rparr>"

definition wf_header :: "header \<Rightarrow> bool" where
  "wf_header h \<longleftrightarrow> opcode h < 16 \<and> hdr_rcode h < 16"

lemma and_mask_bit:
  "(f :: u16) AND 0x8000 \<noteq> 0 \<longleftrightarrow> bit f 15" "f AND 0x0400 \<noteq> 0 \<longleftrightarrow> bit f 10"
  "f AND 0x0200 \<noteq> 0 \<longleftrightarrow> bit f 9" "f AND 0x0100 \<noteq> 0 \<longleftrightarrow> bit f 8"
  "f AND 0x0080 \<noteq> 0 \<longleftrightarrow> bit f 7" "f AND 0x0020 \<noteq> 0 \<longleftrightarrow> bit f 5"
  "f AND 0x0010 \<noteq> 0 \<longleftrightarrow> bit f 4"
  using and_exp_eq_0_iff_not_bit [of f 15] and_exp_eq_0_iff_not_bit [of f 10]
    and_exp_eq_0_iff_not_bit [of f 9] and_exp_eq_0_iff_not_bit [of f 8]
    and_exp_eq_0_iff_not_bit [of f 7] and_exp_eq_0_iff_not_bit [of f 5]
    and_exp_eq_0_iff_not_bit [of f 4]
  by simp_all

lemma and_0xF: "(w :: 'a::len word) AND 0xF = take_bit 4 w"
  by (simp add: take_bit_eq_mask mask_eq_decr_exp)

lemma nibble_bit:
  assumes "(b :: u8) < 16" "bit b k"
  shows "k < 4"
proof -
  have "b = take_bit 4 b"
    using assms(1)
    by (simp add: word_unat_eq_iff unsigned_take_bit_eq take_bit_nat_eq_self word_less_nat_alt)
  then show ?thesis using assms(2) by (metis bit_take_bit_iff)
qed

lemma bit_flag: "n < 16 \<Longrightarrow> bit (push_bit n (of_bool b) :: u16) k \<longleftrightarrow> k = n \<and> b"
  by (auto simp: bit_simps)

lemma bit_opcode:
  "bit (push_bit 11 (ucast (x :: u8) AND 0xF) :: u16) k \<longleftrightarrow> 11 \<le> k \<and> k < 15 \<and> bit x (k - 11)"
  by (auto simp: and_0xF bit_simps)

lemma bit_rcode: "bit (ucast (x :: u8) AND 0xF :: u16) k \<longleftrightarrow> k < 4 \<and> bit x k"
  by (auto simp: and_0xF bit_simps)

lemma bit_flags:
  "bit (flags h) k \<longleftrightarrow>
     k = 15 \<and> response h \<or> 11 \<le> k \<and> k < 15 \<and> bit (opcode h) (k - 11) \<or>
     k = 10 \<and> authoritative h \<or> k = 9 \<and> truncated h \<or> k = 8 \<and> recursion_desired h \<or>
     k = 7 \<and> recursion_available h \<or> k = 5 \<and> authentic_data h \<or>
     k = 4 \<and> checking_disabled h \<or> k < 4 \<and> bit (hdr_rcode h) k"
  unfolding flags_def bit_or_iff bit_opcode bit_rcode by (simp add: bit_flag)

lemma from_flags_flags:
  assumes "wf_header h"
  shows "from_flags (hdr_id h) (flags h) = h"
proof -
  have "ucast (drop_bit 11 (flags h) AND 0xF) = opcode h"
    using assms by (intro bit_word_eqI) (auto simp: and_0xF bit_simps bit_flags wf_header_def dest: nibble_bit)
  moreover have "ucast (flags h AND 0xF) = hdr_rcode h"
    using assms by (intro bit_word_eqI) (auto simp: and_0xF bit_simps bit_flags wf_header_def dest: nibble_bit)
  ultimately show ?thesis
    by (simp add: from_flags_def and_mask_bit bit_flags)
qed

lemma wf_from_flags: "wf_header (from_flags i f)"
proof -
  have "(ucast (w AND 0xF) :: u8) < 16" for w :: u16
    by (simp add: and_0xF word_less_nat_alt unsigned_ucast_eq unsigned_take_bit_eq
        take_bit_nat_less_exp [of 4, simplified])
  then show ?thesis by (simp add: wf_header_def from_flags_def)
qed

section \<open>Questions and records\<close>

record question =
  q_name :: name
  q_type :: u16
  q_class :: u16

definition question_new :: "name \<Rightarrow> u16 \<Rightarrow> question" where
  "question_new n t = \<lparr>q_name = n, q_type = t, q_class = CLASS_IN\<rparr>"

datatype rdata =
    A u32
  | Aaaa u128
  | Cname name
  | Ptr name
  | Ns name
  | Soa name name u32 u32 u32 u32 u32
  | Mx u16 name
  | Srv u16 u16 u16 name
  | Txt "bytes list"
  | Opt bytes
  | Unknown bytes

record rr =
  r_name :: name
  r_type :: u16
  r_class :: u16
  r_ttl :: u32
  r_data :: rdata

fun rdata_type :: "rdata \<Rightarrow> u16" where
  "rdata_type (A _) = RT_A"
| "rdata_type (Aaaa _) = RT_AAAA"
| "rdata_type (Cname _) = RT_CNAME"
| "rdata_type (Ptr _) = RT_PTR"
| "rdata_type (Ns _) = RT_NS"
| "rdata_type (Soa _ _ _ _ _ _ _) = RT_SOA"
| "rdata_type (Mx _ _) = RT_MX"
| "rdata_type (Srv _ _ _ _) = RT_SRV"
| "rdata_type (Txt _) = RT_TXT"
| "rdata_type (Opt _) = RT_OPT"
| "rdata_type (Unknown _) = 0"

definition record_new :: "name \<Rightarrow> u32 \<Rightarrow> rdata \<Rightarrow> rr" where
  "record_new n ttl d =
     \<lparr>r_name = n, r_type = rdata_type d, r_class = CLASS_IN, r_ttl = ttl, r_data = d\<rparr>"

definition record_opt :: "u16 \<Rightarrow> bool \<Rightarrow> rr" where
  "record_opt udp_size do_bit =
     \<lparr>r_name = root, r_type = RT_OPT, r_class = udp_size,
      r_ttl = (if do_bit then 0x8000 else 0), r_data = Opt []\<rparr>"

subsection \<open>Encoding\<close>

fun write_rdata :: "rdata \<Rightarrow> bytes" where
  "write_rdata (A a) = be_bytes 4 a"
| "write_rdata (Aaaa a) = be_bytes 16 a"
| "write_rdata (Cname n) = name_write n"
| "write_rdata (Ptr n) = name_write n"
| "write_rdata (Ns n) = name_write n"
| "write_rdata (Soa mname rname serial refresh retry expire minimum) =
     name_write mname @ name_write rname @
     concat (map (be_bytes 4) [serial, refresh, retry, expire, minimum])"
| "write_rdata (Mx preference exchange) = be_bytes 2 preference @ name_write exchange"
| "write_rdata (Srv priority weight port target) =
     be_bytes 2 priority @ be_bytes 2 weight @ be_bytes 2 port @ name_write target"
| "write_rdata (Txt strings) =
     concat (map (\<lambda>s. let n = min (length s) 255 in word_of_nat n # take n s) strings)"
| "write_rdata (Opt b) = b"
| "write_rdata (Unknown b) = b"

text \<open>The length field is \<open>as u16\<close>: it wraps for data of 65536 bytes or more.\<close>

definition record_write :: "rr \<Rightarrow> bytes" where
  "record_write r =
     name_write (r_name r) @ be_bytes 2 (r_type r) @ be_bytes 2 (r_class r) @
     be_bytes 4 (r_ttl r) @
     be_bytes 2 (word_of_nat (length (write_rdata (r_data r))) :: u16) @
     write_rdata (r_data r)"

subsection \<open>Decoding\<close>

function txt_loop :: "bytes \<Rightarrow> nat \<Rightarrow> bytes list \<Rightarrow> dns_error + bytes list" where
  "txt_loop data p strings =
     (if p < length data then
        (let n = unat (data ! p) in
         case get_range data (p + 1) (p + 1 + n) of
           None \<Rightarrow> Inl BadRData
         | Some s \<Rightarrow> txt_loop data (p + 1 + n) (strings @ [s]))
      else Inr strings)"
  by pat_completeness auto
termination
  by (relation "measure (\<lambda>(data, p, strings). length data - p)") auto

declare txt_loop.simps [simp del]

definition name_at :: "bytes \<Rightarrow> nat \<Rightarrow> nat \<Rightarrow> dns_error + (name \<times> nat)" where
  "name_at msg en pos =
     and_then (name_read msg pos)
       (\<lambda>(n, nxt). if nxt > en then Inl BadRData else Inr (n, nxt))"

definition u32_at :: "bytes \<Rightarrow> nat \<Rightarrow> dns_error + u32" where
  "u32_at msg pos = and_then (ok_or BadRData (get_range msg pos (pos + 4))) (\<lambda>b. Inr (from_be b))"

definition u16_at :: "bytes \<Rightarrow> nat \<Rightarrow> dns_error + u16" where
  "u16_at msg pos = and_then (ok_or BadRData (get_range msg pos (pos + 2))) (\<lambda>b. Inr (from_be b))"

definition read_rdata :: "bytes \<Rightarrow> u16 \<Rightarrow> nat \<Rightarrow> nat \<Rightarrow> dns_error + rdata" where
  "read_rdata msg rtype start len =
     and_then (ok_or Truncated (get_range msg start (start + len))) (\<lambda>data.
     let en = start + len in
     if rtype = RT_A then
       (if len \<noteq> 4 then Inl BadRData else Inr (A (from_be data)))
     else if rtype = RT_AAAA then
       (if len \<noteq> 16 then Inl BadRData else Inr (Aaaa (from_be data)))
     else if rtype = RT_CNAME \<or> rtype = RT_PTR \<or> rtype = RT_NS then
       and_then (name_at msg en start) (\<lambda>(n, nxt).
       if nxt \<noteq> en then Inl BadRData
       else Inr (if rtype = RT_CNAME then Cname n else if rtype = RT_PTR then Ptr n else Ns n))
     else if rtype = RT_SOA then
       and_then (name_at msg en start) (\<lambda>(mname, p).
       and_then (name_at msg en p) (\<lambda>(rname, p).
       if p + 20 \<noteq> en then Inl BadRData
       else
         and_then (u32_at msg p) (\<lambda>serial.
         and_then (u32_at msg (p + 4)) (\<lambda>refresh.
         and_then (u32_at msg (p + 8)) (\<lambda>retry.
         and_then (u32_at msg (p + 12)) (\<lambda>expire.
         and_then (u32_at msg (p + 16)) (\<lambda>minimum.
         Inr (Soa mname rname serial refresh retry expire minimum))))))))
     else if rtype = RT_MX then
       (if len < 3 then Inl BadRData
        else
          and_then (name_at msg en (start + 2)) (\<lambda>(exchange, nxt).
          if nxt \<noteq> en then Inl BadRData
          else and_then (u16_at msg start) (\<lambda>preference. Inr (Mx preference exchange))))
     else if rtype = RT_SRV then
       (if len < 7 then Inl BadRData
        else
          and_then (name_at msg en (start + 6)) (\<lambda>(target, nxt).
          if nxt \<noteq> en then Inl BadRData
          else
            and_then (u16_at msg start) (\<lambda>priority.
            and_then (u16_at msg (start + 2)) (\<lambda>weight.
            and_then (u16_at msg (start + 4)) (\<lambda>port.
            Inr (Srv priority weight port target))))))
     else if rtype = RT_TXT then
       and_then (txt_loop data 0 []) (\<lambda>strings. Inr (Txt strings))
     else if rtype = RT_OPT then Inr (Opt data)
     else Inr (Unknown data))"

section \<open>Messages\<close>

record message =
  header :: header
  questions :: "question list"
  answers :: "rr list"
  authority :: "rr list"
  additional :: "rr list"

definition default_message :: message where
  "default_message =
     \<lparr>header = default_header, questions = [], answers = [], authority = [], additional = []\<rparr>"

definition message_query :: "u16 \<Rightarrow> question \<Rightarrow> message" where
  "message_query i q =
     default_message
       \<lparr>header := default_header\<lparr>hdr_id := i, recursion_desired := True\<rparr>,
        questions := [q], additional := [record_opt EDNS_UDP_SIZE False]\<rparr>"

definition reply_to :: "message \<Rightarrow> message" where
  "reply_to query =
     default_message
       \<lparr>header := default_header
          \<lparr>hdr_id := hdr_id (header query), response := True, opcode := opcode (header query),
           recursion_desired := recursion_desired (header query), recursion_available := True,
           checking_disabled := checking_disabled (header query)\<rparr>,
        questions := questions query\<rparr>"

definition message_opt :: "message \<Rightarrow> rr option" where
  "message_opt m = find (\<lambda>r. r_type r = RT_OPT) (additional m)"

definition udp_size :: "message \<Rightarrow> u16" where
  "udp_size m =
     (case message_opt m of
        None \<Rightarrow> CLASSIC_UDP_SIZE
      | Some opt \<Rightarrow> max (r_class opt) CLASSIC_UDP_SIZE)"

definition message_rcode :: "message \<Rightarrow> u16" where
  "message_rcode m =
     (let ext = (case message_opt m of
                   None \<Rightarrow> 0
                 | Some opt \<Rightarrow> ucast (drop_bit 24 (r_ttl opt) AND 0xFF))
      in push_bit 4 ext OR ucast (hdr_rcode (header m)))"

definition question_write :: "question \<Rightarrow> bytes" where
  "question_write q = name_write (q_name q) @ be_bytes 2 (q_type q) @ be_bytes 2 (q_class q)"

definition encode :: "message \<Rightarrow> dns_error + bytes" where
  "encode m =
     (let counts = [length (questions m), length (answers m), length (authority m),
                    length (additional m)] in
      if list_ex (\<lambda>n. n > 65535) counts then Inl TooLarge
      else
        let out = be_bytes 2 (hdr_id (header m)) @ be_bytes 2 (flags (header m)) @
                  concat (map (\<lambda>n. be_bytes 2 (word_of_nat n :: u16)) counts) @
                  concat (map question_write (questions m)) @
                  concat (map record_write (answers m @ authority m @ additional m))
        in if length out > MAX_MESSAGE_SIZE then Inl TooLarge else Inr out)"

definition encode_udp :: "message \<Rightarrow> u16 \<Rightarrow> dns_error + bytes" where
  "encode_udp m limit =
     and_then (encode m) (\<lambda>full.
     if length full \<le> unat limit then Inr full
     else encode
       (default_message
          \<lparr>header := (header m)\<lparr>truncated := True\<rparr>,
           questions := questions m,
           additional := (case message_opt m of None \<Rightarrow> [] | Some opt \<Rightarrow> [opt])\<rparr>))"

fun read_questions :: "bytes \<Rightarrow> nat \<Rightarrow> nat \<Rightarrow> dns_error + (question list \<times> nat)" where
  "read_questions msg 0 p = Inr ([], p)"
| "read_questions msg (Suc k) p =
     and_then (name_read msg p) (\<lambda>(n, nxt).
     and_then (ok_or Truncated (get_range msg nxt (nxt + 4))) (\<lambda>b.
     and_then (read_questions msg k (nxt + 4)) (\<lambda>(qs, p').
     Inr (\<lparr>q_name = n, q_type = from_be (take 2 b), q_class = from_be (drop 2 b)\<rparr> # qs, p'))))"

definition read_record :: "bytes \<Rightarrow> nat \<Rightarrow> dns_error + (rr \<times> nat)" where
  "read_record msg p =
     and_then (name_read msg p) (\<lambda>(n, nxt).
     and_then (ok_or Truncated (get_range msg nxt (nxt + 10))) (\<lambda>b.
     let rtype = from_be (take 2 b);
         cls = from_be (take 2 (drop 2 b));
         ttl = from_be (take 4 (drop 4 b));
         len = unat (from_be (drop 8 b) :: u16);
         start = nxt + 10
     in and_then (read_rdata msg rtype start len) (\<lambda>d.
        Inr (\<lparr>r_name = n, r_type = rtype, r_class = cls, r_ttl = ttl, r_data = d\<rparr>, start + len))))"

fun read_records :: "bytes \<Rightarrow> nat \<Rightarrow> nat \<Rightarrow> dns_error + (rr list \<times> nat)" where
  "read_records msg 0 p = Inr ([], p)"
| "read_records msg (Suc k) p =
     and_then (read_record msg p) (\<lambda>(r, p').
     and_then (read_records msg k p') (\<lambda>(rs, p'').
     Inr (r # rs, p'')))"

definition decode :: "bytes \<Rightarrow> dns_error + message" where
  "decode msg =
     (if length msg < 12 then Inl Truncated
      else
        let at = (\<lambda>pos. from_be [msg ! pos, msg ! (pos + 1)] :: u16);
            hdr = from_flags (at 0) (at 2)
        in and_then (read_questions msg (unat (at 4)) 12) (\<lambda>(qs, p).
           and_then (read_records msg (unat (at 6)) p) (\<lambda>(an, p).
           and_then (read_records msg (unat (at 8)) p) (\<lambda>(au, p).
           and_then (read_records msg (unat (at 10)) p) (\<lambda>(ad, p).
           Inr \<lparr>header = hdr, questions = qs, answers = an, authority = au, additional = ad\<rparr>)))))"

definition message_question :: "message \<Rightarrow> question option" where
  "message_question m = (case questions m of [q] \<Rightarrow> Some q | _ \<Rightarrow> None)"

end
