(* ===== verification/Dns_Codec.thy ===== *)
theory Dns_Codec
  imports Dns_Message
begin

text \<open>
  Correctness of the message codec: every decoded message is well-formed, and decoding the
  encoding of a well-formed message gives the message back.
\<close>

section \<open>Well-formed messages\<close>

fun wf_rdata :: "u16 \<Rightarrow> rdata \<Rightarrow> bool" where
  "wf_rdata t (A _) \<longleftrightarrow> t = RT_A"
| "wf_rdata t (Aaaa _) \<longleftrightarrow> t = RT_AAAA"
| "wf_rdata t (Cname n) \<longleftrightarrow> t = RT_CNAME \<and> wf_name n"
| "wf_rdata t (Ptr n) \<longleftrightarrow> t = RT_PTR \<and> wf_name n"
| "wf_rdata t (Ns n) \<longleftrightarrow> t = RT_NS \<and> wf_name n"
| "wf_rdata t (Soa mname rname _ _ _ _ _) \<longleftrightarrow> t = RT_SOA \<and> wf_name mname \<and> wf_name rname"
| "wf_rdata t (Mx _ exchange) \<longleftrightarrow> t = RT_MX \<and> wf_name exchange"
| "wf_rdata t (Srv _ _ _ target) \<longleftrightarrow> t = RT_SRV \<and> wf_name target"
| "wf_rdata t (Txt strings) \<longleftrightarrow> t = RT_TXT \<and> list_all (\<lambda>s. length s \<le> 255) strings"
| "wf_rdata t (Opt _) \<longleftrightarrow> t = RT_OPT"
| "wf_rdata t (Unknown _) \<longleftrightarrow>
     t \<notin> {RT_A, RT_AAAA, RT_CNAME, RT_PTR, RT_NS, RT_SOA, RT_MX, RT_SRV, RT_TXT, RT_OPT}"

definition wf_record :: "rr \<Rightarrow> bool" where
  "wf_record r \<longleftrightarrow> wf_name (r_name r) \<and> wf_rdata (r_type r) (r_data r)"

definition wf_message :: "message \<Rightarrow> bool" where
  "wf_message m \<longleftrightarrow>
     wf_header (header m) \<and> list_all (\<lambda>q. wf_name (q_name q)) (questions m) \<and>
     list_all wf_record (answers m) \<and> list_all wf_record (authority m) \<and>
     list_all wf_record (additional m)"

section \<open>Reading back single fields\<close>

lemma name_read_at:
  "wf_name n \<Longrightarrow> msg = pre @ name_write n @ post \<Longrightarrow> p = length pre \<Longrightarrow>
   name_read msg p = Inr (n, p + wire_len n)"
  by (simp add: name_read_write)

lemma name_at_at:
  "wf_name n \<Longrightarrow> msg = pre @ name_write n @ post \<Longrightarrow> p = length pre \<Longrightarrow> p + wire_len n \<le> en \<Longrightarrow>
   name_at msg en p = Inr (n, p + wire_len n)"
  by (simp add: name_at_def name_read_write)

lemma name_at_append:
  "wf_name n \<Longrightarrow> length pre + wire_len n \<le> en \<Longrightarrow>
   name_at (pre @ name_write n @ post) en (length pre) = Inr (n, length pre + wire_len n)"
  by (rule name_at_at) auto

lemma u32_at_at:
  "msg = pre @ be_bytes 4 w @ post \<Longrightarrow> p = length pre \<Longrightarrow> u32_at msg p = Inr w"
  using get_range_in_append [of p pre "p + 4" "be_bytes 4 w" msg post]
  by (simp add: u32_at_def from_be_be_bytes)

lemma u16_at_at:
  "msg = pre @ be_bytes 2 w @ post \<Longrightarrow> p = length pre \<Longrightarrow> u16_at msg p = Inr w"
  using get_range_in_append [of p pre "p + 2" "be_bytes 2 w" msg post]
  by (simp add: u16_at_def from_be_be_bytes)

lemma txt_loop_write:
  "list_all (\<lambda>s. length s \<le> 255) ss \<Longrightarrow> data = pre @ write_rdata (Txt ss) \<Longrightarrow>
   txt_loop data (length pre) acc = Inr (acc @ ss)"
proof (induction ss arbitrary: pre acc)
  case Nil
  then show ?case by (simp add: txt_loop.simps)
next
  case (Cons s ss)
  let ?b = "word_of_nat (length s) :: u8"
  have s: "length s \<le> 255" using Cons.prems by simp
  then have b: "unat ?b = length s" by (simp add: unsigned_of_nat take_bit_nat_eq_self)
  have data: "data = pre @ ?b # s @ write_rdata (Txt ss)"
    using Cons.prems s by (simp add: Let_def)
  have "get_range data (length pre + 1) (length pre + 1 + length s) = Some s"
    using data by (intro get_range_in_append [where pre = "pre @ [?b]"]) auto
  moreover have "data ! length pre = ?b" "length pre < length data"
    using data by (auto simp: nth_append)
  ultimately have "txt_loop data (length pre) acc = txt_loop data (length (pre @ ?b # s)) (acc @ [s])"
    by (subst txt_loop.simps) (simp add: b)
  also have "\<dots> = Inr ((acc @ [s]) @ ss)"
    using Cons.prems data by (intro Cons.IH) auto
  finally show ?case by simp
qed

lemma wire_len_pos: "0 < wire_len n"
  by (simp add: wire_len_def)

lemma u32_words_at:
  "msg = pre @ concat (map (be_bytes 4) ws) @ post \<Longrightarrow> i < length ws \<Longrightarrow>
   u32_at msg (length pre + 4 * i) = Inr (ws ! i)"
proof (induction ws arbitrary: pre i)
  case (Cons w ws)
  show ?case
  proof (cases i)
    case 0
    with Cons.prems show ?thesis by (intro u32_at_at) auto
  next
    case (Suc j)
    with Cons.prems Cons.IH [of "pre @ be_bytes 4 w" j] show ?thesis by (simp add: add.assoc)
  qed
qed simp

lemma rdata_slice:
  "msg = pre @ ys @ post \<Longrightarrow> n = length ys \<Longrightarrow> get_range msg (length pre) (length pre + n) = Some ys"
  by (rule get_range_in_append) auto

lemma read_rdata_soa:
  assumes "wf_name mname" "wf_name rname" and msg: "msg = pre @ write_rdata d @ post"
    and d: "d = Soa mname rname serial refresh retry expire minimum"
  shows "read_rdata msg RT_SOA (length pre) (length (write_rdata d)) = Inr d"
proof -
  let ?ws = "[serial, refresh, retry, expire, minimum]"
  let ?p = "length pre" let ?m = "?p + wire_len mname" let ?r = "?m + wire_len rname"
  let ?pre = "pre @ name_write mname @ name_write rname"
  have en: "?p + length (write_rdata d) = ?r + 20" by (simp add: d length_name_write)
  have names: "name_at msg (?r + 20) ?p = Inr (mname, ?m)" "name_at msg (?r + 20) ?m = Inr (rname, ?r)"
    using assms name_at_at [of mname msg pre _ ?p "?r + 20"]
      name_at_at [of rname msg "pre @ name_write mname" _ ?m "?r + 20"]
    by (simp_all add: length_name_write)
  have "msg = ?pre @ concat (map (be_bytes 4) ?ws) @ post" by (simp add: msg d)
  note w = u32_words_at [OF this]
  have words: "u32_at msg ?r = Inr serial" "u32_at msg (?r + 4) = Inr refresh"
    "u32_at msg (?r + 8) = Inr retry" "u32_at msg (?r + 12) = Inr expire"
    "u32_at msg (?r + 16) = Inr minimum"
    using w [of 0] w [of 1] w [of 2] w [of 3] w [of 4]
    by (simp_all add: length_name_write add.assoc)
  have "get_range msg ?p (?r + 20) = Some (write_rdata d)"
    using rdata_slice [OF msg refl] en by simp
  then show ?thesis
    unfolding read_rdata_def en using names words by (simp add: d add.assoc)
qed

lemma read_rdata_mx:
  assumes "wf_name exchange" and msg: "msg = pre @ write_rdata (Mx preference exchange) @ post"
  shows "read_rdata msg RT_MX (length pre) (2 + wire_len exchange) = Inr (Mx preference exchange)"
proof -
  let ?p = "length pre" let ?en = "?p + (2 + wire_len exchange)"
  have "name_at msg ?en (?p + 2) = Inr (exchange, ?p + 2 + wire_len exchange)"
    using assms by (intro name_at_at [where pre = "pre @ be_bytes 2 preference"]) auto
  moreover have "u16_at msg ?p = Inr preference" using msg by (intro u16_at_at) auto
  moreover have "get_range msg ?p ?en = Some (write_rdata (Mx preference exchange))"
    using msg by (rule rdata_slice) (simp add: length_name_write)
  ultimately show ?thesis
    using wire_len_pos [of exchange] by (simp add: read_rdata_def)
qed

lemma read_rdata_srv:
  assumes "wf_name target" and msg: "msg = pre @ write_rdata (Srv priority weight port target) @ post"
  shows "read_rdata msg RT_SRV (length pre) (6 + wire_len target) = Inr (Srv priority weight port target)"
proof -
  let ?p = "length pre" let ?en = "?p + (6 + wire_len target)"
  have "name_at msg ?en (?p + 6) = Inr (target, ?p + 6 + wire_len target)"
    using assms
    by (intro name_at_at [where pre = "pre @ be_bytes 2 priority @ be_bytes 2 weight @ be_bytes 2 port"]) auto
  moreover have "u16_at msg ?p = Inr priority" using msg by (intro u16_at_at) auto
  moreover have "u16_at msg (?p + 2) = Inr weight"
    using msg by (intro u16_at_at [where pre = "pre @ be_bytes 2 priority"]) auto
  moreover have "u16_at msg (?p + 4) = Inr port"
    using msg by (intro u16_at_at [where pre = "pre @ be_bytes 2 priority @ be_bytes 2 weight"]) auto
  moreover have "get_range msg ?p ?en = Some (write_rdata (Srv priority weight port target))"
    using msg by (rule rdata_slice) (simp add: length_name_write)
  ultimately show ?thesis
    using wire_len_pos [of target] by (simp add: read_rdata_def)
qed

lemma read_rdata_write:
  assumes wf: "wf_rdata t d" and msg: "msg = pre @ write_rdata d @ post"
  shows "read_rdata msg t (length pre) (length (write_rdata d)) = Inr d"
proof (cases d)
  case (Soa mname rname serial refresh retry expire minimum)
  with wf show ?thesis using read_rdata_soa [OF _ _ msg Soa] by simp
next
  case (Mx preference exchange)
  with wf msg show ?thesis using read_rdata_mx [of exchange msg pre preference post]
    by (simp add: length_name_write)
next
  case (Srv priority weight port target)
  with wf msg show ?thesis using read_rdata_srv [of target msg pre priority weight port post]
    by (simp add: length_name_write eval_nat_numeral)
next
  case (Txt strings)
  then have "txt_loop (write_rdata d) 0 [] = Inr strings"
    using wf txt_loop_write [of strings "write_rdata d" "[]" "[]"] by simp
  then show ?thesis
    using wf Txt rdata_slice [OF msg refl] by (simp add: read_rdata_def del: write_rdata.simps)
qed (use wf msg rdata_slice [OF msg refl] in
    \<open>auto simp: name_at_append length_name_write read_rdata_def from_be_be_bytes Let_def\<close>)

section \<open>Reading back questions, records and messages\<close>

lemma split4: "take 2 (be_bytes 2 a @ be_bytes 2 b) = be_bytes 2 a"
  "drop 2 (be_bytes 2 a @ be_bytes 2 b) = be_bytes 2 b"
  by simp_all

lemma read_questions_write:
  "list_all (\<lambda>q. wf_name (q_name q)) qs \<Longrightarrow>
   msg = pre @ concat (map question_write qs) @ post \<Longrightarrow>
   read_questions msg (length qs) (length pre) =
     Inr (qs, length pre + length (concat (map question_write qs)))"
proof (induction qs arbitrary: pre)
  case (Cons q qs)
  let ?p = "length pre" let ?n = "?p + wire_len (q_name q)"
  let ?b = "be_bytes 2 (q_type q) @ be_bytes 2 (q_class q)"
  have msg: "msg = (pre @ question_write q) @ concat (map question_write qs) @ post"
    using Cons.prems by simp
  have "name_read msg ?p = Inr (q_name q, ?n)"
    using Cons.prems by (intro name_read_at) (auto simp: question_write_def)
  moreover have "get_range msg ?n (?n + 4) = Some ?b"
    using msg
    by (intro get_range_in_append [where pre = "pre @ name_write (q_name q)"])
       (auto simp: question_write_def length_name_write)
  moreover have len: "length (question_write q) = wire_len (q_name q) + 4"
    by (simp add: question_write_def length_name_write)
  moreover have "read_questions msg (length qs) (length (pre @ question_write q)) =
      Inr (qs, length (pre @ question_write q) + length (concat (map question_write qs)))"
    using Cons.prems by (intro Cons.IH [OF _ msg]) simp
  ultimately show ?case by (simp add: from_be_be_bytes split4 add.assoc)
qed simp

lemma length_record_write:
  "length (record_write r) = wire_len (r_name r) + 10 + length (write_rdata (r_data r))"
  by (simp add: record_write_def length_name_write)

lemma read_record_write:
  assumes "wf_record r" and msg: "msg = pre @ record_write r @ post"
    and small: "length (write_rdata (r_data r)) < 65536"
  shows "read_record msg (length pre) = Inr (r, length pre + length (record_write r))"
proof -
  let ?p = "length pre" let ?n = "?p + wire_len (r_name r)" let ?d = "write_rdata (r_data r)"
  let ?b = "be_bytes 2 (r_type r) @ be_bytes 2 (r_class r) @ be_bytes 4 (r_ttl r) @
    be_bytes 2 (word_of_nat (length ?d) :: u16)"
  have "name_read msg ?p = Inr (r_name r, ?n)"
    using assms by (intro name_read_at) (auto simp: wf_record_def record_write_def)
  moreover have "get_range msg ?n (?n + 10) = Some ?b"
    using msg
    by (intro get_range_in_append [where pre = "pre @ name_write (r_name r)"])
       (auto simp: record_write_def length_name_write)
  moreover have "unat (word_of_nat (length ?d) :: u16) = length ?d"
    using small by (simp add: unsigned_of_nat take_bit_nat_eq_self)
  moreover have "read_rdata msg (r_type r) (length (pre @ name_write (r_name r) @ ?b)) (length ?d) =
      Inr (r_data r)"
    using assms by (intro read_rdata_write) (auto simp: wf_record_def record_write_def)
  then have "read_rdata msg (r_type r) (?n + 10) (length ?d) = Inr (r_data r)"
    by (simp add: length_name_write add.assoc)
  ultimately show ?thesis
    by (simp add: read_record_def from_be_be_bytes Let_def length_record_write add.assoc)
qed

lemma read_records_write:
  "list_all wf_record rs \<Longrightarrow> msg = pre @ concat (map record_write rs) @ post \<Longrightarrow>
   length msg \<le> 65535 \<Longrightarrow>
   read_records msg (length rs) (length pre) =
     Inr (rs, length pre + length (concat (map record_write rs)))"
proof (induction rs arbitrary: pre)
  case (Cons r rs)
  have msg: "msg = (pre @ record_write r) @ concat (map record_write rs) @ post"
    using Cons.prems by simp
  have "length (write_rdata (r_data r)) < 65536"
    using Cons.prems by (simp add: length_record_write)
  then have "read_record msg (length pre) = Inr (r, length (pre @ record_write r))"
    using Cons.prems read_record_write [of r msg pre] by simp
  moreover have "read_records msg (length rs) (length (pre @ record_write r)) =
      Inr (rs, length (pre @ record_write r) + length (concat (map record_write rs)))"
    using Cons.prems msg by (intro Cons.IH) auto
  ultimately show ?case by simp
qed simp

lemma u16_pair_at:
  fixes w :: u16
  assumes "msg = pre @ be_bytes 2 w @ post" "p = length pre"
  shows "from_be [msg ! p, msg ! (p + 1)] = w"
proof -
  obtain a b where ab: "be_bytes 2 w = [a, b]"
    by (simp add: numeral_2_eq_2 be_bytes_Suc)
  have "from_be [a, b] = w" using from_be_be_bytes [of 2 w] by (simp add: ab)
  then show ?thesis using assms ab by (simp add: nth_append)
qed

lemma encode_Inr:
  "encode m = Inr out \<longleftrightarrow>
     length (questions m) \<le> 65535 \<and> length (answers m) \<le> 65535 \<and>
     length (authority m) \<le> 65535 \<and> length (additional m) \<le> 65535 \<and>
     out = be_bytes 2 (hdr_id (header m)) @ be_bytes 2 (flags (header m)) @
       be_bytes 2 (word_of_nat (length (questions m)) :: u16) @
       be_bytes 2 (word_of_nat (length (answers m)) :: u16) @
       be_bytes 2 (word_of_nat (length (authority m)) :: u16) @
       be_bytes 2 (word_of_nat (length (additional m)) :: u16) @
       concat (map question_write (questions m)) @ concat (map record_write (answers m)) @
       concat (map record_write (authority m)) @ concat (map record_write (additional m)) \<and>
     length out \<le> MAX_MESSAGE_SIZE"
  by (auto simp: encode_def Let_def)

lemma unat_count: "n \<le> 65535 \<Longrightarrow> unat (word_of_nat n :: u16) = n"
  by (simp add: unsigned_of_nat take_bit_nat_eq_self)

lemma decode_encode:
  assumes wf: "wf_message m" and enc: "encode m = Inr out"
  shows "decode out = Inr m"
proof -
  define h where "h = be_bytes 2 (hdr_id (header m)) @ be_bytes 2 (flags (header m)) @
       be_bytes 2 (word_of_nat (length (questions m)) :: u16) @
       be_bytes 2 (word_of_nat (length (answers m)) :: u16) @
       be_bytes 2 (word_of_nat (length (authority m)) :: u16) @
       be_bytes 2 (word_of_nat (length (additional m)) :: u16)"
  let ?q = "concat (map question_write (questions m))"
  let ?an = "concat (map record_write (answers m))"
  let ?au = "concat (map record_write (authority m))"
  let ?ad = "concat (map record_write (additional m))"
  have out: "out = h @ ?q @ ?an @ ?au @ ?ad" and small: "length out \<le> 65535"
    and counts: "length (questions m) \<le> 65535" "length (answers m) \<le> 65535"
      "length (authority m) \<le> 65535" "length (additional m) \<le> 65535"
    using enc by (auto simp: encode_Inr h_def MAX_MESSAGE_SIZE_def)
  have h: "length h = 12" by (simp add: h_def)
  have at: "from_be [out ! 0, out ! (0 + 1)] = hdr_id (header m)"
      "from_be [out ! 2, out ! (2 + 1)] = flags (header m)"
      "from_be [out ! 4, out ! (4 + 1)] = (word_of_nat (length (questions m)) :: u16)"
      "from_be [out ! 6, out ! (6 + 1)] = (word_of_nat (length (answers m)) :: u16)"
      "from_be [out ! 8, out ! (8 + 1)] = (word_of_nat (length (authority m)) :: u16)"
      "from_be [out ! 10, out ! (10 + 1)] = (word_of_nat (length (additional m)) :: u16)"
    unfolding out h_def
    by (rule u16_pair_at [where pre = "[]"] u16_pair_at [where pre = "be_bytes 2 _"]
        u16_pair_at [where pre = "be_bytes 2 _ @ be_bytes 2 _"]
        u16_pair_at [where pre = "be_bytes 2 _ @ be_bytes 2 _ @ be_bytes 2 _"]
        u16_pair_at [where pre = "be_bytes 2 _ @ be_bytes 2 _ @ be_bytes 2 _ @ be_bytes 2 _"]
        u16_pair_at [where pre = "be_bytes 2 _ @ be_bytes 2 _ @ be_bytes 2 _ @ be_bytes 2 _ @ be_bytes 2 _"],
        simp, simp)+
  have q: "read_questions out (length (questions m)) 12 = Inr (questions m, length (h @ ?q))"
    using wf read_questions_write [of "questions m" out h] out h by (simp add: wf_message_def)
  have an: "read_records out (length (answers m)) (length (h @ ?q)) = Inr (answers m, length (h @ ?q @ ?an))"
    using wf read_records_write [of "answers m" out "h @ ?q"] out small by (simp add: wf_message_def)
  have au: "read_records out (length (authority m)) (length (h @ ?q @ ?an)) =
      Inr (authority m, length (h @ ?q @ ?an @ ?au))"
    using wf read_records_write [of "authority m" out "h @ ?q @ ?an"] out small
    by (simp add: wf_message_def)
  have ad: "read_records out (length (additional m)) (length (h @ ?q @ ?an @ ?au)) =
      Inr (additional m, length out)"
    using wf read_records_write [of "additional m" out "h @ ?q @ ?an @ ?au" "[]"] out small
    by (simp add: wf_message_def)
  have "\<not> length out < 12" using out h by simp
  then show ?thesis
    using wf q an au ad counts
    unfolding decode_def Let_def at
    by (simp add: unat_count from_flags_flags wf_message_def)
qed
section \<open>Every decoded message is well-formed\<close>

lemma txt_loop_sound:
  "txt_loop data p acc = Inr ss \<Longrightarrow> list_all (\<lambda>s. length s \<le> 255) acc \<Longrightarrow>
   list_all (\<lambda>s. length s \<le> 255) ss"
proof (induction data p acc rule: txt_loop.induct)
  case (1 data p acc)
  show ?case
  proof (cases "p < length data")
    case True
    let ?n = "unat (data ! p)"
    from "1.prems"(1) True obtain s where s: "get_range data (p + 1) (p + 1 + ?n) = Some s"
      and rec: "txt_loop data (p + 1 + ?n) (acc @ [s]) = Inr ss"
      by (subst (asm) txt_loop.simps) (auto simp: Let_def split: option.splits)
    have "length s \<le> 255" using length_get_range [OF s] unat_u8_lt [of "data ! p"] by simp
    with True s rec "1.prems"(2) show ?thesis by (intro "1.IH") auto
  next
    case False
    with "1.prems" show ?thesis by (subst (asm) txt_loop.simps) auto
  qed
qed

lemma name_at_sound: "name_at msg en p = Inr (n, q) \<Longrightarrow> wf_name n \<and> q \<le> en"
  by (auto simp: name_at_def rust_simps split: if_splits dest: name_read_sound)

lemma read_rdata_sound: "read_rdata msg t start len = Inr d \<Longrightarrow> wf_rdata t d"
  by (auto simp: read_rdata_def rust_simps Let_def split: if_splits
      dest!: name_at_sound dest: txt_loop_sound)

lemma read_rdata_end: "read_rdata msg t start len = Inr d \<Longrightarrow> start + len \<le> length msg"
  by (auto simp: read_rdata_def rust_simps)

lemma read_record_sound:
  assumes "read_record msg p = Inr (r, q)"
  shows "wf_record r" "p < q" "q \<le> length msg"
proof -
  obtain n nxt b t l d where n: "name_read msg p = Inr (n, nxt)"
    and d: "read_rdata msg t (nxt + 10) l = Inr d" and q: "q = nxt + 10 + l"
    and r: "r_name r = n" "r_type r = t" "r_data r = d"
    using assms by (auto simp: read_record_def rust_simps Let_def)
  show "wf_record r" using name_read_sound(1) [OF n] read_rdata_sound [OF d] r
    by (simp add: wf_record_def)
  show "p < q" using name_read_sound(2) [OF n] q by simp
  show "q \<le> length msg" using read_rdata_end [OF d] q by simp
qed

lemma read_records_sound:
  "read_records msg k p = Inr (rs, q) \<Longrightarrow> list_all wf_record rs \<and> length rs = k"
  by (induction k arbitrary: p rs q) (auto simp: rust_simps dest: read_record_sound)

lemma read_questions_sound:
  "read_questions msg k p = Inr (qs, q) \<Longrightarrow>
   list_all (\<lambda>q. wf_name (q_name q)) qs \<and> length qs = k"
  by (induction k arbitrary: p qs q) (auto simp: rust_simps dest: name_read_sound)

lemma decode_sound: "decode msg = Inr m \<Longrightarrow> wf_message m"
  by (auto simp: decode_def Let_def rust_simps wf_message_def wf_from_flags
      dest!: read_questions_sound read_records_sound split: if_splits)

text \<open>
  The data of a decoded record written back takes no more than a name-compressed record can hide
  (two names of 255 bytes and five numbers) or than the length field of the record said.
\<close>

lemma txt_loop_size:
  "txt_loop data p acc = Inr ss \<Longrightarrow> p \<le> length data \<Longrightarrow>
   length (write_rdata (Txt ss)) = length (write_rdata (Txt acc)) + (length data - p)"
proof (induction data p acc rule: txt_loop.induct)
  case (1 data p acc)
  show ?case
  proof (cases "p < length data")
    case True
    let ?n = "unat (data ! p)"
    from "1.prems"(1) True obtain s where s: "get_range data (p + 1) (p + 1 + ?n) = Some s"
      and rec: "txt_loop data (p + 1 + ?n) (acc @ [s]) = Inr ss"
      by (subst (asm) txt_loop.simps) (auto simp: Let_def split: option.splits)
    have l: "length s = ?n" "p + 1 + ?n \<le> length data"
      using length_get_range [OF s] s by (auto simp: get_range_def split: if_splits)
    have "?n \<le> 255" using unat_u8_lt [of "data ! p"] by simp
    then show ?thesis using "1.IH" [OF True refl s rec] l by simp
  next
    case False
    with "1.prems" show ?thesis by (subst (asm) txt_loop.simps) auto
  qed
qed

lemma read_rdata_size:
  assumes "read_rdata msg t start len = Inr d"
  shows "length (write_rdata d) \<le> max len 530"
proof -
  have wf: "wf_rdata t d" by (rule read_rdata_sound [OF assms])
  obtain data where g: "get_range msg start (start + len) = Some data"
    using assms by (auto simp: read_rdata_def rust_simps)
  then have data: "length data = len" using length_get_range [OF g] by simp
  show ?thesis
  proof (cases d)
    case (Txt ss)
    then have "txt_loop data 0 [] = Inr ss"
      using assms g by (auto simp: read_rdata_def rust_simps Let_def split: if_splits)
    from txt_loop_size [OF this] Txt data show ?thesis by simp
  next
    case (Opt b)
    then show ?thesis using assms g data by (auto simp: read_rdata_def rust_simps Let_def split: if_splits)
  next
    case (Unknown b)
    then show ?thesis using assms g data by (auto simp: read_rdata_def rust_simps Let_def split: if_splits)
  qed (use wf in \<open>auto simp: wf_name_def MAX_NAME_LEN_def length_name_write\<close>)
qed

lemma read_record_size:
  assumes "read_record msg p = Inr (r, q)"
  shows "length (write_rdata (r_data r)) < 65536"
proof -
  obtain nxt t and l :: u16 where "read_rdata msg t (nxt + 10) (unat l) = Inr (r_data r)"
    using assms by (auto simp: read_record_def rust_simps Let_def)
  moreover have "unat l < 65536" using unsigned_less [of l] by simp
  ultimately show ?thesis by (auto dest: read_rdata_size)
qed

lemma read_records_size:
  "read_records msg k p = Inr (rs, q) \<Longrightarrow> list_all (\<lambda>r. length (write_rdata (r_data r)) < 65536) rs"
  by (induction k arbitrary: p rs q) (auto simp: rust_simps dest: read_record_size)

lemma decode_size:
  assumes "decode msg = Inr m"
  shows "length (questions m) < 65536 \<and> length (answers m) < 65536 \<and> length (authority m) < 65536 \<and>
    length (additional m) < 65536 \<and>
    (\<forall>r \<in> set (answers m @ authority m @ additional m). length (write_rdata (r_data r)) < 65536)"
proof -
  obtain qd an ns ar :: u16 and p1 p2 p3 p4 p5
    where r: "read_questions msg (unat qd) p1 = Inr (questions m, p2)"
      "read_records msg (unat an) p2 = Inr (answers m, p3)"
      "read_records msg (unat ns) p3 = Inr (authority m, p4)"
      "read_records msg (unat ar) p4 = Inr (additional m, p5)"
    using assms by (auto simp: decode_def Let_def rust_simps split: if_splits)
  have u: "unat (x :: u16) < 65536" for x using unsigned_less [of x] by simp
  show ?thesis
    using read_questions_sound [OF r(1)] r(2-4) [THEN read_records_sound] r(2-4) [THEN read_records_size] u
    by (auto simp: list_all_iff)
qed

section \<open>Sizes\<close>

lemma length_question_write: "length (question_write q) = wire_len (q_name q) + 4"
  by (simp add: question_write_def length_name_write)

lemma wf_record_opt: "wf_record (record_opt s b)"
  by (simp add: wf_record_def record_opt_def)

lemma length_record_opt: "length (record_write (record_opt s b)) = 11"
  by (simp add: length_record_write record_opt_def root_def wire_len_def)

lemma encode_query:
  assumes "wf_name (q_name q)"
  obtains out where "encode (message_query i q) = Inr out" "length out \<le> 282"
proof -
  have "wire_len (q_name q) \<le> 255" using assms by (simp add: wf_name_def MAX_NAME_LEN_def)
  then have "\<exists>out. encode (message_query i q) = Inr out \<and> length out \<le> 282"
    by (simp add: encode_Inr message_query_def default_message_def length_question_write
        length_record_opt MAX_MESSAGE_SIZE_def)
  with that show thesis by blast
qed

lemma wf_query: "wf_name (q_name q) \<Longrightarrow> wf_message (message_query i q)"
  by (simp add: wf_message_def message_query_def default_message_def default_header_def
      wf_header_def wf_record_opt)

definition truncated_form :: "message \<Rightarrow> message" where
  "truncated_form m = default_message
     \<lparr>header := (header m)\<lparr>truncated := True\<rparr>, questions := questions m,
      additional := (case message_opt m of None \<Rightarrow> [] | Some opt \<Rightarrow> [opt])\<rparr>"

lemma encode_udp_alt:
  "encode_udp m limit = and_then (encode m)
     (\<lambda>full. if length full \<le> unat limit then Inr full else encode (truncated_form m))"
  unfolding encode_udp_def truncated_form_def ..

lemma wf_truncated_form: "wf_message m \<Longrightarrow> wf_message (truncated_form m)"
  by (auto simp: truncated_form_def wf_message_def wf_header_def default_message_def message_opt_def
      list_all_iff find_Some_iff find_Some_iff2 split: option.splits)

lemma length_truncated_form:
  assumes "encode (truncated_form m) = Inr out" "wf_message m" "length (questions m) \<le> 1"
    and "\<And>opt. message_opt m = Some opt \<Longrightarrow> opt = record_opt s b"
  shows "length out \<le> 282"
proof -
  have "length (concat (map question_write (questions m))) \<le> 259"
  proof (cases "questions m")
    case (Cons q qs)
    with assms(2,3) show ?thesis
      by (simp add: length_question_write wf_message_def wf_name_def MAX_NAME_LEN_def)
  qed simp
  moreover have "length (concat (map record_write (additional (truncated_form m)))) \<le> 11"
    using assms(4) by (auto simp: truncated_form_def length_record_opt split: option.splits)
  ultimately show ?thesis
    using assms(1) by (auto simp: encode_Inr truncated_form_def default_message_def)
qed

end
