(* ===== verification/Cache.thy ===== *)
theory Cache
  imports Dns_Codec
begin

text \<open>
  The answer cache: \<open>resolvd/src/cache.rs\<close>, with the \<open>Outcome\<close> of
  \<open>resolvd-core/src/lib.rs\<close> (lines 207 to 218). Entries are keyed by lowercased name, type
  and scope; at capacity an insertion first drops the expired entries and then, if that
  freed nothing, the entry that expires first.
\<close>

datatype outcome = Found | NotFound | Unavailable

definition MAX_ENTRIES :: nat where
  "MAX_ENTRIES = 8192"

record cache_key =
  ck_name :: name
  ck_type :: u16
  ck_scope :: string

definition cache_key_new :: "name \<Rightarrow> u16 \<Rightarrow> string \<Rightarrow> cache_key" where
  "cache_key_new n t s = \<lparr>ck_name = to_lowercase n, ck_type = t, ck_scope = s\<rparr>"

text \<open>The derived \<open>PartialEq\<close> compares the names with \<open>Name\<close>'s own equality.\<close>

definition cache_key_eq :: "cache_key \<Rightarrow> cache_key \<Rightarrow> bool" where
  "cache_key_eq a b \<longleftrightarrow>
     name_eq (ck_name a) (ck_name b) \<and> ck_type a = ck_type b \<and> ck_scope a = ck_scope b"

record entry =
  e_outcome :: outcome
  e_records :: "rr list"
  e_rcode :: u16
  e_server :: ip_addr
  e_expires :: instant

record cache =
  entries :: "(cache_key \<times> entry) list"

definition cache_new :: cache where
  "cache_new = \<lparr>entries = []\<rparr>"

definition cache_len :: "cache \<Rightarrow> nat" where
  "cache_len c = length (entries c)"

definition cache_is_empty :: "cache \<Rightarrow> bool" where
  "cache_is_empty c \<longleftrightarrow> entries c = []"

definition cache_get :: "cache_key \<Rightarrow> instant \<Rightarrow> cache \<Rightarrow> entry option \<times> cache" where
  "cache_get k now c =
     (case hm_get cache_key_eq k (entries c) of
        None \<Rightarrow> (None, c)
      | Some e \<Rightarrow>
          if e_expires e \<le> now then (None, c\<lparr>entries := hm_remove cache_key_eq k (entries c)\<rparr>)
          else
            let remaining = word_of_nat (as_secs (e_expires e - now)) :: u32 in
            (Some (e\<lparr>e_records := map (\<lambda>r. r\<lparr>r_ttl := min (r_ttl r) remaining\<rparr>) (e_records e)\<rparr>), c))"

definition evict :: "instant \<Rightarrow> (cache_key \<times> entry) list \<Rightarrow> (cache_key \<times> entry) list" where
  "evict now es =
     (let live = filter (\<lambda>(k, e). e_expires e > now) es in
      if length live \<ge> MAX_ENTRIES then
        (case min_by_key (\<lambda>(k, e). e_expires e) live of
           None \<Rightarrow> live
         | Some (victim, _) \<Rightarrow> hm_remove cache_key_eq victim live)
      else live)"

definition cache_insert :: "cache_key \<Rightarrow> entry \<Rightarrow> instant \<Rightarrow> cache \<Rightarrow> cache" where
  "cache_insert k e now c =
     (let es = (if length (entries c) \<ge> MAX_ENTRIES \<and> hm_get cache_key_eq k (entries c) = None
                then evict now (entries c) else entries c)
      in c\<lparr>entries := hm_insert cache_key_eq k e es\<rparr>)"

definition flush_scope :: "string \<Rightarrow> cache \<Rightarrow> cache" where
  "flush_scope s c = c\<lparr>entries := filter (\<lambda>(k, e). ck_scope k \<noteq> s) (entries c)\<rparr>"

definition cache_clear :: "cache \<Rightarrow> cache" where
  "cache_clear c = c\<lparr>entries := []\<rparr>"

section \<open>Invariant\<close>

interpretation keys: hash_map cache_key_eq
  by unfold_locales (auto simp: cache_key_eq_def name_eq_iff)

definition cache_wf :: "cache \<Rightarrow> bool" where
  "cache_wf c \<longleftrightarrow> hm_wf cache_key_eq (entries c) \<and> length (entries c) \<le> MAX_ENTRIES"

lemma wf_cache_new: "cache_wf cache_new"
  by (simp add: cache_wf_def cache_new_def)

lemma wf_cache_get: "cache_wf c \<Longrightarrow> cache_wf (snd (cache_get k now c))"
proof -
  assume wf: "cache_wf c"
  have "length (hm_remove cache_key_eq k (entries c)) \<le> length (entries c)"
    by (simp add: hm_remove_def)
  with wf show ?thesis
    by (auto simp: cache_get_def cache_wf_def Let_def keys.wf_remove split: option.splits)
qed

lemma wf_flush_scope: "cache_wf c \<Longrightarrow> cache_wf (flush_scope s c)"
  unfolding cache_wf_def flush_scope_def
  by (auto simp: keys.wf_filter intro: le_trans [OF length_filter_le])

lemma wf_cache_clear: "cache_wf (cache_clear c)"
  by (simp add: cache_wf_def cache_clear_def)

lemma wf_evict: "hm_wf cache_key_eq es \<Longrightarrow> hm_wf cache_key_eq (evict now es)"
  by (auto simp: evict_def Let_def keys.wf_filter keys.wf_remove split: option.splits)

lemma length_evict:
  assumes "hm_wf cache_key_eq es" "length es \<le> MAX_ENTRIES"
  shows "length (evict now es) < MAX_ENTRIES"
proof -
  let ?live = "filter (\<lambda>(k, e). e_expires e > now) es"
  have live: "length ?live \<le> MAX_ENTRIES" using assms(2) length_filter_le le_trans by blast
  show ?thesis
  proof (cases "length ?live \<ge> MAX_ENTRIES")
    case True
    have "0 < MAX_ENTRIES" by (simp add: MAX_ENTRIES_def)
    with True have "?live \<noteq> []" by auto
    then obtain p where "min_by_key (\<lambda>(k, e). e_expires e) ?live = Some p"
      using min_by_key_eq_None by blast
    then obtain v e where v: "min_by_key (\<lambda>(k, e). e_expires e) ?live = Some (v, e)"
      by (cases p) auto
    have wf: "hm_wf cache_key_eq ?live" using assms(1) by (rule keys.wf_filter)
    have "(v, e) \<in> set ?live" using min_by_key_Some [OF v] by (rule conjunct1)
    then have "hm_get cache_key_eq v ?live = Some e" by (rule keys.in_set_get [OF wf])
    then have "length (hm_remove cache_key_eq v ?live) = length ?live - 1"
      using keys.length_remove [OF wf] by simp
    moreover have "evict now es = hm_remove cache_key_eq v ?live"
      using True v by (simp add: evict_def Let_def)
    ultimately show ?thesis using live \<open>0 < MAX_ENTRIES\<close> by simp
  qed (simp add: evict_def)
qed

lemma wf_cache_insert:
  assumes "cache_wf c"
  shows "cache_wf (cache_insert k e now c)"
proof -
  have "length (evict now (entries c)) < MAX_ENTRIES"
    using assms by (simp add: cache_wf_def length_evict)
  with assms show ?thesis
    by (auto simp: cache_insert_def cache_wf_def Let_def keys.wf_insert wf_evict keys.length_insert)
qed

section \<open>Behaviour\<close>

text \<open>What a lookup sees: the live entry under the key, before aging.\<close>

definition live_entry :: "cache_key \<Rightarrow> instant \<Rightarrow> cache \<Rightarrow> entry option" where
  "live_entry k now c =
     (case hm_get cache_key_eq k (entries c) of
        None \<Rightarrow> None
      | Some e \<Rightarrow> if e_expires e \<le> now then None else Some e)"

definition aged :: "instant \<Rightarrow> entry \<Rightarrow> entry" where
  "aged now e =
     e\<lparr>e_records := map (\<lambda>r. r\<lparr>r_ttl := min (r_ttl r) (word_of_nat (as_secs (e_expires e - now)))\<rparr>)
        (e_records e)\<rparr>"

lemma fst_cache_get: "fst (cache_get k now c) = map_option (aged now) (live_entry k now c)"
  by (auto simp: cache_get_def live_entry_def aged_def Let_def split: option.splits)

lemma live_entry_cong:
  "cache_key_eq k k' \<Longrightarrow> live_entry k now c = live_entry k' now c"
  by (simp add: live_entry_def keys.get_cong [of k k'])

lemma live_entry_remove:
  "live_entry k' now (c\<lparr>entries := hm_remove cache_key_eq k (entries c)\<rparr>) =
     (if cache_key_eq k' k then None else live_entry k' now c)"
  by (simp add: live_entry_def keys.get_remove)

lemma live_entry_insert:
  assumes "\<not> (cache_len c \<ge> MAX_ENTRIES \<and> hm_get cache_key_eq k (entries c) = None)"
  shows "live_entry k' now' (cache_insert k e now c) =
    (if cache_key_eq k' k then (if e_expires e \<le> now' then None else Some e)
     else live_entry k' now' c)"
  using assms by (auto simp: cache_insert_def cache_len_def live_entry_def keys.get_insert Let_def)

lemma live_entry_insert_same:
  "live_entry k now' (cache_insert k e now c) = (if e_expires e \<le> now' then None else Some e)"
  by (simp add: cache_insert_def live_entry_def keys.get_insert keys.eq_refl Let_def)

text \<open>
  At capacity, an insertion keeps every entry that is live at that moment except at most
  one, and that one, the victim, expires no later than any other live entry.
\<close>

lemma evict_get:
  assumes wf: "hm_wf cache_key_eq es" and get: "hm_get cache_key_eq k es = Some e" and live: "e_expires e > now"
    and gone: "hm_get cache_key_eq k (evict now es) \<noteq> Some e"
  shows "length (filter (\<lambda>(k, e). e_expires e > now) es) \<ge> MAX_ENTRIES"
    and "\<forall>(k', e') \<in> set es. e_expires e' > now \<longrightarrow> e_expires e \<le> e_expires e'"
proof -
  let ?live = "filter (\<lambda>(k, e). e_expires e > now) es"
  have kept: "hm_get cache_key_eq k ?live = Some e"
    using get live by (simp add: keys.get_filter_value [OF wf])
  show full: "length ?live \<ge> MAX_ENTRIES"
    using gone kept by (auto simp: evict_def Let_def split: if_splits)
  obtain v ev where v: "min_by_key (\<lambda>(k, e). e_expires e) ?live = Some (v, ev)"
    using full gone kept by (auto simp: evict_def Let_def split: option.splits if_splits)
  have "evict now es = hm_remove cache_key_eq v ?live"
    using full v by (simp add: evict_def Let_def)
  then have "cache_key_eq k v" using gone kept by (auto simp: keys.get_remove split: if_splits)
  have "hm_get cache_key_eq v ?live = Some ev"
    using min_by_key_Some [OF v] keys.in_set_get [OF keys.wf_filter [OF wf]] by blast
  moreover have "hm_get cache_key_eq v ?live = hm_get cache_key_eq k ?live"
    using keys.get_cong [OF \<open>cache_key_eq k v\<close>, of ?live] by simp
  ultimately have "ev = e" using kept by simp
  then show "\<forall>(k', e') \<in> set es. e_expires e' > now \<longrightarrow> e_expires e \<le> e_expires e'"
    using min_by_key_Some [OF v] by fastforce
qed

lemma live_entry_flush_scope:
  "live_entry k now (flush_scope s c) = (if ck_scope k = s then None else live_entry k now c)"
  using keys.get_filter_key [of "\<lambda>k. ck_scope k \<noteq> s" k "entries c"]
  by (auto simp: live_entry_def flush_scope_def cache_key_eq_def)

lemma live_entry_clear: "live_entry k now (cache_clear c) = None"
  by (simp add: live_entry_def cache_clear_def)

lemma live_entry_expires: "live_entry k now c = Some e \<Longrightarrow> e_expires e > now"
  by (auto simp: live_entry_def split: option.splits if_splits)

lemma live_entry_antimono:
  "live_entry k now' c = Some e \<Longrightarrow> now \<le> now' \<Longrightarrow> live_entry k now c = Some e"
  by (auto simp: live_entry_def split: option.splits if_splits)

lemma live_entry_get:
  "now \<le> now' \<Longrightarrow> live_entry k' now' (snd (cache_get k now c)) = live_entry k' now' c"
proof -
  assume "now \<le> now'"
  then show ?thesis
    using keys.get_cong [of k' k "entries c"]
    by (auto simp: cache_get_def live_entry_def keys.get_remove Let_def split: option.splits)
qed

lemma cache_key_scope: "cache_key_eq k k' \<Longrightarrow> ck_scope k = ck_scope k'"
  by (simp add: cache_key_eq_def)

lemma cache_key_new_eq:
  "cache_key_eq (cache_key_new n t s) (cache_key_new n' t' s') \<longleftrightarrow> name_eq n n' \<and> t = t' \<and> s = s'"
  by (simp add: cache_key_eq_def cache_key_new_def)

section \<open>The cache as an interface\<close>

text \<open>
  What the engine relies on. \<open>visible k now c\<close> is the entry a lookup of \<open>k\<close> at \<open>now\<close> would
  use; \<open>scope k\<close> the scope of a key. Insertion shows the new entry under its own key and adds
  nothing under another; flushing a scope hides exactly that scope.
\<close>

locale answer_cache =
  fixes visible :: "'k \<Rightarrow> instant \<Rightarrow> 'c \<Rightarrow> 'e option"
    and get :: "'k \<Rightarrow> instant \<Rightarrow> 'c \<Rightarrow> 'e option \<times> 'c"
    and ins :: "'k \<Rightarrow> 'e \<Rightarrow> instant \<Rightarrow> 'c \<Rightarrow> 'c"
    and flush :: "'s \<Rightarrow> 'c \<Rightarrow> 'c"
    and scope :: "'k \<Rightarrow> 's"
    and same :: "'k \<Rightarrow> 'k \<Rightarrow> bool"
    and invar :: "'c \<Rightarrow> bool"
  assumes invar_get: "invar c \<Longrightarrow> invar (snd (get k now c))"
    and invar_ins: "invar c \<Longrightarrow> invar (ins k e now c)"
    and invar_flush: "invar c \<Longrightarrow> invar (flush s c)"
    and visible_get: "visible k' now' (snd (get k now c)) = Some e \<Longrightarrow> visible k' now' c = Some e"
    and visible_ins: "invar c \<Longrightarrow> visible k' now' (ins k e now c) = Some e' \<Longrightarrow>
      (same k' k \<and> e' = e) \<or> visible k' now' c = Some e'"
    and visible_flush: "visible k now (flush s c) = (if scope k = s then None else visible k now c)"
    and same_scope: "same k k' \<Longrightarrow> scope k = scope k'"
begin

text \<open>
  Isolation: while nothing of scope \<open>s\<close> is visible, only an insertion in \<open>s\<close> changes that.
\<close>

lemma hidden_get:
  "\<forall>k now. scope k = s \<longrightarrow> visible k now c = None \<Longrightarrow> scope k' = s \<Longrightarrow>
   visible k' now' (snd (get k now c)) = None"
  using visible_get [of k' now' k now c] by (cases "visible k' now' (snd (get k now c))") auto

lemma hidden_ins:
  "invar c \<Longrightarrow> \<forall>k now. scope k = s \<longrightarrow> visible k now c = None \<Longrightarrow> scope k \<noteq> s \<Longrightarrow> scope k' = s \<Longrightarrow>
   visible k' now' (ins k e now c) = None"
  using visible_ins [of c k' now' k e now] same_scope [of k' k]
  by (cases "visible k' now' (ins k e now c)") auto

lemma hidden_flush:
  "\<forall>k now. scope k = s \<longrightarrow> visible k now c = None \<Longrightarrow> scope k' = s \<Longrightarrow>
   visible k' now' (flush t c) = None"
  by (simp add: visible_flush)

lemma flush_hides: "scope k = s \<Longrightarrow> visible k now (flush s c) = None"
  by (simp add: visible_flush)

end

lemma visible_insert_cases:
  assumes wf: "cache_wf c"
    and "live_entry k' now' (cache_insert k e now c) = Some e'"
  shows "(cache_key_eq k' k \<and> e' = e) \<or> live_entry k' now' c = Some e'"
proof -
  have ev: "hm_get cache_key_eq k' (evict now (entries c)) = Some x \<Longrightarrow>
      hm_get cache_key_eq k' (entries c) = Some x" for x
    using wf by (auto simp: cache_wf_def evict_def Let_def keys.get_remove keys.get_filter_value
        split: option.splits if_splits)
  show ?thesis
    using assms(2) ev
    by (auto simp: cache_insert_def live_entry_def keys.get_insert Let_def split: option.splits if_splits)
qed

lemma visible_cache_get:
  "live_entry k' now' (snd (cache_get k now c)) = Some e \<Longrightarrow> live_entry k' now' c = Some e"
  by (auto simp: cache_get_def live_entry_def keys.get_remove Let_def split: option.splits if_splits)

interpretation ac: answer_cache live_entry cache_get cache_insert flush_scope ck_scope cache_key_eq cache_wf
  by unfold_locales
     (auto simp: wf_cache_get wf_cache_insert wf_flush_scope live_entry_flush_scope
       intro: visible_cache_get cache_key_scope dest: visible_insert_cases)

text \<open>Sequences of cache operations, as the engine issues them.\<close>

datatype cache_op =
    OpGet cache_key instant
  | OpInsert cache_key entry instant
  | OpFlush string
  | OpClear

fun cache_step :: "cache_op \<Rightarrow> cache \<Rightarrow> cache" where
  "cache_step (OpGet k now) c = snd (cache_get k now c)"
| "cache_step (OpInsert k e now) c = cache_insert k e now c"
| "cache_step (OpFlush s) c = flush_scope s c"
| "cache_step OpClear c = cache_clear c"

fun inserts_in :: "string \<Rightarrow> cache_op \<Rightarrow> bool" where
  "inserts_in s (OpInsert k e now) \<longleftrightarrow> ck_scope k = s"
| "inserts_in s _ \<longleftrightarrow> False"

lemma wf_cache_step: "cache_wf c \<Longrightarrow> cache_wf (cache_step op c)"
  by (cases op) (auto simp: ac.invar_get ac.invar_ins ac.invar_flush wf_cache_clear)

lemma wf_cache_run: "cache_wf c \<Longrightarrow> cache_wf (fold cache_step ops c)"
  by (induction ops arbitrary: c) (auto simp: wf_cache_step)

definition hidden :: "string \<Rightarrow> cache \<Rightarrow> bool" where
  "hidden s c \<longleftrightarrow> (\<forall>k now. ck_scope k = s \<longrightarrow> live_entry k now c = None)"

lemma hidden_cache_step:
  assumes "cache_wf c" "hidden s c" "\<not> inserts_in s op"
  shows "hidden s (cache_step op c)"
proof (cases op)
  case (OpGet k now)
  then show ?thesis using assms(2) ac.hidden_get [of s c] by (simp add: hidden_def)
next
  case (OpInsert k e now)
  then show ?thesis using assms ac.hidden_ins [of c s k] by (simp add: hidden_def)
next
  case (OpFlush t)
  then show ?thesis using assms(2) ac.hidden_flush [of s c] by (simp add: hidden_def)
next
  case OpClear
  then show ?thesis by (simp add: hidden_def live_entry_clear)
qed

lemma hidden_cache_run:
  "cache_wf c \<Longrightarrow> hidden s c \<Longrightarrow> \<forall>op \<in> set ops. \<not> inserts_in s op \<Longrightarrow>
   hidden s (fold cache_step ops c)"
proof (induction ops arbitrary: c)
  case (Cons op ops)
  then have "hidden s (cache_step op c)" by (simp add: hidden_cache_step)
  with Cons show ?case by (simp add: wf_cache_step)
qed simp

lemma hidden_flush_scope: "hidden s (flush_scope s c)"
  by (simp add: hidden_def ac.flush_hides)

end
