(* ===== verification/Engine_State.thy ===== *)
theory Engine_State
  imports Cache
begin

text \<open>
  The data of the resolution engine: \<open>resolvd/src/engine.rs\<close>, lines 51 to 305, with the
  \<open>Level\<close> of \<open>netd-core\<close>. Identifiers (\<open>u64\<close>) drawn from \<open>next_id\<close> are \<open>nat\<close>: one is drawn
  per task and per transaction and the counter starts at 1, so \<open>2 ^ 64\<close> is out of reach.
  Counters keep their 64 bits.
\<close>

section \<open>Interface levels\<close>

datatype level = Absent | Link | Addressed | Routed

fun level_rank :: "level \<Rightarrow> nat" where
  "level_rank Absent = 0"
| "level_rank Link = 1"
| "level_rank Addressed = 2"
| "level_rank Routed = 3"

lemma level_rank_inject [simp]: "level_rank a = level_rank b \<longleftrightarrow> a = b"
  by (cases a; cases b) auto

instantiation level :: linorder
begin

definition less_eq_level :: "level \<Rightarrow> level \<Rightarrow> bool" where
  "less_eq_level a b \<longleftrightarrow> level_rank a \<le> level_rank b"

definition less_level :: "level \<Rightarrow> level \<Rightarrow> bool" where
  "less_level a b \<longleftrightarrow> level_rank a < level_rank b"

instance
  by standard (auto simp: less_eq_level_def less_level_def)

end

section \<open>Constants\<close>

definition SERVER_TIMEOUT :: duration where
  "SERVER_TIMEOUT = from_secs 2"

definition MAX_ATTEMPTS :: nat where
  "MAX_ATTEMPTS = 3"

definition DEMOTION :: duration where
  "DEMOTION = from_secs 30"

definition MAX_POSITIVE_TTL :: u32 where
  "MAX_POSITIVE_TTL = 86400"

definition MAX_NEGATIVE_TTL :: u32 where
  "MAX_NEGATIVE_TTL = 300"

definition MAX_IN_FLIGHT :: nat where
  "MAX_IN_FLIGHT = 4096"

definition FALLBACK_SCOPE :: string where
  "FALLBACK_SCOPE = ''fallback''"

section \<open>Scopes\<close>

record scope =
  sc_id :: string
  sc_interface :: string
  sc_servers :: "ip_addr list"
  sc_domains :: "name list"
  sc_addresses :: "(ip_addr \<times> u8) list"
  sc_default_route :: bool
  sc_exclusive :: bool
  sc_metric :: u32
  sc_level :: level

fun same_subnet :: "ip_addr \<Rightarrow> u8 \<Rightarrow> ip_addr \<Rightarrow> bool" where
  "same_subnet (V4 a) plen (V4 b) =
     (let mask = (if plen = 0 then 0 else push_bit (32 - min (unat plen) 32) (- 1 :: u32))
      in a AND mask = b AND mask)"
| "same_subnet (V6 a) plen (V6 b) =
     (let mask = (if plen = 0 then 0 else push_bit (128 - min (unat plen) 128) (- 1 :: u128))
      in a AND mask = b AND mask)"
| "same_subnet _ _ _ = False"

definition scope_contains :: "scope \<Rightarrow> ip_addr \<Rightarrow> bool" where
  "scope_contains s addr = list_ex (\<lambda>(a, plen). same_subnet a plen addr) (sc_addresses s)"

text \<open>\<open>Ipv6Addr::is_unicast_link_local\<close>: \<open>fe80::/10\<close>. \<open>IpAddr::is_loopback\<close>: \<open>127/8\<close> and \<open>::1\<close>.\<close>

definition is_unicast_link_local :: "u128 \<Rightarrow> bool" where
  "is_unicast_link_local a \<longleftrightarrow> (ucast (drop_bit 112 a) AND 0xffc0 :: u16) = 0xfe80"

fun is_loopback :: "ip_addr \<Rightarrow> bool" where
  "is_loopback (V4 a) = (be_bytes 4 a ! 0 = 127)"
| "is_loopback (V6 a) = (a = 1)"

definition server_key :: "ip_addr \<Rightarrow> string \<Rightarrow> ip_addr \<times> string" where
  "server_key server scope =
     (let local = (case server of V6 ip \<Rightarrow> is_unicast_link_local ip | V4 _ \<Rightarrow> False)
      in (server, if local then scope else ''''))"

section \<open>Answers and actions\<close>

datatype source = Local | Synthetic | Hosts | FromCache | Dns

record answer =
  a_outcome :: outcome
  a_records :: "rr list"
  a_source :: source
  a_server :: "ip_addr option"
  a_interface :: "string option"
  a_rcode :: u16
  a_resolved_name :: "name option"
  a_negative_ttl :: u32

definition default_answer :: answer where
  "default_answer =
     \<lparr>a_outcome = Unavailable, a_records = [], a_source = Local, a_server = None,
      a_interface = None, a_rcode = 0, a_resolved_name = None, a_negative_ttl = 0\<rparr>"

record addresses =
  ad_outcome :: outcome
  ad_canonical :: name
  ad_addresses :: "(ip_addr \<times> u32) list"
  ad_source :: source

definition default_addresses :: addresses where
  "default_addresses =
     \<lparr>ad_outcome = Unavailable, ad_canonical = root, ad_addresses = [], ad_source = Local\<rparr>"

datatype completion = CAnswer answer | CAddresses addresses

type_synonym qid = nat
type_synonym txid = nat
type_synonym task_id = nat

datatype action =
    Send txid ip_addr "string option" bool bytes
  | Cancel txid
  | Done qid completion

datatype family = Any | FamV4 | FamV6

record counters =
  c_queries :: u64
  c_synthetic :: u64
  c_cache_hits :: u64
  c_upstream_sent :: u64
  c_upstream_answered :: u64
  c_upstream_failed :: u64
  c_refused :: u64

definition default_counters :: counters where
  "default_counters =
     \<lparr>c_queries = 0, c_synthetic = 0, c_cache_hits = 0, c_upstream_sent = 0,
      c_upstream_answered = 0, c_upstream_failed = 0, c_refused = 0\<rparr>"

section \<open>The engine\<close>

datatype owner = OResolve qid | OLookup qid

record task =
  t_owner :: owner
  t_original :: name
  t_type :: u16
  t_no_cache :: bool
  t_cache_invalidated :: bool
  t_candidates :: "name list"
  t_current :: "name option"
  t_scope :: "string option"
  t_attempt :: nat
  t_tried :: "ip_addr list"
  t_tx :: "txid option"

record tx =
  x_task :: task_id
  x_dns_id :: u16
  x_question :: question
  x_server :: ip_addr
  x_tcp :: bool
  x_deadline :: instant

record lookup =
  l_name :: name
  l_pending :: "task_id list"
  l_results :: "(u16 \<times> answer) list"

text \<open>
  The entropy source is the closure the caller supplies: \<open>entropy n\<close> is what its \<open>n\<close>th call
  writes, \<open>None\<close> an I/O error; \<open>draws\<close> counts the calls.
\<close>

record engine =
  scopes :: "scope list"
  fallback_servers :: "ip_addr list"
  fallback_domains :: "name list"
  hostname :: "name option"
  hosts :: "(name \<times> ip_addr list) list"
  answers_cache :: cache
  demoted :: "((ip_addr \<times> string) \<times> instant) list"
  tasks :: "(task_id \<times> task) list"
  txs :: "(txid \<times> tx) list"
  lookups :: "(qid \<times> lookup) list"
  next_id :: nat
  entropy :: "nat \<Rightarrow> bytes option"
  draws :: nat
  counters :: counters

definition with_entropy :: "(nat \<Rightarrow> bytes option) \<Rightarrow> engine" where
  "with_entropy ent =
     \<lparr>scopes = [], fallback_servers = [], fallback_domains = [], hostname = None, hosts = [],
      answers_cache = cache_new, demoted = [], tasks = [], txs = [], lookups = [], next_id = 1,
      entropy = ent, draws = 0, counters = default_counters\<rparr>"

abbreviation get_task :: "engine \<Rightarrow> task_id \<Rightarrow> task option" where
  "get_task e i \<equiv> hm_get (=) i (tasks e)"

abbreviation get_tx :: "engine \<Rightarrow> txid \<Rightarrow> tx option" where
  "get_tx e x \<equiv> hm_get (=) x (txs e)"

abbreviation get_lookup :: "engine \<Rightarrow> qid \<Rightarrow> lookup option" where
  "get_lookup e q \<equiv> hm_get (=) q (lookups e)"

text \<open>\<open>tasks.get_mut(&id)\<close> followed by a write: nothing happens to a task that is gone.\<close>

definition update_task :: "task_id \<Rightarrow> (task \<Rightarrow> task) \<Rightarrow> engine \<Rightarrow> engine" where
  "update_task i f e = e\<lparr>tasks := map (\<lambda>(j, t). (j, if j = i then f t else t)) (tasks e)\<rparr>"

definition bump :: "(counters \<Rightarrow> counters) \<Rightarrow> engine \<Rightarrow> engine" where
  "bump f e = e\<lparr>counters := f (counters e)\<rparr>"

lemma get_update_task:
  "get_task (update_task i f e) j = (if j = i then map_option f (get_task e j) else get_task e j)"
proof -
  have "hm_get (=) j (map (\<lambda>(j, t). (j, if j = i then f t else t)) ts) =
      (if j = i then map_option f (hm_get (=) j ts) else hm_get (=) j ts)" for ts
    by (induction ts) auto
  then show ?thesis by (simp add: update_task_def)
qed

end
