(* ===== verification/Routing.thy ===== *)
theory Routing
  imports Engine_State "HOL-Library.Multiset" "HOL-Library.Product_Lexorder" "HOL-Library.List_Lexorder"
begin

text \<open>
  Which scope a name goes to, which servers are asked, which names are tried, and what is
  answered without the network: \<open>resolvd/src/engine.rs\<close>, lines 706 to 728 and 1007 to 1219.
\<close>

section \<open>Routing\<close>

definition up_scopes :: "engine \<Rightarrow> scope list" where
  "up_scopes e = filter (\<lambda>s. sc_level s \<ge> Link) (scopes e)"

definition exclusive :: "engine \<Rightarrow> scope option" where
  "exclusive e =
     min_by_key sc_metric (filter (\<lambda>s. sc_exclusive s \<and> sc_level s \<ge> Addressed) (up_scopes e))"

text \<open>The nested loop over scopes and their search domains; \<open>best\<close> is (length, metric, scope).\<close>

type_synonym best = "(nat \<times> u32 \<times> scope) option"

definition better :: "best \<Rightarrow> nat \<Rightarrow> u32 \<Rightarrow> bool" where
  "better best k0 k1 =
     (case best of None \<Rightarrow> True | Some (l, m, _) \<Rightarrow> k0 > l \<or> (k0 = l \<and> k1 < m))"

definition try_domain :: "name \<Rightarrow> scope \<Rightarrow> name \<Rightarrow> best \<Rightarrow> best" where
  "try_domain n s d best =
     (if ends_with n d then
        (if better best (label_count d) (sc_metric s) then Some (label_count d, sc_metric s, s)
         else best)
      else best)"

definition best_match :: "name \<Rightarrow> scope list \<Rightarrow> best" where
  "best_match n ss = fold (\<lambda>s best. fold (try_domain n s) (sc_domains s) best) ss None"

definition route :: "engine \<Rightarrow> name \<Rightarrow> string option" where
  "route e n =
     (case exclusive e of
        Some x \<Rightarrow> Some (sc_id x)
      | None \<Rightarrow>
     (case best_match n (up_scopes e) of
        Some (_, _, s) \<Rightarrow> Some (sc_id s)
      | None \<Rightarrow>
     (case (case reverse_address n of
              None \<Rightarrow> None
            | Some addr \<Rightarrow> min_by_key sc_metric (filter (\<lambda>s. scope_contains s addr) (up_scopes e))) of
        Some s \<Rightarrow> Some (sc_id s)
      | None \<Rightarrow>
     (case min_by_key sc_metric (filter sc_default_route (up_scopes e)) of
        Some s \<Rightarrow> Some (sc_id s)
      | None \<Rightarrow>
     (case min_by_key sc_metric (filter (\<lambda>s. sc_servers s \<noteq> []) (up_scopes e)) of
        Some s \<Rightarrow> Some (sc_id s)
      | None \<Rightarrow>
        if fallback_servers e \<noteq> [] then Some FALLBACK_SCOPE else None)))))"

definition interface_of :: "engine \<Rightarrow> string \<Rightarrow> string option" where
  "interface_of e sid = map_option sc_interface (find (\<lambda>s. sc_id s = sid) (scopes e))"

definition demote :: "ip_addr \<Rightarrow> string \<Rightarrow> instant \<Rightarrow> engine \<Rightarrow> engine" where
  "demote server sid now e =
     e\<lparr>demoted := hm_insert (=) (server_key server sid) (now + DEMOTION) (demoted e)\<rparr>"

definition is_demoted :: "engine \<Rightarrow> ip_addr \<Rightarrow> string \<Rightarrow> instant \<Rightarrow> bool" where
  "is_demoted e server sid now =
     (case hm_get (=) (server_key server sid) (demoted e) of None \<Rightarrow> False | Some t \<Rightarrow> t > now)"

definition servers_of :: "engine \<Rightarrow> string \<Rightarrow> instant \<Rightarrow> ip_addr list" where
  "servers_of e sid now =
     (let servers =
        (if sid = FALLBACK_SCOPE then fallback_servers e
         else case find (\<lambda>s. sc_id s = sid) (scopes e) of None \<Rightarrow> [] | Some s \<Rightarrow> sc_servers s)
      in filter (\<lambda>s. \<not> is_demoted e s sid now) servers @
         filter (\<lambda>s. is_demoted e s sid now) servers)"

fun add_candidates :: "name \<Rightarrow> name list \<Rightarrow> name list \<Rightarrow> name list" where
  "add_candidates n [] out = out"
| "add_candidates n (d # ds) out =
     (case join n d of
        Inl _ \<Rightarrow> add_candidates n ds out
      | Inr full \<Rightarrow>
          add_candidates n ds (if list_ex (name_eq full) out then out else out @ [full]))"

definition candidates :: "engine \<Rightarrow> name \<Rightarrow> name list" where
  "candidates e n =
     (if label_count n \<noteq> 1 then [n]
      else
        let domains =
          (case exclusive e of
             Some x \<Rightarrow> sc_domains x
           | None \<Rightarrow> concat (map sc_domains (sort_key sc_metric (up_scopes e))) @ fallback_domains e)
        in add_candidates n domains [])"

section \<open>Synthetic answers\<close>

definition own_addresses :: "engine \<Rightarrow> ip_addr list" where
  "own_addresses e =
     remdups_adj
       (filter (\<lambda>a. \<not> is_loopback a)
          (concat (map (\<lambda>s. map fst (sc_addresses s))
             (filter (\<lambda>s. sc_level s \<ge> Addressed) (scopes e)))))"

definition localhost :: name where
  "localhost = Name [byte_str ''localhost'']"

definition local_domain :: name where
  "local_domain = Name [byte_str ''local'']"

definition LOCALHOST4 :: ip_addr where
  "LOCALHOST4 = V4 0x7f000001"

definition LOCALHOST6 :: ip_addr where
  "LOCALHOST6 = V6 1"

definition found_answer :: "name \<Rightarrow> rr list \<Rightarrow> source \<Rightarrow> answer" where
  "found_answer n rs src =
     default_answer\<lparr>a_outcome := Found, a_records := rs, a_source := src, a_resolved_name := Some n\<rparr>"

definition address_record :: "name \<Rightarrow> u16 \<Rightarrow> ip_addr \<Rightarrow> rr option" where
  "address_record n rtype a =
     (case a of
        V4 v4 \<Rightarrow> if rtype = RT_A \<or> rtype = RT_ANY then Some (record_new n 0 (A v4)) else None
      | V6 v6 \<Rightarrow> if rtype = RT_AAAA \<or> rtype = RT_ANY then Some (record_new n 0 (Aaaa v6)) else None)"

definition address_answer :: "name \<Rightarrow> u16 \<Rightarrow> ip_addr list \<Rightarrow> source \<Rightarrow> answer" where
  "address_answer n rtype addrs src = found_answer n (List.map_filter (address_record n rtype) addrs) src"

definition ptr_answer :: "name \<Rightarrow> name \<Rightarrow> source \<Rightarrow> answer" where
  "ptr_answer n target src = found_answer n [record_new n 0 (Ptr target)] src"

definition synthetic :: "engine \<Rightarrow> name \<Rightarrow> u16 \<Rightarrow> answer option" where
  "synthetic e n rtype =
     (if name_eq n localhost \<or> ends_with n localhost then
        Some (address_answer n rtype [LOCALHOST4, LOCALHOST6] Synthetic)
      else case hm_get name_eq n (hosts e) of
        Some addrs \<Rightarrow> Some (address_answer n rtype addrs Hosts)
      | None \<Rightarrow>
      if (case hostname e of None \<Rightarrow> False | Some h \<Rightarrow> name_eq h n) then
        (let own = own_addresses e in
         Some (address_answer n rtype (if own = [] then [LOCALHOST4, LOCALHOST6] else own) Synthetic))
      else if ends_with n local_domain then
        Some (default_answer\<lparr>a_outcome := NotFound, a_source := Synthetic\<rparr>)
      else case reverse_address n of
        None \<Rightarrow> None
      | Some addr \<Rightarrow>
          if rtype \<noteq> RT_PTR \<and> rtype \<noteq> RT_ANY then None
          else if is_loopback addr then Some (ptr_answer n localhost Synthetic)
          else case min_by_key (\<lambda>(h, _). name_display (to_lowercase h))
                      (filter (\<lambda>(_, addrs). addr \<in> set addrs) (hosts e)) of
            Some (h, _) \<Rightarrow> Some (ptr_answer n h Hosts)
          | None \<Rightarrow>
              (case hostname e of
                 None \<Rightarrow> None
               | Some h \<Rightarrow>
                   if addr \<in> set (own_addresses e) then Some (ptr_answer n h Synthetic) else None))"

section \<open>Properties of routing\<close>

subsection \<open>The search-domain loop\<close>

definition domain_pairs :: "scope list \<Rightarrow> (scope \<times> name) list" where
  "domain_pairs ss = concat (map (\<lambda>s. map (Pair s) (sc_domains s)) ss)"

definition domain_key :: "scope \<times> name \<Rightarrow> int \<times> u32" where
  "domain_key = (\<lambda>(s, d). (- int (label_count d), sc_metric s))"

definition domain_best :: "scope \<times> name \<Rightarrow> nat \<times> u32 \<times> scope" where
  "domain_best = (\<lambda>(s, d). (label_count d, sc_metric s, s))"

lemma min_by_key_snoc:
  "min_by_key f (xs @ [x]) =
     (case min_by_key f xs of None \<Rightarrow> Some x | Some y \<Rightarrow> if f x < f y then Some x else Some y)"
  by (induction xs) (auto split: option.splits)

lemma best_match_pairs:
  "best_match n ss = fold (\<lambda>(s, d). try_domain n s d) (domain_pairs ss) None"
proof -
  have one: "fold (\<lambda>(s, d). try_domain n s d) (map (Pair s) ds) b = fold (try_domain n s) ds b" for s ds b
    by (induction ds arbitrary: b) auto
  have "fold (\<lambda>s best. fold (try_domain n s) (sc_domains s) best) ss b =
      fold (\<lambda>(s, d). try_domain n s d) (domain_pairs ss) b" for b
    by (induction ss arbitrary: b) (auto simp: domain_pairs_def one)
  then show ?thesis by (simp add: best_match_def)
qed

text \<open>The loop with its running best computes the first pair with the least key.\<close>

lemma best_match_min:
  "best_match n ss =
     map_option domain_best (min_by_key domain_key (filter (\<lambda>(s, d). ends_with n d) (domain_pairs ss)))"
proof -
  have "fold (\<lambda>(s, d). try_domain n s d) ps None =
      map_option domain_best (min_by_key domain_key (filter (\<lambda>(s, d). ends_with n d) ps))" for ps
  proof (induction ps rule: rev_induct)
    case (snoc p ps)
    then show ?case
      by (cases p)
         (auto simp: try_domain_def better_def min_by_key_snoc domain_best_def domain_key_def
           split: option.splits)
  qed simp
  then show ?thesis by (simp add: best_match_pairs)
qed

lemma best_match_None:
  "best_match n ss = None \<longleftrightarrow> (\<forall>s \<in> set ss. \<forall>d \<in> set (sc_domains s). \<not> ends_with n d)"
  by (auto simp: best_match_min domain_pairs_def filter_empty_conv)

lemma best_match_Some:
  assumes "best_match n ss = Some (l, m, s)"
  shows "s \<in> set ss" "m = sc_metric s" "\<exists>d \<in> set (sc_domains s). ends_with n d \<and> label_count d = l"
    "\<And>s' d'. s' \<in> set ss \<Longrightarrow> d' \<in> set (sc_domains s') \<Longrightarrow> ends_with n d' \<Longrightarrow>
       label_count d' < l \<or> label_count d' = l \<and> m \<le> sc_metric s'"
proof -
  let ?ps = "filter (\<lambda>(s, d). ends_with n d) (domain_pairs ss)"
  obtain d where min: "min_by_key domain_key ?ps = Some (s, d)" and l: "l = label_count d" "m = sc_metric s"
    using assms by (auto simp: best_match_min domain_best_def)
  from min_by_key_Some [OF min] have mem: "(s, d) \<in> set ?ps"
    and least: "\<forall>p \<in> set ?ps. domain_key (s, d) \<le> domain_key p" by auto
  show "s \<in> set ss" "m = sc_metric s" "\<exists>d \<in> set (sc_domains s). ends_with n d \<and> label_count d = l"
    using mem l by (auto simp: domain_pairs_def)
  fix s' d' assume "s' \<in> set ss" "d' \<in> set (sc_domains s')" "ends_with n d'"
  then have "(s', d') \<in> set ?ps" by (auto simp: domain_pairs_def)
  then show "label_count d' < l \<or> label_count d' = l \<and> m \<le> sc_metric s'"
    using least l by (force simp: domain_key_def)
qed

lemma exclusive_Some:
  "exclusive e = Some x \<Longrightarrow>
   x \<in> set (scopes e) \<and> sc_exclusive x \<and> sc_level x \<ge> Addressed \<and>
   (\<forall>y \<in> set (scopes e). sc_exclusive y \<and> sc_level y \<ge> Addressed \<longrightarrow> sc_metric x \<le> sc_metric y)"
proof -
  assume "exclusive e = Some x"
  from min_by_key_Some [OF this [unfolded exclusive_def]]
  show ?thesis by (auto simp: up_scopes_def less_eq_level_def)
qed

lemma exclusive_None:
  "exclusive e = None \<longleftrightarrow> (\<forall>y \<in> set (scopes e). \<not> (sc_exclusive y \<and> sc_level y \<ge> Addressed))"
  by (auto simp: exclusive_def up_scopes_def filter_empty_conv less_eq_level_def)

lemma route_exclusive: "exclusive e = Some x \<Longrightarrow> route e n = Some (sc_id x)"
  by (simp add: route_def)

lemma route_domain:
  "exclusive e = None \<Longrightarrow> best_match n (up_scopes e) = Some (l, m, s) \<Longrightarrow> route e n = Some (sc_id s)"
  by (simp add: route_def)

text \<open>A route is the fallback or the identifier of a scope that is up.\<close>

lemma min_by_key_filter_up:
  "min_by_key f (filter P (up_scopes e)) = Some s \<Longrightarrow> s \<in> set (scopes e) \<and> sc_level s \<ge> Link \<and> P s"
  using min_by_key_Some [of f "filter P (up_scopes e)" s] by (auto simp: up_scopes_def)

lemma route_up:
  assumes "route e n = Some sid"
  shows "(sid = FALLBACK_SCOPE \<and> fallback_servers e \<noteq> []) \<or>
    (\<exists>s \<in> set (scopes e). sc_level s \<ge> Link \<and> sc_id s = sid)"
proof -
  have up: "s \<in> set (up_scopes e) \<Longrightarrow> s \<in> set (scopes e) \<and> sc_level s \<ge> Link" for s
    by (simp add: up_scopes_def)
  show ?thesis
    using assms up best_match_Some(1)
    by (auto simp: route_def exclusive_def dest!: min_by_key_filter_up split: option.splits if_splits; metis)
qed

subsection \<open>Subnets\<close>

lemma mask_eq_drop_bit:
  fixes a b :: "'a::len word"
  shows "a AND push_bit k (- 1) = b AND push_bit k (- 1) \<longleftrightarrow> drop_bit k a = drop_bit k b"
proof
  assume eq: "a AND push_bit k (- 1) = b AND push_bit k (- 1)"
  show "drop_bit k a = drop_bit k b"
  proof (rule bit_word_eqI)
    fix n assume "n < LENGTH('a)"
    have "bit (a AND push_bit k (- 1)) (k + n) = bit (b AND push_bit k (- 1)) (k + n)" using eq by simp
    then show "bit (drop_bit k a) n = bit (drop_bit k b) n"
      by (auto simp: bit_simps dest: bit_imp_le_length)
  qed
next
  assume eq: "drop_bit k a = drop_bit k b"
  show "a AND push_bit k (- 1) = b AND push_bit k (- 1)"
  proof (rule bit_word_eqI)
    fix n assume "n < LENGTH('a)"
    have "bit (drop_bit k a) (n - k) = bit (drop_bit k b) (n - k)" using eq by simp
    then show "bit (a AND push_bit k (- 1)) n = bit (b AND push_bit k (- 1)) n"
      by (auto simp: bit_simps)
  qed
qed

lemma drop_bit_full: "LENGTH('a) \<le> k \<Longrightarrow> drop_bit k (a :: 'a::len word) = 0"
  by (rule bit_word_eqI) (auto simp: bit_simps dest: bit_imp_le_length)

text \<open>Same subnet: the leading prefix-length bits agree (all of them from 32 or 128 up).\<close>

lemma same_subnet_iff:
  "same_subnet (V4 a) plen (V4 b) \<longleftrightarrow> drop_bit (32 - min (unat plen) 32) a = drop_bit (32 - min (unat plen) 32) b"
  "same_subnet (V6 c) plen (V6 d) \<longleftrightarrow> drop_bit (128 - min (unat plen) 128) c = drop_bit (128 - min (unat plen) 128) d"
proof -
  show "same_subnet (V4 a) plen (V4 b) \<longleftrightarrow> drop_bit (32 - min (unat plen) 32) a = drop_bit (32 - min (unat plen) 32) b"
    by (cases "plen = 0") (simp_all only: same_subnet.simps Let_def if_True if_False mask_eq_drop_bit, simp add: drop_bit_full)
  show "same_subnet (V6 c) plen (V6 d) \<longleftrightarrow> drop_bit (128 - min (unat plen) 128) c = drop_bit (128 - min (unat plen) 128) d"
    by (cases "plen = 0") (simp_all only: same_subnet.simps Let_def if_True if_False mask_eq_drop_bit, simp add: drop_bit_full)
qed

subsection \<open>Servers\<close>

definition scope_servers :: "engine \<Rightarrow> string \<Rightarrow> ip_addr list" where
  "scope_servers e sid =
     (if sid = FALLBACK_SCOPE then fallback_servers e
      else case find (\<lambda>s. sc_id s = sid) (scopes e) of None \<Rightarrow> [] | Some s \<Rightarrow> sc_servers s)"

lemma servers_of_partition:
  "servers_of e sid now =
     filter (\<lambda>s. \<not> is_demoted e s sid now) (scope_servers e sid) @
     filter (\<lambda>s. is_demoted e s sid now) (scope_servers e sid)"
  by (simp add: servers_of_def scope_servers_def Let_def)

lemma set_servers_of: "set (servers_of e sid now) = set (scope_servers e sid)"
  by (auto simp: servers_of_partition)

lemma mset_servers_of: "mset (servers_of e sid now) = mset (scope_servers e sid)"
  by (simp add: servers_of_partition)

lemma servers_of_Nil: "servers_of e sid now = [] \<longleftrightarrow> scope_servers e sid = []"
  using set_servers_of by (metis set_empty)

text \<open>Healthy servers come before demoted ones.\<close>

lemma servers_of_healthy_first:
  assumes "i < j" "j < length (servers_of e sid now)" "is_demoted e (servers_of e sid now ! i) sid now"
  shows "is_demoted e (servers_of e sid now ! j) sid now"
proof -
  let ?h = "filter (\<lambda>s. \<not> is_demoted e s sid now) (scope_servers e sid)"
  let ?d = "filter (\<lambda>s. is_demoted e s sid now) (scope_servers e sid)"
  have "\<not> i < length ?h"
  proof
    assume "i < length ?h"
    then have "?h ! i \<in> set ?h" by (rule nth_mem)
    then show False using assms(3) \<open>i < length ?h\<close> by (simp add: servers_of_partition nth_append)
  qed
  then have "j - length ?h < length ?d" "\<not> j < length ?h" using assms(1,2) by (auto simp: servers_of_partition)
  then have "?d ! (j - length ?h) \<in> set ?d" by (intro nth_mem)
  then show ?thesis using \<open>\<not> j < length ?h\<close> by (simp add: servers_of_partition nth_append)
qed

subsection \<open>Candidates\<close>

definition search_domains :: "engine \<Rightarrow> name list" where
  "search_domains e =
     (case exclusive e of
        Some x \<Rightarrow> sc_domains x
      | None \<Rightarrow> concat (map sc_domains (sort_key sc_metric (up_scopes e))) @ fallback_domains e)"

lemma candidates_alt:
  "candidates e n = (if label_count n \<noteq> 1 then [n] else add_candidates n (search_domains e) [])"
  by (simp add: candidates_def search_domains_def)

fun distinct_names :: "name list \<Rightarrow> bool" where
  "distinct_names [] = True"
| "distinct_names (n # ns) \<longleftrightarrow> \<not> list_ex (name_eq n) ns \<and> distinct_names ns"

lemma distinct_names_snoc:
  "distinct_names (ns @ [n]) \<longleftrightarrow> distinct_names ns \<and> \<not> list_ex (name_eq n) ns"
  by (induction ns) (auto simp: list_ex_iff name_eq_iff)

lemma add_candidates_sound:
  "distinct_names out \<Longrightarrow>
   distinct_names (add_candidates n ds out) \<and> prefix out (add_candidates n ds out) \<and>
   (\<forall>m \<in> set (add_candidates n ds out). m \<in> set out \<or> (\<exists>d \<in> set ds. join n d = Inr m))"
proof (induction ds arbitrary: out)
  case (Cons d ds)
  show ?case
  proof (cases "join n d")
    case (Inl err)
    then show ?thesis using Cons.IH [OF Cons.prems] by auto
  next
    case (Inr full)
    let ?out = "if list_ex (name_eq full) out then out else out @ [full]"
    have "distinct_names ?out" using Cons.prems by (simp add: distinct_names_snoc)
    from Cons.IH [OF this] show ?thesis using Inr
      by (auto split: if_splits dest: append_prefixD)
  qed
qed simp

lemma add_candidates_complete:
  "(\<exists>m' \<in> set out. name_eq m m') \<or> (\<exists>d \<in> set ds. join n d = Inr m) \<Longrightarrow>
   \<exists>m' \<in> set (add_candidates n ds out). name_eq m m'"
proof (induction ds arbitrary: out)
  case (Cons d ds)
  show ?case
  proof (cases "join n d")
    case (Inl err)
    then show ?thesis using Cons by auto
  next
    case (Inr full)
    let ?out = "if list_ex (name_eq full) out then out else out @ [full]"
    have "(\<exists>m' \<in> set ?out. name_eq m m') \<or> (\<exists>d \<in> set ds. join n d = Inr m)"
      using Cons.prems Inr by (auto simp: list_ex_iff name_eq_iff)
    from Cons.IH [OF this] show ?thesis using Inr by simp
  qed
qed simp

lemma search_domains_mem:
  "d \<in> set (search_domains e) \<Longrightarrow>
   (\<exists>s \<in> set (scopes e). d \<in> set (sc_domains s)) \<or> d \<in> set (fallback_domains e)"
  using exclusive_Some [of e] by (fastforce simp: search_domains_def up_scopes_def split: option.splits)

lemma candidates_wf:
  assumes "wf_name n" "c \<in> set (candidates e n)"
  shows "wf_name c"
proof (cases "label_count n = 1")
  case True
  then show ?thesis
    using assms add_candidates_sound [of "[]" n "search_domains e"]
    by (auto simp: candidates_alt join_Inr)
qed (use assms in \<open>simp add: candidates_alt\<close>)

lemma candidates_single:
  assumes "label_count n = 1" "c \<in> set (candidates e n)"
  obtains d where "d \<in> set (search_domains e)" "c = Name (labels n @ labels d)"
  using assms add_candidates_sound [of "[]" n "search_domains e"]
  by (auto simp: candidates_alt join_Inr)

lemma candidates_distinct: "distinct_names (candidates e n)"
  using add_candidates_sound [of "[]" n "search_domains e"]
  by (simp add: candidates_alt)

text \<open>
  The reference for the candidates of a single label: its joins with the domains, in their order,
  each name kept where it first appears, names compared without the case of letters.
\<close>

fun first_names :: "name list \<Rightarrow> name list" where
  "first_names [] = []"
| "first_names (n # ns) = n # first_names (filter (\<lambda>m. \<not> name_eq n m) ns)"

fun joins :: "name \<Rightarrow> name list \<Rightarrow> name list" where
  "joins n [] = []"
| "joins n (d # ds) = (case join n d of Inl _ \<Rightarrow> joins n ds | Inr full \<Rightarrow> full # joins n ds)"

lemma add_candidates_joins:
  "add_candidates n ds out = out @ first_names (filter (\<lambda>m. \<not> list_ex (name_eq m) out) (joins n ds))"
proof (induction ds arbitrary: out)
  case (Cons d ds)
  have sym: "name_eq a b \<longleftrightarrow> name_eq b a" for a b by (auto simp: name_eq_iff)
  show ?case
    by (cases "join n d") (auto simp: Cons.IH sym conj_commute intro!: arg_cong [where f = first_names] filter_cong)
qed simp

lemma candidates_joins:
  "label_count n = 1 \<Longrightarrow> candidates e n = first_names (joins n (search_domains e))"
  by (simp add: candidates_alt add_candidates_joins)

lemma candidates_not_bare:
  assumes "label_count n = 1" "c \<in> set (candidates e n)" "Name [] \<notin> set (search_domains e)"
  shows "1 < label_count c"
proof -
  from assms(1,2) obtain d where d: "d \<in> set (search_domains e)" "c = Name (labels n @ labels d)"
    by (rule candidates_single)
  then have "labels d \<noteq> []" using assms(3) by (metis name.exhaust_sel name.sel)
  then show ?thesis using assms(1) d(2) by (cases "labels d") (simp_all add: label_count_def)
qed

section \<open>Properties of synthetic answers\<close>

lemma synthetic_localhost: "ends_with n localhost \<Longrightarrow> synthetic e n t =
    Some (address_answer n t [LOCALHOST4, LOCALHOST6] Synthetic)"
  by (simp add: synthetic_def)

lemma synthetic_local: "ends_with n local_domain \<Longrightarrow> synthetic e n t \<noteq> None"
  by (auto simp: synthetic_def Let_def split: option.splits)

lemma synthetic_cong:
  "scopes e' = scopes e \<Longrightarrow> hosts e' = hosts e \<Longrightarrow> hostname e' = hostname e \<Longrightarrow>
   synthetic e' n t = synthetic e n t"
  by (simp add: synthetic_def own_addresses_def cong: option.case_cong if_cong)

text \<open>
  The static hosts are a \<open>HashMap\<close> whose iteration order changes from run to run. Neither
  the forward nor the reverse answer depends on it.
\<close>

lemma min_by_key_inj_mset:
  assumes "mset xs = mset ys" "inj_on f (set xs)"
  shows "min_by_key f xs = min_by_key f ys"
proof (cases "min_by_key f xs")
  case None
  then show ?thesis using assms(1) by simp
next
  case (Some x)
  have sets: "set xs = set ys" using assms(1) by (rule mset_eq_setD)
  with Some have "ys \<noteq> []" by auto
  then obtain y where y: "min_by_key f ys = Some y" using min_by_key_eq_None [of f ys] by blast
  have "f x = f y"
    using min_by_key_Some [OF Some] min_by_key_Some [OF y] sets by (auto intro: antisym)
  then have "x = y" using min_by_key_Some [OF Some] min_by_key_Some [OF y] sets assms(2)
    by (auto dest: inj_onD)
  with Some y show ?thesis by simp
qed

lemma wf_name_lowercase: "wf_name n \<Longrightarrow> wf_name (to_lowercase n)"
  by (auto simp: wf_name_def wf_label_def to_lowercase_def wire_len_def comp_def list_all_iff)

definition hosts_wf :: "(name \<times> ip_addr list) list \<Rightarrow> bool" where
  "hosts_wf hs \<longleftrightarrow> hm_wf name_eq hs \<and> (\<forall>(h, _) \<in> set hs. wf_name h)"

lemma hosts_key_inj:
  assumes "hosts_wf hs"
  shows "inj_on (\<lambda>(h, _). name_display (to_lowercase h)) (set hs)"
proof (rule inj_onI)
  fix p q assume p: "p \<in> set hs" and q: "q \<in> set hs"
    and eq: "(\<lambda>(h, _). name_display (to_lowercase h)) p = (\<lambda>(h, _). name_display (to_lowercase h)) q"
  obtain h a h' a' where pq: "p = (h, a)" "q = (h', a')" by (cases p; cases q)
  have "wf_name h" "wf_name h'" using assms p q pq by (auto simp: hosts_wf_def)
  then have same: "name_eq h h'"
    using eq pq name_display_inj [of "to_lowercase h" "to_lowercase h'"]
    by (simp add: name_eq_iff wf_name_lowercase)
  have "hm_wf name_eq hs" using assms by (simp add: hosts_wf_def)
  with p q pq same show "p = q"
  proof (induction hs)
    case (Cons r hs)
    then show ?case by (cases r) (auto simp: name_eq_iff)
  qed simp
qed

lemma hm_get_mset:
  assumes "mset hs = mset hs'" "hm_wf name_eq hs" "hm_wf name_eq hs'"
  shows "hm_get name_eq n hs = hm_get name_eq n hs'"
proof -
  have sub: "hm_get name_eq n b = Some v" if "hm_get name_eq n a = Some v" "set a = set b" "hm_wf name_eq b" for a b v
    using that names.get_in_set [of n a v] names.in_set_get [of b] names.get_cong by metis
  have "set hs = set hs'" using assms(1) by (rule mset_eq_setD)
  then show ?thesis
    using sub [of hs _ hs'] sub [of hs' _ hs] assms(2,3)
    by (cases "hm_get name_eq n hs"; cases "hm_get name_eq n hs'") auto
qed

lemma hm_wf_mset: "mset hs = mset hs' \<Longrightarrow> hm_wf name_eq hs \<Longrightarrow> hm_wf name_eq hs'"
proof -
  have wf: "hm_wf name_eq xs \<longleftrightarrow> sorted_wrt (\<lambda>p q. \<not> name_eq (fst p) (fst q)) xs" for xs :: "(name \<times> 'a) list"
    by (induction xs) (fastforce simp: case_prod_unfold)+
  have dis: "sorted_wrt (\<lambda>p q. \<not> name_eq (fst p) (fst q)) xs \<longleftrightarrow>
      distinct (map (\<lambda>p. to_lowercase (fst p)) xs)" for xs :: "(name \<times> 'a) list"
    by (induction xs) (auto simp: name_eq_iff)
  assume eq: "mset hs = mset hs'" and "hm_wf name_eq hs"
  then have "distinct (map (\<lambda>p. to_lowercase (fst p)) hs)" using wf dis by blast
  moreover have "mset (map (\<lambda>p. to_lowercase (fst p)) hs) = mset (map (\<lambda>p. to_lowercase (fst p)) hs')"
    using eq by simp
  ultimately have "distinct (map (\<lambda>p. to_lowercase (fst p)) hs')" by (metis mset_eq_imp_distinct_iff)
  then show "hm_wf name_eq hs'" using wf dis by blast
qed

lemma synthetic_hosts_order:
  assumes "hosts_wf (hosts e)" "mset hs = mset (hosts e)"
  shows "synthetic (e\<lparr>hosts := hs\<rparr>) n t = synthetic e n t"
proof -
  have wf: "hm_wf name_eq (hosts e)" "hm_wf name_eq hs"
    using assms hm_wf_mset [of "hosts e" hs] by (auto simp: hosts_wf_def)
  have get: "hm_get name_eq n hs = hm_get name_eq n (hosts e)"
    using assms(2) wf by (intro hm_get_mset) auto
  have min: "min_by_key (\<lambda>(h, _). name_display (to_lowercase h)) (filter P hs) =
      min_by_key (\<lambda>(h, _). name_display (to_lowercase h)) (filter P (hosts e))" for P
  proof (rule min_by_key_inj_mset)
    show "mset (filter P hs) = mset (filter P (hosts e))" using assms(2) by simp
    have "set hs = set (hosts e)" using assms(2) by (rule mset_eq_setD)
    then show "inj_on (\<lambda>(h, _). name_display (to_lowercase h)) (set (filter P hs))"
      using hosts_key_inj [OF assms(1)] by (auto intro: inj_on_subset)
  qed
  have own: "own_addresses (e\<lparr>hosts := hs\<rparr>) = own_addresses e" by (simp add: own_addresses_def)
  show ?thesis unfolding synthetic_def by (simp add: get min own cong: option.case_cong if_cong)
qed

end
