(* ===== verification/Answers.thy ===== *)
theory Answers
  imports Routing
begin

text \<open>
  What an upstream message contributes to an answer, and how the answers of a lookup are
  combined: the free functions of \<open>resolvd/src/engine.rs\<close>, lines 1216 to 1346.
\<close>

section \<open>Definitions\<close>

definition same_case :: "name \<Rightarrow> name \<Rightarrow> bool" where
  "same_case a b \<longleftrightarrow> labels a = labels b"

definition soa_ttl :: "rr \<Rightarrow> u32 option" where
  "soa_ttl r =
     (case r_data r of
        Soa mname rname serial refresh retry expire minimum \<Rightarrow> Some (min minimum (r_ttl r))
      | _ \<Rightarrow> None)"

text \<open>\<open>Iterator::find_map\<close>, \<open>Iterator::min\<close> on TTLs with a default.\<close>

fun find_map :: "('a \<Rightarrow> 'b option) \<Rightarrow> 'a list \<Rightarrow> 'b option" where
  "find_map f [] = None"
| "find_map f (x # xs) = (case f x of None \<Rightarrow> find_map f xs | Some y \<Rightarrow> Some y)"

definition unwrap_or :: "'a \<Rightarrow> 'a option \<Rightarrow> 'a" where
  "unwrap_or d r = (case r of None \<Rightarrow> d | Some x \<Rightarrow> x)"

definition min_ttl :: "rr list \<Rightarrow> u32 option" where
  "min_ttl rs = min_by_key (\<lambda>t. t) (map r_ttl rs)"

definition negative_ttl :: "rr list \<Rightarrow> name \<Rightarrow> u32" where
  "negative_ttl auth n =
     min (unwrap_or 0 (find_map soa_ttl
            (filter (\<lambda>r. r_class r = CLASS_IN \<and> ends_with n (r_name r)) auth)))
         MAX_NEGATIVE_TTL"

definition wanted :: "name \<Rightarrow> u16 \<Rightarrow> rr \<Rightarrow> bool" where
  "wanted n qtype r \<longleftrightarrow>
     r_class r = CLASS_IN \<and> name_eq (r_name r) n \<and> (r_type r = qtype \<or> qtype = RT_ANY)"

fun alias_target :: "name \<Rightarrow> nat \<times> rr \<Rightarrow> (nat \<times> name) option" where
  "alias_target n (i, r) =
     (if r_class r = CLASS_IN \<and> name_eq (r_name r) n then
        (case r_data r of Cname target \<Rightarrow> Some (i, target) | _ \<Rightarrow> None)
      else None)"

text \<open>
  The \<open>for depth in 0..=16\<close> loop; \<open>left\<close> is \<open>16 - depth\<close>.
\<close>

function relevant_loop ::
  "nat \<Rightarrow> rr list \<Rightarrow> u16 \<Rightarrow> name \<Rightarrow> name list \<Rightarrow> bool list \<Rightarrow> bool list \<times> name" where
  "relevant_loop left records qtype n seen keep =
     (let keep1 = map (\<lambda>(r, k). wanted n qtype r \<or> k) (zip records keep);
          terminal = list_ex (wanted n qtype) records
      in if terminal \<or> left = 0 \<or> list_ex (name_eq n) seen then (keep1, n)
         else case find_map (alias_target n) (enumerate 0 records) of
                None \<Rightarrow> (keep1, n)
              | Some (i, target) \<Rightarrow>
                  relevant_loop (left - 1) records qtype target (seen @ [n]) (keep1[i := True]))"
  by auto
termination
  by (relation "measure (\<lambda>(left, _). left)") auto

definition relevant_records :: "rr list \<Rightarrow> name \<Rightarrow> u16 \<Rightarrow> rr list \<times> name" where
  "relevant_records records candidate qtype =
     (let (keep, n) = relevant_loop 16 records qtype candidate [] (replicate (length records) False)
      in (map fst (filter snd (zip records keep)), n))"

definition cname_target :: "rr \<Rightarrow> name option" where
  "cname_target r = (case r_data r of Cname t \<Rightarrow> Some t | _ \<Rightarrow> None)"

primrec chase_loop :: "nat \<Rightarrow> rr list \<Rightarrow> name \<Rightarrow> u16 \<Rightarrow> name" where
  "chase_loop 0 records n rtype = n"
| "chase_loop (Suc k) records n rtype =
     (case Option.bind (find (\<lambda>r. name_eq (r_name r) n) records) cname_target of
        Some t \<Rightarrow>
          if \<not> list_ex (\<lambda>r. name_eq (r_name r) n \<and> r_type r = rtype) records
          then chase_loop k records t rtype else n
      | None \<Rightarrow> n)"

definition record_address :: "u16 \<Rightarrow> rr \<Rightarrow> (ip_addr \<times> u32) option" where
  "record_address rtype r =
     (case r_data r of
        A a \<Rightarrow> if rtype = RT_A then Some (V4 a, r_ttl r) else None
      | Aaaa a \<Rightarrow> if rtype = RT_AAAA then Some (V6 a, r_ttl r) else None
      | _ \<Rightarrow> None)"

definition chase :: "rr list \<Rightarrow> name \<Rightarrow> u16 \<Rightarrow> name \<times> (ip_addr \<times> u32) list" where
  "chase records start rtype =
     (let n = chase_loop 16 records start rtype
      in (n, List.map_filter (record_address rtype) (filter (\<lambda>r. name_eq (r_name r) n) records)))"

text \<open>The locals of \<open>combine\<close>: the result under construction and the three flags.\<close>

record combining =
  co_out :: addresses
  co_found :: bool
  co_unavailable :: bool
  co_rank :: "(bool \<times> u16) option"

definition combine_step :: "name \<Rightarrow> u16 \<times> answer \<Rightarrow> combining \<Rightarrow> combining" where
  "combine_step lname = (\<lambda>(rtype, answer) c.
     (case a_outcome answer of
        Found \<Rightarrow>
          let start = unwrap_or lname (a_resolved_name answer);
              (canonical, addrs) = chase (a_records answer) start rtype;
              rank = (addrs = [], rtype);
              take_it = (case co_rank c of None \<Rightarrow> True | Some best \<Rightarrow> rank < best);
              out = (if take_it then (co_out c)\<lparr>ad_canonical := canonical, ad_source := a_source answer\<rparr>
                     else co_out c)
          in c\<lparr>co_found := True,
                co_rank := (if take_it then Some rank else co_rank c),
                co_out := out\<lparr>ad_addresses := ad_addresses out @ addrs\<rparr>\<rparr>
      | Unavailable \<Rightarrow> c\<lparr>co_unavailable := True\<rparr>
      | NotFound \<Rightarrow> c))"

definition combine :: "lookup \<Rightarrow> addresses" where
  "combine l =
     (let c = fold (combine_step (l_name l)) (l_results l)
            \<lparr>co_out = default_addresses\<lparr>ad_canonical := l_name l\<rparr>, co_found = False,
             co_unavailable = False, co_rank = None\<rparr>
      in (co_out c)\<lparr>ad_outcome :=
            (if co_found c then Found else if co_unavailable c then Unavailable else NotFound)\<rparr>)"

section \<open>Properties\<close>

lemma negative_ttl_le: "negative_ttl auth n \<le> 300"
  by (simp add: negative_ttl_def MAX_NEGATIVE_TTL_def)

lemma find_map_Some: "find_map f xs = Some y \<Longrightarrow> \<exists>x \<in> set xs. f x = Some y"
  by (induction xs) (auto split: option.splits)

lemma find_map_eq_None: "find_map f xs = None \<longleftrightarrow> (\<forall>x \<in> set xs. f x = None)"
  by (induction xs) (auto split: option.splits)

lemma min_ttl_Some: "min_ttl rs = Some t \<Longrightarrow> \<forall>r \<in> set rs. t \<le> r_ttl r"
  using min_by_key_Some [of "\<lambda>t. t" "map r_ttl rs" t] by (auto simp: min_ttl_def)

text \<open>A positive negative-answer lifetime comes from the SOA of an enclosing zone.\<close>

lemma negative_ttl_pos:
  assumes "negative_ttl auth n \<noteq> 0"
  obtains r where "r \<in> set auth" "r_class r = CLASS_IN" "ends_with n (r_name r)"
    "\<exists>m rn s rf rt ex minimum. r_data r = Soa m rn s rf rt ex minimum \<and>
       negative_ttl auth n \<le> minimum" "negative_ttl auth n \<le> r_ttl r"
proof -
  let ?f = "filter (\<lambda>r. r_class r = CLASS_IN \<and> ends_with n (r_name r)) auth"
  obtain t where t: "find_map soa_ttl ?f = Some t"
    using assms unfolding negative_ttl_def unwrap_or_def
    by (cases "find_map soa_ttl ?f") simp_all
  then obtain r where r: "r \<in> set ?f" "soa_ttl r = Some t" using find_map_Some [OF t] by blast
  have le: "negative_ttl auth n \<le> t"
    unfolding negative_ttl_def t unwrap_or_def option.case by (rule min.cobounded1)
  obtain m rn s rf rt ex minimum where soa: "r_data r = Soa m rn s rf rt ex minimum" "t = min minimum (r_ttl r)"
    using r(2) by (cases "r_data r") (simp_all add: soa_ttl_def)
  have "negative_ttl auth n \<le> minimum" "negative_ttl auth n \<le> r_ttl r"
    using le unfolding soa(2) min.bounded_iff by auto
  then show thesis using r(1) soa(1) by (intro that [of r]) auto
qed

subsection \<open>The records kept from an upstream answer\<close>

text \<open>
  \<open>aliased rs a b\<close>: following \<open>CNAME\<close> records of class IN among \<open>rs\<close> leads from \<open>a\<close> to \<open>b\<close>.
\<close>

inductive aliased :: "rr list \<Rightarrow> name \<Rightarrow> name \<Rightarrow> bool" for rs a where
  aliased_refl: "aliased rs a a"
| aliased_step:
    "aliased rs a b \<Longrightarrow> r \<in> set rs \<Longrightarrow> r_class r = CLASS_IN \<Longrightarrow> name_eq (r_name r) b \<Longrightarrow>
     r_data r = Cname t \<Longrightarrow> aliased rs a t"

definition on_path :: "rr list \<Rightarrow> name \<Rightarrow> rr \<Rightarrow> bool" where
  "on_path rs a r \<longleftrightarrow>
     r_class r = CLASS_IN \<and> (\<exists>b. aliased rs a b \<and> name_eq (r_name r) b) \<and>
     (\<exists>t. r_data r = Cname t \<and> aliased rs a t)"

lemma alias_target_Some:
  assumes "find_map (alias_target n) (enumerate 0 records) = Some (i, target)"
  shows "i < length records" "r_class (records ! i) = CLASS_IN" "name_eq (r_name (records ! i)) n"
    "r_data (records ! i) = Cname target"
proof -
  obtain p where p: "p \<in> set (enumerate 0 records)" "alias_target n p = Some (i, target)"
    using find_map_Some [OF assms] by blast
  obtain j r where "p = (j, r)" by (cases p)
  with p show "i < length records" "r_class (records ! i) = CLASS_IN" "name_eq (r_name (records ! i)) n"
    "r_data (records ! i) = Cname target"
    by (auto simp: in_set_enumerate_eq split: if_splits rdata.splits)
qed

declare relevant_loop.simps [simp del]

lemma relevant_loop_sound:
  assumes "relevant_loop left records qtype n seen keep = (keep', n')"
    and "length keep = length records" "aliased records a n"
    and "\<forall>i < length records. keep ! i \<longrightarrow> on_path records a (records ! i)"
  shows "length keep' = length records \<and> aliased records a n' \<and>
    (\<forall>i < length records. keep' ! i \<longrightarrow> wanted n' qtype (records ! i) \<or> on_path records a (records ! i)) \<and>
    (\<forall>i < length records. wanted n' qtype (records ! i) \<longrightarrow> keep' ! i)"
  using assms
proof (induction left records qtype n seen keep rule: relevant_loop.induct)
  case (1 left records qtype n seen keep)
  define keep1 where "keep1 = map (\<lambda>(r, k). wanted n qtype r \<or> k) (zip records keep)"
  have len: "length keep1 = length records" using "1.prems" by (simp add: keep1_def)
  have nth: "keep1 ! i \<longleftrightarrow> wanted n qtype (records ! i) \<or> keep ! i" if "i < length records" for i
    using that "1.prems" by (simp add: keep1_def)
  show ?case
  proof (cases "list_ex (wanted n qtype) records \<or> left = 0 \<or> list_ex (name_eq n) seen \<or>
      find_map (alias_target n) (enumerate 0 records) = None")
    case True
    then have "keep' = keep1" "n' = n"
      using "1.prems"(1) by (auto simp: relevant_loop.simps [of left] Let_def keep1_def split: if_splits)
    then show ?thesis using len nth "1.prems" by auto
  next
    case False
    then obtain i target where t: "find_map (alias_target n) (enumerate 0 records) = Some (i, target)"
      by auto
    note facts = alias_target_Some [OF t]
    have none: "\<not> wanted n qtype (records ! j)" if "j < length records" for j
      using False that by (auto simp: list_ex_iff)
    have target: "aliased records a target"
      using aliased_step [OF "1.prems"(3) nth_mem [OF facts(1)] facts(2-4)] .
    have path: "on_path records a (records ! i)"
      using facts target "1.prems"(3) by (auto simp: on_path_def)
    have rec: "relevant_loop (left - 1) records qtype target (seen @ [n]) (keep1[i := True]) = (keep', n')"
      using False t "1.prems"(1) by (simp add: relevant_loop.simps [of left] Let_def keep1_def)
    have inv: "\<forall>j < length records. keep1[i := True] ! j \<longrightarrow> on_path records a (records ! j)"
      using nth none path "1.prems"(4) len facts(1) by (simp add: nth_list_update)
    show ?thesis
      using "1.IH" [OF keep1_def refl _ t refl] False rec len target inv by auto
  qed
qed

lemma relevant_records_sound:
  assumes "relevant_records records candidate qtype = (rs, eff)"
  shows "subseq rs records" "aliased records candidate eff"
    "r \<in> set rs \<Longrightarrow> wanted eff qtype r \<or> on_path records candidate r"
    "filter (wanted eff qtype) rs = filter (wanted eff qtype) records"
proof -
  obtain keep where loop: "relevant_loop 16 records qtype candidate [] (replicate (length records) False) = (keep, eff)"
    and rs: "rs = map fst (filter snd (zip records keep))"
    using assms by (auto simp: relevant_records_def split: prod.splits)
  note sound = relevant_loop_sound [OF loop, of candidate, simplified, OF aliased_refl]
  have len: "length keep = length records" using sound by blast
  have "subseq (map fst (filter snd (zip records keep))) (map fst (zip records keep))"
    by (intro subseq_map subseq_filter_left)
  then show "subseq rs records" using rs len by simp
  show "aliased records candidate eff" using sound by blast
  show "wanted eff qtype r \<or> on_path records candidate r" if mem: "r \<in> set rs"
  proof -
    obtain i where "i < length records" "keep ! i" "records ! i = r"
      using mem rs len by (auto simp: in_set_zip)
    then show ?thesis using sound by blast
  qed
  have "\<forall>(r, k) \<in> set (zip records keep). wanted eff qtype r \<longrightarrow> k"
    using sound by (auto simp: in_set_zip)
  then have "filter (wanted eff qtype) (map fst (filter snd ps)) = filter (wanted eff qtype) (map fst ps)"
    if "set ps \<subseteq> set (zip records keep)" for ps
    using that by (induction ps) auto
  from this [OF subset_refl] show "filter (wanted eff qtype) rs = filter (wanted eff qtype) records"
    using rs len by simp
qed

subsection \<open>Combining the answers of a lookup\<close>

definition chased :: "name \<Rightarrow> u16 \<times> answer \<Rightarrow> name \<times> (ip_addr \<times> u32) list" where
  "chased lname = (\<lambda>(rtype, a). chase (a_records a) (unwrap_or lname (a_resolved_name a)) rtype)"

definition metadata_rank :: "name \<Rightarrow> u16 \<times> answer \<Rightarrow> bool \<times> u16" where
  "metadata_rank lname p = (snd (chased lname p) = [], fst p)"

definition found_results :: "lookup \<Rightarrow> (u16 \<times> answer) list" where
  "found_results l = filter (\<lambda>p. a_outcome (snd p) = Found) (l_results l)"

definition best_result :: "lookup \<Rightarrow> (u16 \<times> answer) option" where
  "best_result l = min_by_key (metadata_rank (l_name l)) (found_results l)"

text \<open>
  The loop with its running rank, in closed form: addresses in arrival order, the metadata of
  the best-ranked answer, and the outcome by priority.
\<close>

lemma combine_closed:
  "combine l =
     \<lparr>ad_outcome =
        (if \<exists>p \<in> set (l_results l). a_outcome (snd p) = Found then Found
         else if \<exists>p \<in> set (l_results l). a_outcome (snd p) = Unavailable then Unavailable
         else NotFound),
      ad_canonical = (case best_result l of None \<Rightarrow> l_name l | Some p \<Rightarrow> fst (chased (l_name l) p)),
      ad_addresses = concat (map (\<lambda>p. snd (chased (l_name l) p)) (found_results l)),
      ad_source = (case best_result l of None \<Rightarrow> Local | Some p \<Rightarrow> a_source (snd p))\<rparr>"
proof -
  define start where "start = \<lparr>co_out = default_addresses\<lparr>ad_canonical := l_name l\<rparr>, co_found = False,
    co_unavailable = False, co_rank = None\<rparr>"
  define found where "found = filter (\<lambda>p :: u16 \<times> answer. a_outcome (snd p) = Found)"
  define pick where "pick ps = min_by_key (metadata_rank (l_name l)) (found ps)" for ps
  have "fold (combine_step (l_name l)) ps start =
      \<lparr>co_out = \<lparr>ad_outcome = Unavailable,
         ad_canonical = (case pick ps of None \<Rightarrow> l_name l | Some p \<Rightarrow> fst (chased (l_name l) p)),
         ad_addresses = concat (map (\<lambda>p. snd (chased (l_name l) p)) (found ps)),
         ad_source = (case pick ps of None \<Rightarrow> Local | Some p \<Rightarrow> a_source (snd p))\<rparr>,
       co_found = (\<exists>p \<in> set ps. a_outcome (snd p) = Found),
       co_unavailable = (\<exists>p \<in> set ps. a_outcome (snd p) = Unavailable),
       co_rank = map_option (metadata_rank (l_name l)) (pick ps)\<rparr>" for ps
  proof (induction ps rule: rev_induct)
    case Nil
    then show ?case by (simp add: start_def default_addresses_def pick_def found_def)
  next
    case (snoc p ps)
    obtain rtype a where p: "p = (rtype, a)" by (cases p)
    obtain canon addrs where ch: "chase (a_records a) (unwrap_or (l_name l) (a_resolved_name a)) rtype = (canon, addrs)"
      by (cases "chase (a_records a) (unwrap_or (l_name l) (a_resolved_name a)) rtype")
    then have ch': "chased (l_name l) (rtype, a) = (canon, addrs)" by (simp add: chased_def)
    have rank: "metadata_rank (l_name l) (rtype, a) = (addrs = [], rtype)" by (simp add: metadata_rank_def ch')
    show ?case
    proof (cases "a_outcome a = Found")
      case True
      then have "found (ps @ [p]) = found ps @ [(rtype, a)]" by (simp add: found_def p)
      then have pk: "pick (ps @ [p]) = (case pick ps of None \<Rightarrow> Some (rtype, a)
          | Some y \<Rightarrow> if metadata_rank (l_name l) (rtype, a) < metadata_rank (l_name l) y
              then Some (rtype, a) else Some y)"
        by (simp add: pick_def min_by_key_snoc)
      have step: "combine_step (l_name l) (rtype, a) c =
          (let better = (case co_rank c of None \<Rightarrow> True | Some best \<Rightarrow> (addrs = [], rtype) < best)
           in c\<lparr>co_found := True, co_rank := (if better then Some (addrs = [], rtype) else co_rank c),
                co_out := (if better then (co_out c)\<lparr>ad_canonical := canon, ad_source := a_source a,
                    ad_addresses := ad_addresses (co_out c) @ addrs\<rparr>
                  else (co_out c)\<lparr>ad_addresses := ad_addresses (co_out c) @ addrs\<rparr>)\<rparr>)" for c
        using True by (simp add: combine_step_def ch Let_def)
      show ?thesis
      proof (cases "pick ps")
        case None
        then show ?thesis using True by (simp add: snoc.IH p step pk [unfolded p] rank ch' found_def)
      next
        case (Some y)
        then show ?thesis using True by (simp add: snoc.IH p step pk [unfolded p] rank ch' found_def)
      qed
    next
      case False
      then have "found (ps @ [p]) = found ps" by (simp add: found_def p)
      then have "pick (ps @ [(rtype, a)]) = pick ps" by (simp add: pick_def p)
      moreover have "combine_step (l_name l) (rtype, a) c =
          (if a_outcome a = Unavailable then c\<lparr>co_unavailable := True\<rparr> else c)" for c
        using False by (cases "a_outcome a") (simp_all add: combine_step_def)
      ultimately show ?thesis using False \<open>found (ps @ [p]) = found ps\<close>
        by (simp add: snoc.IH p)
    qed
  qed
  from this [of "l_results l"] show ?thesis
    by (simp add: combine_def start_def [symmetric] pick_def found_def best_result_def found_results_def)
qed

text \<open>Which family answered first decides only the order of the addresses.\<close>

lemma combine_order:
  assumes "mset (l_results l) = mset (l_results l')" "l_name l = l_name l'"
    and "distinct (map fst (l_results l))"
  shows "ad_outcome (combine l) = ad_outcome (combine l')"
    "ad_canonical (combine l) = ad_canonical (combine l')"
    "ad_source (combine l) = ad_source (combine l')"
    "mset (ad_addresses (combine l)) = mset (ad_addresses (combine l'))"
proof -
  have sets: "set (l_results l) = set (l_results l')" using assms(1) by (rule mset_eq_setD)
  have found: "mset (found_results l) = mset (found_results l')"
    using assms(1) by (simp add: found_results_def)
  have "inj_on fst (set (l_results l))" using assms(3) by (simp add: distinct_map)
  then have "inj_on (metadata_rank (l_name l)) (set (found_results l))"
    by (auto simp: inj_on_def metadata_rank_def found_results_def)
  then have best: "best_result l = best_result l'"
    using min_by_key_inj_mset [OF found] by (simp add: best_result_def assms(2))
  have cat: "mset (concat (map f xs)) = (\<Sum>x \<in># mset xs. mset (f x))" for f :: "u16 \<times> answer \<Rightarrow> (ip_addr \<times> u32) list" and xs
    by (induction xs) auto
  show "mset (ad_addresses (combine l)) = mset (ad_addresses (combine l'))"
    by (simp add: combine_closed assms(2) cat found)
  show "ad_outcome (combine l) = ad_outcome (combine l')"
    by (simp add: combine_closed sets)
  show "ad_canonical (combine l) = ad_canonical (combine l')"
    "ad_source (combine l) = ad_source (combine l')"
    by (simp_all add: combine_closed best assms(2) cong: option.case_cong)
qed

end
