(* ===== verification/Engine.thy ===== *)
theory Engine
  imports Answers
begin

text \<open>
  The operations of the resolution engine: \<open>resolvd/src/engine.rs\<close>, lines 320 to 1005. Every
  operation takes the engine and returns the new engine with the list of actions; \<open>None\<close> is a
  panic (an index out of range, or \<open>expect\<close> on an error). \<open>now + d\<close> on instants does not
  overflow, and \<open>next_id\<close> stays below \<open>2 ^ 64\<close>.
\<close>

type_synonym result = "(engine \<times> action list) option"

section \<open>Configuration\<close>

definition invalidate_scope_cache :: "string \<Rightarrow> engine \<Rightarrow> engine" where
  "invalidate_scope_cache sid e =
     e\<lparr>answers_cache := flush_scope sid (answers_cache e),
       tasks := map (\<lambda>(i, t). (i, if t_scope t = Some sid then t\<lparr>t_cache_invalidated := True\<rparr> else t))
                  (tasks e)\<rparr>"

definition set_scopes :: "scope list \<Rightarrow> engine \<Rightarrow> engine" where
  "set_scopes ss e =
     (let changed = filter (\<lambda>new. case find (\<lambda>s. sc_id s = sc_id new) (scopes e) of
                                None \<Rightarrow> True | Some o1 \<Rightarrow> sc_servers o1 \<noteq> sc_servers new) ss;
          removed = filter (\<lambda>o1. \<not> list_ex (\<lambda>s. sc_id s = sc_id o1) ss) (scopes e);
          invalidated = map sc_id changed @ map sc_id removed
      in (fold invalidate_scope_cache invalidated e)\<lparr>scopes := ss\<rparr>)"

definition set_fallback :: "ip_addr list \<Rightarrow> name list \<Rightarrow> engine \<Rightarrow> engine" where
  "set_fallback servers domains e =
     (let e1 = (if servers \<noteq> fallback_servers e then invalidate_scope_cache FALLBACK_SCOPE e else e)
      in e1\<lparr>fallback_servers := servers, fallback_domains := domains\<rparr>)"

definition set_hostname :: "bytes option \<Rightarrow> engine \<Rightarrow> engine" where
  "set_hostname h e =
     e\<lparr>hostname :=
        (case Option.bind h (\<lambda>h. ok (parse h)) of
           None \<Rightarrow> None
         | Some n \<Rightarrow> if \<not> is_root n then Some n else None)\<rparr>"

definition set_hosts :: "(name \<times> ip_addr list) list \<Rightarrow> engine \<Rightarrow> engine" where
  "set_hosts hs e = e\<lparr>hosts := hs\<rparr>"

definition flush :: "engine \<Rightarrow> engine" where
  "flush e =
     e\<lparr>answers_cache := cache_clear (answers_cache e),
       tasks := map (\<lambda>(i, t). (i, t\<lparr>t_cache_invalidated := True\<rparr>)) (tasks e)\<rparr>"

definition cache_entries :: "engine \<Rightarrow> nat" where
  "cache_entries e = cache_len (answers_cache e)"

definition demoted_servers :: "engine \<Rightarrow> instant \<Rightarrow> ip_addr list" where
  "demoted_servers e now = map (\<lambda>((s, _), _). s) (filter (\<lambda>(_, until). until > now) (demoted e))"

definition next_deadline :: "engine \<Rightarrow> instant option" where
  "next_deadline e = min_by_key (\<lambda>d. d) (map (\<lambda>(_, t). x_deadline t) (txs e))"

definition in_flight :: "engine \<Rightarrow> nat" where
  "in_flight e = length (txs e)"

section \<open>Finishing a task\<close>

definition fresh_id :: "engine \<Rightarrow> nat \<times> engine" where
  "fresh_id e = (next_id e, e\<lparr>next_id := next_id e + 1\<rparr>)"

definition unavailable :: "string option \<Rightarrow> answer" where
  "unavailable iface = default_answer\<lparr>a_outcome := Unavailable, a_interface := iface\<rparr>"

definition not_found :: answer where
  "not_found = default_answer\<lparr>a_outcome := NotFound\<rparr>"

definition settle :: "task_id \<Rightarrow> answer \<Rightarrow> engine \<Rightarrow> engine \<times> action list" where
  "settle i ans e =
     (case get_task e i of
        None \<Rightarrow> (e, [])
      | Some task \<Rightarrow>
          let e1 = e\<lparr>tasks := hm_remove (=) i (tasks e)\<rparr>;
              e2 = (case t_tx task of None \<Rightarrow> e1 | Some x \<Rightarrow> e1\<lparr>txs := hm_remove (=) x (txs e1)\<rparr>)
          in case t_owner task of
               OResolve q \<Rightarrow> (e2, [Done q (CAnswer ans)])
             | OLookup q \<Rightarrow>
                 (case get_lookup e2 q of
                    None \<Rightarrow> (e2, [])
                  | Some l \<Rightarrow>
                      let l1 = l\<lparr>l_pending := filter (\<lambda>t. t \<noteq> i) (l_pending l),
                                 l_results := l_results l @ [(t_type task, ans)]\<rparr>
                      in if l_pending l1 \<noteq> [] then (e2\<lparr>lookups := hm_insert (=) q l1 (lookups e2)\<rparr>, [])
                         else (e2\<lparr>lookups := hm_remove (=) q (lookups e2)\<rparr>,
                               [Done q (CAddresses (combine l1))])))"

section \<open>Sending\<close>

text \<open>\<open>(self.entropy)(&mut random)\<close> on the 34-byte buffer.\<close>

definition draw :: "engine \<Rightarrow> bytes option \<times> engine" where
  "draw e = (map_option (\<lambda>bs. take 34 (bs @ replicate 34 0)) (entropy e (draws e)),
             e\<lparr>draws := draws e + 1\<rparr>)"

definition case_bits :: "bytes \<Rightarrow> nat \<Rightarrow> bool option" where
  "case_bits random n = map_option (\<lambda>b. b AND push_bit (n mod 8) 1 \<noteq> 0) (get_at random (2 + n div 8))"

definition from_le16 :: "u8 \<Rightarrow> u8 \<Rightarrow> u16" where
  "from_le16 lo hi = ucast lo OR push_bit 8 (ucast hi)"

definition current_name :: "task \<Rightarrow> name" where
  "current_name t = unwrap_or (t_original t) (t_current t)"

definition scope_of :: "task \<Rightarrow> string" where
  "scope_of t = unwrap_or '''' (t_scope t)"

text \<open>The end of \<open>send\<close>: the transaction is recorded and the query handed to the transport.\<close>

definition transmit ::
  "task_id \<Rightarrow> ip_addr \<Rightarrow> bool \<Rightarrow> instant \<Rightarrow> string option \<Rightarrow> u16 \<Rightarrow> question \<Rightarrow> bytes \<Rightarrow> engine \<Rightarrow> engine \<times> action list"
where
  "transmit i server tcp now iface dns_id q payload e =
     (let (x, e1) = fresh_id e;
          e2 = e1\<lparr>txs := hm_insert (=) x
                 \<lparr>x_task = i, x_dns_id = dns_id, x_question = q, x_server = server, x_tcp = tcp,
                  x_deadline = now + SERVER_TIMEOUT\<rparr> (txs e1)\<rparr>;
          e3 = update_task i (\<lambda>t. t\<lparr>t_attempt := t_attempt t + 1, t_tx := Some x\<rparr>) e2;
          e4 = bump (\<lambda>c. c\<lparr>c_upstream_sent := c_upstream_sent c + 1\<rparr>) e3
      in (e4, [Send x server iface tcp payload]))"

definition refuse :: "task_id \<Rightarrow> engine \<Rightarrow> engine \<times> action list" where
  "refuse i e = settle i (unavailable None) (bump (\<lambda>c. c\<lparr>c_refused := c_refused c + 1\<rparr>) e)"

definition send :: "task_id \<Rightarrow> ip_addr \<Rightarrow> bool \<Rightarrow> instant \<Rightarrow> engine \<Rightarrow> result" where
  "send i server tcp now e =
     (case get_task e i of
        None \<Rightarrow> Some (e, [])
      | Some task \<Rightarrow>
          if t_attempt task \<ge> MAX_ATTEMPTS then
            Some (settle i (unavailable (interface_of e (scope_of task))) e)
          else if length (txs e) \<ge> MAX_IN_FLIGHT then Some (refuse i e)
          else
            let candidate = current_name task;
                iface = Option.bind (t_scope task) (interface_of e);
                (drawn, e1) = draw e
            in case drawn of
                 None \<Rightarrow> Some (refuse i e1)
               | Some random \<Rightarrow>
                   (case randomise_case candidate (case_bits random) of
                      None \<Rightarrow> None
                    | Some n \<Rightarrow>
                        let dns_id = from_le16 (random ! 0) (random ! 1);
                            q = question_new n (t_type task)
                        in case encode (message_query dns_id q) of
                             Inl _ \<Rightarrow> None
                           | Inr payload \<Rightarrow> Some (transmit i server tcp now iface dns_id q payload e1)))"

definition choose_server :: "task \<Rightarrow> ip_addr list \<Rightarrow> ip_addr" where
  "choose_server task servers =
     unwrap_or (servers ! (length (t_tried task) mod length servers))
       (find (\<lambda>s. s \<notin> set (t_tried task)) servers)"

definition next_attempt :: "task_id \<Rightarrow> instant \<Rightarrow> engine \<Rightarrow> result" where
  "next_attempt i now e =
     (case get_task e i of
        None \<Rightarrow> Some (e, [])
      | Some task \<Rightarrow>
          if t_attempt task \<ge> MAX_ATTEMPTS then
            Some (settle i (unavailable (interface_of e (scope_of task))) e)
          else
            let servers = servers_of e (scope_of task) now in
            if servers = [] then Some (settle i (unavailable None) e)
            else
              let server = choose_server task servers in
              send i server False now (update_task i (\<lambda>t. t\<lparr>t_tried := t_tried t @ [server]\<rparr>) e))"

section \<open>Search candidates\<close>

definition consult_cache :: "task \<Rightarrow> name \<Rightarrow> string \<Rightarrow> instant \<Rightarrow> engine \<Rightarrow> entry option \<times> engine" where
  "consult_cache task candidate sid now e =
     (if \<not> t_no_cache task then
        (let (r, c) = cache_get (cache_key_new candidate (t_type task) sid) now (answers_cache e)
         in (r, e\<lparr>answers_cache := c\<rparr>))
      else (None, e))"

definition cached_answer :: "entry \<Rightarrow> string option \<Rightarrow> name \<Rightarrow> instant \<Rightarrow> answer" where
  "cached_answer en iface candidate now =
     \<lparr>a_outcome = e_outcome en, a_records = e_records en, a_source = FromCache,
      a_server = Some (e_server en), a_interface = iface, a_rcode = e_rcode en,
      a_resolved_name = Some candidate,
      a_negative_ttl = (if e_records en = [] then word_of_nat (as_secs (e_expires en - now)) else 0)\<rparr>"

definition take_candidate :: "name \<Rightarrow> name list \<Rightarrow> task \<Rightarrow> task" where
  "take_candidate candidate rest t =
     t\<lparr>t_candidates := rest, t_current := Some candidate, t_tried := []\<rparr>"

function next_candidate :: "task_id \<Rightarrow> instant \<Rightarrow> engine \<Rightarrow> result" where
  "next_candidate i now e =
     (case get_task e i of
        None \<Rightarrow> Some (e, [])
      | Some task \<Rightarrow>
     (case t_candidates task of
        [] \<Rightarrow> Some (settle i not_found e)
      | candidate # rest \<Rightarrow>
          let e1 = update_task i (take_candidate candidate rest) e in
     (case route e1 candidate of
        None \<Rightarrow> Some (settle i (unavailable None) e1)
      | Some sid \<Rightarrow>
          let e2 = update_task i (\<lambda>t. t\<lparr>t_scope := Some sid\<rparr>) e1 in
     (case consult_cache task candidate sid now e2 of
        (None, e3) \<Rightarrow> next_attempt i now e3
      | (Some en, e3) \<Rightarrow>
          let e4 = bump (\<lambda>c. c\<lparr>c_cache_hits := c_cache_hits c + 1\<rparr>) e3 in
          if e_outcome en = NotFound \<and> rest \<noteq> [] then next_candidate i now e4
          else Some (settle i (cached_answer en (interface_of e4 sid) candidate now) e4)))))"
  by auto

definition candidates_left :: "engine \<Rightarrow> task_id \<Rightarrow> nat" where
  "candidates_left e i = (case get_task e i of None \<Rightarrow> 0 | Some t \<Rightarrow> length (t_candidates t))"

lemma get_task_consult [simp]: "get_task (snd (consult_cache task n sid now e)) j = get_task e j"
  by (simp add: consult_cache_def split: prod.splits)

lemma get_task_bump [simp]: "get_task (bump f e) j = get_task e j"
  by (simp add: bump_def)

lemma candidates_left_dec:
  assumes "get_task e i = Some task" "t_candidates task = c # rest"
    and "consult_cache task c sid now
      (update_task i (\<lambda>t. t\<lparr>t_scope := Some sid\<rparr>) (update_task i (take_candidate c rest) e)) = (r, e3)"
  shows "candidates_left (bump f e3) i < candidates_left e i"
proof -
  have "get_task e3 i =
      get_task (update_task i (\<lambda>t. t\<lparr>t_scope := Some sid\<rparr>) (update_task i (take_candidate c rest) e)) i"
    using arg_cong [OF assms(3), of snd] by (metis get_task_consult snd_conv)
  then show ?thesis using assms(1,2) by (simp add: candidates_left_def get_update_task take_candidate_def)
qed

termination next_candidate
  by (relation "measure (\<lambda>(i, now, e). candidates_left e i)") (auto intro: candidates_left_dec [OF _ _ sym])

declare next_candidate.simps [simp del]

section \<open>Questions\<close>

definition new_task :: "owner \<Rightarrow> name \<Rightarrow> u16 \<Rightarrow> bool \<Rightarrow> task" where
  "new_task ow n rtype no_cache =
     \<lparr>t_owner = ow, t_original = n, t_type = rtype, t_no_cache = no_cache, t_cache_invalidated = False,
      t_candidates = [], t_current = None, t_scope = None, t_attempt = 0, t_tried = [], t_tx = None\<rparr>"

definition start_task :: "owner \<Rightarrow> name \<Rightarrow> u16 \<Rightarrow> bool \<Rightarrow> engine \<Rightarrow> task_id \<times> engine" where
  "start_task ow n rtype no_cache e =
     (let (i, e1) = fresh_id e
      in (i, e1\<lparr>tasks := hm_insert (=) i (new_task ow n rtype no_cache) (tasks e1)\<rparr>))"

definition advance :: "task_id \<Rightarrow> instant \<Rightarrow> engine \<Rightarrow> result" where
  "advance i now e =
     (case get_task e i of
        None \<Rightarrow> Some (e, [])
      | Some task \<Rightarrow>
          if t_current task = None \<and> t_candidates task = [] \<and> t_attempt task = 0 then
            (case synthetic e (t_original task) (t_type task) of
               Some ans \<Rightarrow> Some (settle i ans (bump (\<lambda>c. c\<lparr>c_synthetic := c_synthetic c + 1\<rparr>) e))
             | None \<Rightarrow>
                 let cs = candidates e (t_original task) in
                 if cs = [] then Some (settle i not_found e)
                 else next_candidate i now (update_task i (\<lambda>t. t\<lparr>t_candidates := cs\<rparr>) e))
          else next_candidate i now e)"

definition count_query :: "engine \<Rightarrow> engine" where
  "count_query = bump (\<lambda>c. c\<lparr>c_queries := c_queries c + 1\<rparr>)"

definition resolve_name :: "qid \<Rightarrow> name \<Rightarrow> u16 \<Rightarrow> bool \<Rightarrow> instant \<Rightarrow> engine \<Rightarrow> result" where
  "resolve_name q n rtype no_cache now e =
     (let (i, e1) = start_task (OResolve q) n rtype no_cache e in advance i now e1)"

definition resolve :: "qid \<Rightarrow> bytes \<Rightarrow> u16 \<Rightarrow> bool \<Rightarrow> instant \<Rightarrow> engine \<Rightarrow> result" where
  "resolve q s rtype no_cache now e =
     (case ok (parse s) of
        None \<Rightarrow> Some (count_query e, [Done q (CAnswer not_found)])
      | Some n \<Rightarrow> resolve_name q n rtype no_cache now (count_query e))"

definition resolve_question :: "qid \<Rightarrow> question \<Rightarrow> instant \<Rightarrow> engine \<Rightarrow> result" where
  "resolve_question q qu now e = resolve_name q (q_name qu) (q_type qu) False now (count_query e)"

fun family_types :: "family \<Rightarrow> u16 list" where
  "family_types Any = [RT_A, RT_AAAA]"
| "family_types FamV4 = [RT_A]"
| "family_types FamV6 = [RT_AAAA]"

fun start_tasks :: "qid \<Rightarrow> name \<Rightarrow> u16 list \<Rightarrow> engine \<Rightarrow> task_id list \<times> engine" where
  "start_tasks q n [] e = ([], e)"
| "start_tasks q n (t # ts) e =
     (let (i, e1) = start_task (OLookup q) n t False e;
          (pending, e2) = start_tasks q n ts e1
      in (i # pending, e2))"

text \<open>Run an operation for each element, concatenating the actions; a panic stops it.\<close>

fun run_each :: "('a \<Rightarrow> engine \<Rightarrow> result) \<Rightarrow> 'a list \<Rightarrow> engine \<Rightarrow> result" where
  "run_each f [] e = Some (e, [])"
| "run_each f (x # xs) e =
     (case f x e of
        None \<Rightarrow> None
      | Some (e1, acts) \<Rightarrow> map_option (\<lambda>(e2, acts'). (e2, acts @ acts')) (run_each f xs e1))"

definition lookup_addresses :: "qid \<Rightarrow> bytes \<Rightarrow> family \<Rightarrow> instant \<Rightarrow> engine \<Rightarrow> result" where
  "lookup_addresses q s fam now e =
     (let e0 = count_query e in
      case ok (parse s) of
        None \<Rightarrow> Some (e0, [Done q (CAddresses (default_addresses\<lparr>ad_outcome := NotFound\<rparr>))])
      | Some n \<Rightarrow>
          let (pending, e1) = start_tasks q n (family_types fam) e0;
              e2 = e1\<lparr>lookups := hm_insert (=) q \<lparr>l_name = n, l_pending = pending, l_results = []\<rparr> (lookups e1)\<rparr>
          in run_each (\<lambda>i. advance i now) pending e2)"

definition reverse :: "qid \<Rightarrow> ip_addr \<Rightarrow> instant \<Rightarrow> engine \<Rightarrow> result" where
  "reverse q addr now e =
     (case (case addr of V4 a \<Rightarrow> reverse_v4 a | V6 a \<Rightarrow> reverse_v6 a) of
        None \<Rightarrow> None
      | Some n \<Rightarrow> resolve q (name_display n) RT_PTR False now e)"

fun owner_qid :: "owner \<Rightarrow> qid" where
  "owner_qid (OResolve q) = q"
| "owner_qid (OLookup q) = q"

fun abandon_tasks :: "task_id list \<Rightarrow> engine \<Rightarrow> engine \<times> action list" where
  "abandon_tasks [] e = (e, [])"
| "abandon_tasks (i # is) e =
     (let e1 = e\<lparr>tasks := hm_remove (=) i (tasks e)\<rparr>;
          (e2, acts) =
            (case Option.bind (get_task e i) t_tx of
               None \<Rightarrow> (e1, [])
             | Some x \<Rightarrow> (e1\<lparr>txs := hm_remove (=) x (txs e1)\<rparr>, [Cancel x]));
          (e3, acts') = abandon_tasks is e2
      in (e3, acts @ acts'))"

definition abandon :: "qid \<Rightarrow> engine \<Rightarrow> engine \<times> action list" where
  "abandon q e =
     (let ids = map fst (filter (\<lambda>(_, t). owner_qid (t_owner t) = q) (tasks e));
          (e1, acts) = abandon_tasks ids e
      in (e1\<lparr>lookups := hm_remove (=) q (lookups e1)\<rparr>, acts))"

section \<open>Inputs from the transport\<close>

definition matching_response :: "engine \<Rightarrow> txid \<Rightarrow> bytes \<Rightarrow> message option" where
  "matching_response e x bs =
     (case get_tx e x of
        None \<Rightarrow> None
      | Some t \<Rightarrow>
     (case ok (decode bs) of
        None \<Rightarrow> None
      | Some msg \<Rightarrow>
          if hdr_id (header msg) \<noteq> x_dns_id t \<or> \<not> response (header msg) then None
          else
     (case message_question msg of
        None \<Rightarrow> None
      | Some q \<Rightarrow>
          if q_type q \<noteq> q_type (x_question t) \<or> q_class q \<noteq> q_class (x_question t) \<or>
             \<not> same_case (q_name q) (q_name (x_question t))
          then None else Some msg)))"

definition response_matches :: "engine \<Rightarrow> txid \<Rightarrow> bytes \<Rightarrow> bool" where
  "response_matches e x bs \<longleftrightarrow> matching_response e x bs \<noteq> None"

text \<open>
  What a reply contributes: its outcome, its records and their lifetime. \<open>digest\<close> is the
  computation of these in \<open>received\<close> up to the construction of the cache entry.
\<close>

record digested =
  dg_outcome :: outcome
  dg_records :: "rr list"
  dg_ttl :: u32

definition digest :: "message \<Rightarrow> name \<Rightarrow> u16 \<Rightarrow> digested" where
  "digest msg candidate rtype =
     (let outcome = (if ucast (message_rcode msg) = NXDOMAIN then NotFound else Found);
          (relevant, effective_name) = relevant_records (answers msg) candidate rtype;
          alias_ttl = unwrap_or (- 1) (min_ttl (filter (\<lambda>r. r_type r = RT_CNAME) relevant));
          records = map (\<lambda>r. if name_eq (r_name r) candidate then r\<lparr>r_name := candidate\<rparr> else r)
                      (filter (\<lambda>_. outcome = Found) relevant);
          ttl = (if outcome = Found \<and> records \<noteq> [] then min (unwrap_or 0 (min_ttl records)) MAX_POSITIVE_TTL
                 else min (negative_ttl (authority msg) effective_name) alias_ttl)
      in \<lparr>dg_outcome = outcome, dg_records = records, dg_ttl = ttl\<rparr>)"

definition accept_answer ::
  "task_id \<Rightarrow> task \<Rightarrow> ip_addr \<Rightarrow> message \<Rightarrow> instant \<Rightarrow> engine \<Rightarrow> result" where
  "accept_answer i task server msg now e =
     (let code = message_rcode msg;
          e1 = e\<lparr>demoted := hm_remove (=) (server_key server (scope_of task)) (demoted e)\<rparr>;
          candidate = current_name task;
          sid = scope_of task;
          d = digest msg candidate (t_type task);
          entry = \<lparr>e_outcome = dg_outcome d, e_records = dg_records d, e_rcode = code,
                   e_server = server, e_expires = now + from_secs (unat (dg_ttl d))\<rparr>;
          more = (t_candidates task \<noteq> []);
          e2 = (if dg_ttl d > 0 \<and> \<not> t_cache_invalidated task
                then e1\<lparr>answers_cache := cache_insert (cache_key_new candidate (t_type task) sid) entry now
                          (answers_cache e1)\<rparr>
                else e1)
      in if dg_outcome d = NotFound \<and> more
         then next_candidate i now (update_task i (\<lambda>t. t\<lparr>t_attempt := t_attempt t - 1\<rparr>) e2)
         else Some (settle i
                \<lparr>a_outcome = dg_outcome d, a_records = dg_records d, a_source = Dns,
                 a_server = Some server, a_interface = interface_of e2 sid, a_rcode = code,
                 a_resolved_name = Some candidate,
                 a_negative_ttl = (if dg_records d = [] then dg_ttl d else 0)\<rparr> e2))"

definition received :: "txid \<Rightarrow> bytes \<Rightarrow> instant \<Rightarrow> engine \<Rightarrow> result" where
  "received x bs now e =
     (case get_tx e x of
        None \<Rightarrow> Some (e, [])
      | Some t \<Rightarrow>
     (case matching_response e x bs of
        None \<Rightarrow> Some (e, [])
      | Some msg \<Rightarrow>
          let e1 = e\<lparr>txs := hm_remove (=) x (txs e)\<rparr> in
     (case get_task e1 (x_task t) of
        None \<Rightarrow> Some (e1, [])
      | Some task0 \<Rightarrow>
          let task = task0\<lparr>t_tx := None\<rparr>;
              e2 = bump (\<lambda>c. c\<lparr>c_upstream_answered := c_upstream_answered c + 1\<rparr>)
                     (update_task (x_task t) (\<lambda>t. t\<lparr>t_tx := None\<rparr>) e1);
              code = message_rcode msg
          in if truncated (header msg) \<and> \<not> x_tcp t then send (x_task t) (x_server t) True now e2
             else if (ucast code = NOERROR \<or> ucast code = NXDOMAIN) \<and> code < 16
             then accept_answer (x_task t) task (x_server t) msg now e2
             else next_attempt (x_task t) now
                    (demote (x_server t) (scope_of task) now
                      (bump (\<lambda>c. c\<lparr>c_upstream_failed := c_upstream_failed c + 1\<rparr>) e2)))))"

definition failed :: "txid \<Rightarrow> instant \<Rightarrow> engine \<Rightarrow> result" where
  "failed x now e =
     (case get_tx e x of
        None \<Rightarrow> Some (e, [])
      | Some t \<Rightarrow>
          let e1 = bump (\<lambda>c. c\<lparr>c_upstream_failed := c_upstream_failed c + 1\<rparr>)
                     (e\<lparr>txs := hm_remove (=) x (txs e)\<rparr>);
              sid = unwrap_or '''' (Option.bind (get_task e1 (x_task t)) t_scope);
              e2 = demote (x_server t) sid now e1;
              e3 = update_task (x_task t) (\<lambda>t. t\<lparr>t_tx := None\<rparr>) e2
          in next_attempt (x_task t) now e3)"

definition local_failed :: "txid \<Rightarrow> instant \<Rightarrow> engine \<Rightarrow> result" where
  "local_failed x now e =
     (case get_tx e x of
        None \<Rightarrow> Some (e, [])
      | Some t \<Rightarrow>
          let e1 = bump (\<lambda>c. c\<lparr>c_upstream_failed := c_upstream_failed c + 1\<rparr>)
                     (e\<lparr>txs := hm_remove (=) x (txs e)\<rparr>);
              e2 = update_task (x_task t) (\<lambda>t. t\<lparr>t_tx := None\<rparr>) e1
          in next_attempt (x_task t) now e2)"

definition expire :: "instant \<Rightarrow> txid \<Rightarrow> engine \<Rightarrow> result" where
  "expire now x e = map_option (\<lambda>(e1, acts). (e1, Cancel x # acts)) (failed x now e)"

definition tick :: "instant \<Rightarrow> engine \<Rightarrow> result" where
  "tick now e =
     (let expired = map fst (filter (\<lambda>(_, t). x_deadline t \<le> now) (txs e))
      in run_each (expire now) expired e)"

end
