(* ===== verification/Engine_Invariant.thy ===== *)
theory Engine_Invariant
  imports Engine
begin

text \<open>
  The invariant of the engine and the effect of its internal steps: tasks, transactions and
  lookups refer to each other consistently, every task that is not being worked on has exactly
  one transaction in flight, and work on a task answers its question or sends one query.
\<close>

section \<open>The invariant\<close>

definition task_ok :: "task \<Rightarrow> bool" where
  "task_ok t \<longleftrightarrow>
     wf_name (t_original t) \<and> (\<forall>c \<in> set (t_candidates t). wf_name c) \<and>
     (\<forall>c. t_current t = Some c \<longrightarrow> wf_name c) \<and> t_attempt t \<le> MAX_ATTEMPTS"

text \<open>
  Tasks and transactions point at each other; the tasks in \<open>active\<close> are the ones being worked
  on, which have no transaction.
\<close>

definition linked :: "task_id set \<Rightarrow> engine \<Rightarrow> bool" where
  "linked active e \<longleftrightarrow>
     (\<forall>i t. get_task e i = Some t \<longrightarrow>
        i < next_id e \<and> task_ok t \<and> (t_tx t = None \<longleftrightarrow> i \<in> active) \<and>
        (\<forall>x. t_tx t = Some x \<longrightarrow> 1 \<le> t_attempt t \<and> (\<exists>y. get_tx e x = Some y \<and> x_task y = i))) \<and>
     (\<forall>x y. get_tx e x = Some y \<longrightarrow>
        x < next_id e \<and> (\<exists>t. get_task e (x_task y) = Some t \<and> t_tx t = Some x))"

lemma linked_task:
  "linked act e \<Longrightarrow> get_task e i = Some t \<Longrightarrow>
   i < next_id e \<and> task_ok t \<and> (t_tx t = None \<longleftrightarrow> i \<in> act) \<and>
   (\<forall>x. t_tx t = Some x \<longrightarrow> 1 \<le> t_attempt t \<and> (\<exists>y. get_tx e x = Some y \<and> x_task y = i))"
  by (simp add: linked_def)

lemma linked_tx:
  "linked act e \<Longrightarrow> get_tx e x = Some y \<Longrightarrow>
   x < next_id e \<and> (\<exists>t. get_task e (x_task y) = Some t \<and> t_tx t = Some x)"
  by (simp add: linked_def)

lemma linkedI:
  assumes "\<And>i t. get_task e i = Some t \<Longrightarrow>
      i < next_id e \<and> task_ok t \<and> (t_tx t = None \<longleftrightarrow> i \<in> act) \<and>
      (\<forall>x. t_tx t = Some x \<longrightarrow> 1 \<le> t_attempt t \<and> (\<exists>y. get_tx e x = Some y \<and> x_task y = i))"
    and "\<And>x y. get_tx e x = Some y \<Longrightarrow>
      x < next_id e \<and> (\<exists>t. get_task e (x_task y) = Some t \<and> t_tx t = Some x)"
  shows "linked act e"
  using assms by (simp add: linked_def)

text \<open>
  A lookup waits for exactly the tasks it owns, of which there is at least one; a resolve
  question has one task and shares its identifier with nothing.
\<close>

definition owned :: "engine \<Rightarrow> bool" where
  "owned e \<longleftrightarrow>
     (\<forall>q l. get_lookup e q = Some l \<longrightarrow> l_pending l \<noteq> [] \<and>
        (\<forall>i. i \<in> set (l_pending l) \<longleftrightarrow> (\<exists>t. get_task e i = Some t \<and> t_owner t = OLookup q))) \<and>
     (\<forall>i t q. get_task e i = Some t \<and> t_owner t = OLookup q \<longrightarrow> get_lookup e q \<noteq> None) \<and>
     (\<forall>i t j u q. get_task e i = Some t \<and> t_owner t = OResolve q \<and>
        get_task e j = Some u \<and> owner_qid (t_owner u) = q \<longrightarrow> i = j)"

lemma owned_alt:
  "owned e \<longleftrightarrow>
     (\<forall>q l. get_lookup e q = Some l \<longrightarrow> l_pending l \<noteq> [] \<and>
        (\<forall>i. i \<in> set (l_pending l) \<longleftrightarrow> (\<exists>t. get_task e i = Some t \<and> t_owner t = OLookup q))) \<and>
     (\<forall>i q. (\<exists>t. get_task e i = Some t \<and> t_owner t = OLookup q) \<longrightarrow> get_lookup e q \<noteq> None) \<and>
     (\<forall>i j q ow. (\<exists>t. get_task e i = Some t \<and> t_owner t = OResolve q) \<and>
        (\<exists>u. get_task e j = Some u \<and> t_owner u = ow) \<and> owner_qid ow = q \<longrightarrow> i = j)"
  unfolding owned_def by fastforce

definition engine_ok :: "task_id set \<Rightarrow> engine \<Rightarrow> bool" where
  "engine_ok active e \<longleftrightarrow>
     hm_wf (=) (tasks e) \<and> hm_wf (=) (txs e) \<and> hm_wf (=) (lookups e) \<and>
     linked active e \<and> owned e \<and>
     length (txs e) \<le> MAX_IN_FLIGHT \<and> cache_wf (answers_cache e)"

text \<open>The questions that have not been answered yet.\<close>

definition opens :: "engine \<Rightarrow> qid set" where
  "opens e = {q. \<exists>i t. get_task e i = Some t \<and> owner_qid (t_owner t) = q}"

definition live :: "engine \<Rightarrow> txid set" where
  "live e = fst ` set (txs e)"

lemma hm_wf_eq_distinct: "hm_wf (=) xs \<longleftrightarrow> distinct (map fst xs)"
  by (induction xs) force+

lemma get_in_keys: "hm_get (=) k xs \<noteq> None \<longleftrightarrow> k \<in> fst ` set xs"
  by (induction xs) auto

lemma in_live: "x \<in> live e \<longleftrightarrow> (\<exists>y. get_tx e x = Some y)"
  using get_in_keys [of x "txs e"] by (auto simp: live_def)

lemma finite_live [simp]: "finite (live e)"
  by (simp add: live_def)

lemma opensI: "get_task e i = Some t \<Longrightarrow> owner_qid (t_owner t) \<in> opens e"
  by (auto simp: opens_def)

lemma opens_cong:
  assumes "\<And>j ow. (\<exists>t. get_task e' j = Some t \<and> t_owner t = ow) \<longleftrightarrow> (\<exists>t. get_task e j = Some t \<and> t_owner t = ow)"
  shows "opens e' = opens e"
proof -
  have "opens a = {q. \<exists>j ow. (\<exists>t. get_task a j = Some t \<and> t_owner t = ow) \<and> owner_qid ow = q}" for a
    by (auto simp: opens_def)
  then show ?thesis by (simp add: assms)
qed

subsection \<open>Bookkeeping steps\<close>

definition same_config :: "engine \<Rightarrow> engine \<Rightarrow> bool" where
  "same_config e e' \<longleftrightarrow>
     scopes e' = scopes e \<and> fallback_servers e' = fallback_servers e \<and>
     fallback_domains e' = fallback_domains e \<and> hostname e' = hostname e \<and> hosts e' = hosts e \<and>
     entropy e' = entropy e"

definition keeps :: "task \<Rightarrow> task \<Rightarrow> bool" where
  "keeps t t' \<longleftrightarrow>
     t_owner t' = t_owner t \<and> t_original t' = t_original t \<and> t_type t' = t_type t \<and>
     t_no_cache t' = t_no_cache t \<and> t_tx t' = t_tx t \<and>
     t_cache_invalidated t' = t_cache_invalidated t \<and> (task_ok t \<longrightarrow> task_ok t')"

definition cache_le :: "cache \<Rightarrow> cache \<Rightarrow> bool" where
  "cache_le c c' \<longleftrightarrow>
     (cache_wf c \<longrightarrow> cache_wf c') \<and>
     (\<forall>k now en. live_entry k now c' = Some en \<longrightarrow> live_entry k now c = Some en)"

text \<open>
  \<open>quiet i e e'\<close>: work on task \<open>i\<close> that moves its search along, looks into the cache, counts
  or draws randomness, and leaves everything else as it was.
\<close>

definition quiet :: "task_id \<Rightarrow> engine \<Rightarrow> engine \<Rightarrow> bool" where
  "quiet i e e' \<longleftrightarrow>
     same_config e e' \<and> txs e' = txs e \<and> lookups e' = lookups e \<and> next_id e' = next_id e \<and>
     cache_le (answers_cache e) (answers_cache e') \<and>
     map fst (tasks e') = map fst (tasks e) \<and>
     (\<forall>j. j \<noteq> i \<longrightarrow> get_task e' j = get_task e j) \<and>
     (\<forall>t. get_task e i = Some t \<longrightarrow> (\<exists>t'. get_task e' i = Some t' \<and> keeps t t'))"

lemma same_config_refl [simp]: "same_config e e"
  by (simp add: same_config_def)

lemma same_config_trans: "same_config e e1 \<Longrightarrow> same_config e1 e2 \<Longrightarrow> same_config e e2"
  by (simp add: same_config_def)

lemma keeps_refl [simp]: "keeps t t"
  by (simp add: keeps_def)

lemma keeps_trans: "keeps t u \<Longrightarrow> keeps u v \<Longrightarrow> keeps t v"
  by (simp add: keeps_def)

lemma cache_le_refl [simp]: "cache_le c c"
  by (simp add: cache_le_def)

lemma cache_le_trans: "cache_le a b \<Longrightarrow> cache_le b c \<Longrightarrow> cache_le a c"
  by (auto simp: cache_le_def)

lemma cache_le_get: "cache_le c (snd (cache_get k now c))"
  unfolding cache_le_def using ac.invar_get ac.visible_get by blast

lemma quiet_refl [simp]: "quiet i e e"
  by (auto simp: quiet_def)

lemma quiet_trans: "quiet i e e1 \<Longrightarrow> quiet i e1 e2 \<Longrightarrow> quiet i e e2"
  unfolding quiet_def by (auto intro: same_config_trans cache_le_trans) (metis keeps_trans)

lemma fst_update_task [simp]: "map fst (tasks (update_task i f e)) = map fst (tasks e)"
  by (simp add: update_task_def case_prod_unfold)

lemma update_task_fields [simp]:
  "scopes (update_task i f e) = scopes e" "fallback_servers (update_task i f e) = fallback_servers e"
  "fallback_domains (update_task i f e) = fallback_domains e" "hostname (update_task i f e) = hostname e"
  "hosts (update_task i f e) = hosts e" "entropy (update_task i f e) = entropy e"
  "draws (update_task i f e) = draws e" "txs (update_task i f e) = txs e"
  "lookups (update_task i f e) = lookups e" "next_id (update_task i f e) = next_id e"
  "answers_cache (update_task i f e) = answers_cache e" "demoted (update_task i f e) = demoted e"
  "counters (update_task i f e) = counters e"
  by (simp_all add: update_task_def)

lemma bump_fields [simp]:
  "scopes (bump f e) = scopes e" "fallback_servers (bump f e) = fallback_servers e"
  "fallback_domains (bump f e) = fallback_domains e" "hostname (bump f e) = hostname e"
  "hosts (bump f e) = hosts e" "entropy (bump f e) = entropy e" "draws (bump f e) = draws e"
  "txs (bump f e) = txs e" "lookups (bump f e) = lookups e" "next_id (bump f e) = next_id e"
  "answers_cache (bump f e) = answers_cache e" "demoted (bump f e) = demoted e"
  "tasks (bump f e) = tasks e"
  by (simp_all add: bump_def)

lemma quiet_update:
  assumes "\<And>t. get_task e i = Some t \<Longrightarrow> keeps t (f t)"
  shows "quiet i e (update_task i f e)"
  using assms fst_update_task [of i f e] by (auto simp: quiet_def same_config_def get_update_task)

lemma quiet_bump: "quiet i e (bump f e)"
  by (auto simp: quiet_def same_config_def)

lemma quiet_draw: "quiet i e (snd (draw e))"
  by (auto simp: quiet_def same_config_def draw_def)

lemma quiet_consult: "quiet i e (snd (consult_cache t n sid now e))"
proof -
  have "cache_le (answers_cache e) c" if "cache_get k now (answers_cache e) = (r, c)" for k r c
    using cache_le_get [of "answers_cache e" k now] that by simp
  then show ?thesis
    by (auto simp: quiet_def same_config_def consult_cache_def split: prod.splits)
qed

lemma quiet_get: "quiet i e e' \<Longrightarrow> get_task e' i = None \<longleftrightarrow> get_task e i = None"
  using get_in_keys [of i "tasks e"] get_in_keys [of i "tasks e'"]
  unfolding quiet_def by (metis set_map)

lemma quiet_owner:
  assumes "quiet i e e'"
  shows "(\<exists>t. get_task e' j = Some t \<and> t_owner t = ow) \<longleftrightarrow> (\<exists>t. get_task e j = Some t \<and> t_owner t = ow)"
  using quiet_get [OF assms] assms unfolding quiet_def keeps_def
  by (cases "j = i"; cases "get_task e i") auto

lemma quiet_opens: "quiet i e e' \<Longrightarrow> opens e' = opens e"
  by (rule opens_cong) (rule quiet_owner)

lemma linked_quiet:
  assumes "quiet i e e'" "linked act e" "i \<in> act"
  shows "linked act e'"
proof (rule linkedI)
  fix j t' assume t': "get_task e' j = Some t'"
  show "j < next_id e' \<and> task_ok t' \<and> (t_tx t' = None \<longleftrightarrow> j \<in> act) \<and>
      (\<forall>x. t_tx t' = Some x \<longrightarrow> 1 \<le> t_attempt t' \<and> (\<exists>y. get_tx e' x = Some y \<and> x_task y = j))"
  proof (cases "j = i")
    case True
    with t' obtain t where t: "get_task e i = Some t" "keeps t t'"
      using quiet_get [OF assms(1)] assms(1) by (cases "get_task e i") (auto simp: quiet_def)
    then show ?thesis using linked_task [OF assms(2) t(1)] assms(1,3) True
      by (auto simp: keeps_def quiet_def)
  next
    case False
    then show ?thesis using linked_task [OF assms(2), of j t'] assms(1) t' by (simp add: quiet_def)
  qed
next
  fix x y assume "get_tx e' x = Some y"
  then have x: "get_tx e x = Some y" using assms(1) by (simp add: quiet_def)
  then obtain t where t: "x < next_id e" "get_task e (x_task y) = Some t" "t_tx t = Some x"
    using linked_tx [OF assms(2)] by blast
  then have "x_task y \<noteq> i" using linked_task [OF assms(2) t(2)] assms(3) by auto
  then show "x < next_id e' \<and> (\<exists>t. get_task e' (x_task y) = Some t \<and> t_tx t = Some x)"
    using t assms(1) by (auto simp: quiet_def)
qed

lemma quiet_ok:
  assumes "quiet i e e'" "engine_ok act e" "i \<in> act"
  shows "engine_ok act e'"
proof -
  have "owned e'"
    using assms(1,2) unfolding engine_ok_def owned_alt quiet_owner [OF assms(1)] by (simp add: quiet_def)
  then show ?thesis
    using assms linked_quiet [OF assms(1)]
    by (auto simp: engine_ok_def quiet_def hm_wf_eq_distinct cache_le_def)
qed
section \<open>Answering and sending\<close>

primrec done_qid :: "action \<Rightarrow> qid option" where
  "done_qid (Send x s iface tcp p) = None"
| "done_qid (Cancel x) = None"
| "done_qid (Done q c) = Some q"

primrec sent_tx :: "action \<Rightarrow> txid option" where
  "sent_tx (Send x s iface tcp p) = Some x"
| "sent_tx (Cancel x) = None"
| "sent_tx (Done q c) = None"

primrec cancelled_tx :: "action \<Rightarrow> txid option" where
  "cancelled_tx (Send x s iface tcp p) = None"
| "cancelled_tx (Cancel x) = Some x"
| "cancelled_tx (Done q c) = None"

definition dones :: "action list \<Rightarrow> qid list" where
  "dones acts = List.map_filter done_qid acts"

definition sents :: "action list \<Rightarrow> txid list" where
  "sents acts = List.map_filter sent_tx acts"

definition cancels :: "action list \<Rightarrow> txid list" where
  "cancels acts = List.map_filter cancelled_tx acts"

lemma action_lists [simp]:
  "dones [] = []" "dones (a # acts) = (case done_qid a of None \<Rightarrow> [] | Some q \<Rightarrow> [q]) @ dones acts"
  "sents [] = []" "sents (a # acts) = (case sent_tx a of None \<Rightarrow> [] | Some x \<Rightarrow> [x]) @ sents acts"
  "cancels [] = []" "cancels (a # acts) = (case cancelled_tx a of None \<Rightarrow> [] | Some x \<Rightarrow> [x]) @ cancels acts"
  by (auto simp: dones_def sents_def cancels_def map_filter_simps split: option.splits)

lemma action_lists_append [simp]:
  "dones (as @ bs) = dones as @ dones bs" "sents (as @ bs) = sents as @ sents bs"
  "cancels (as @ bs) = cancels as @ cancels bs"
  by (induction as) auto

text \<open>
  What an operation does to the questions: every question that was open is answered now, once,
  or still open.
\<close>

definition serves :: "engine \<Rightarrow> engine \<Rightarrow> action list \<Rightarrow> bool" where
  "serves e e' acts \<longleftrightarrow>
     distinct (dones acts) \<and> set (dones acts) \<inter> opens e' = {} \<and> set (dones acts) \<union> opens e' = opens e"

text \<open>
  What it does to the transactions: the ones it sends are new and stay alive, and it ends the
  ones it cancels.
\<close>

definition wires :: "engine \<Rightarrow> engine \<Rightarrow> action list \<Rightarrow> bool" where
  "wires e e' acts \<longleftrightarrow>
     next_id e \<le> next_id e' \<and> distinct (sents acts) \<and>
     (\<forall>x \<in> set (sents acts). next_id e \<le> x \<and> x < next_id e') \<and>
     (\<forall>x \<in> set (cancels acts). x < next_id e) \<and>
     live e' = live e \<union> set (sents acts) - set (cancels acts)"

lemma serves_refl [simp]: "serves e e []"
  by (simp add: serves_def)

lemma serves_trans: "serves e e1 as \<Longrightarrow> serves e1 e2 bs \<Longrightarrow> serves e e2 (as @ bs)"
  unfolding serves_def by auto

lemma wires_refl [simp]: "wires e e []"
  by (simp add: wires_def)

text \<open>
  The effect of work on one task: its question is served, the other tasks are
  untouched, and the task is gone or has a transaction.
\<close>

definition same_asker :: "task \<Rightarrow> task \<Rightarrow> bool" where
  "same_asker t t' \<longleftrightarrow>
     t_owner t' = t_owner t \<and> t_original t' = t_original t \<and> t_type t' = t_type t \<and>
     t_no_cache t' = t_no_cache t \<and> t_cache_invalidated t' = t_cache_invalidated t"

definition worked :: "task_id set \<Rightarrow> task_id \<Rightarrow> engine \<Rightarrow> engine \<Rightarrow> action list \<Rightarrow> bool" where
  "worked act i e e' acts \<longleftrightarrow>
     engine_ok act e' \<and> serves e e' acts \<and> wires e e' acts \<and> cancels acts = [] \<and> same_config e e' \<and>
     cache_le (answers_cache e) (answers_cache e') \<and>
     (\<forall>j. j \<noteq> i \<longrightarrow> get_task e' j = get_task e j) \<and>
     (\<forall>t t'. get_task e i = Some t \<longrightarrow> get_task e' i = Some t' \<longrightarrow> same_asker t t') \<and>
     (\<forall>x < next_id e. get_tx e' x = get_tx e x)"

lemma engine_ok_tx_None:
  "engine_ok act e \<Longrightarrow> i \<in> act \<Longrightarrow> get_task e i = Some t \<Longrightarrow> t_tx t = None"
  using linked_task [of act e i t] by (simp add: engine_ok_def)

lemma linked_remove:
  assumes "linked (insert i act) e" "get_task e i = Some t" "t_tx t = None"
    and "\<And>j. get_task e' j = (if j = i then None else get_task e j)"
    and "txs e' = txs e" "next_id e' = next_id e"
  shows "linked act e'"
proof (rule linkedI)
  fix j u assume "get_task e' j = Some u"
  then show "j < next_id e' \<and> task_ok u \<and> (t_tx u = None \<longleftrightarrow> j \<in> act) \<and>
      (\<forall>x. t_tx u = Some x \<longrightarrow> 1 \<le> t_attempt u \<and> (\<exists>y. get_tx e' x = Some y \<and> x_task y = j))"
    using assms(4-6) linked_task [OF assms(1), of j u] by (auto split: if_splits)
next
  fix x y assume "get_tx e' x = Some y"
  then have "x < next_id e \<and> (\<exists>t. get_task e (x_task y) = Some t \<and> t_tx t = Some x)"
    using assms(5) linked_tx [OF assms(1)] by simp
  then show "x < next_id e' \<and> (\<exists>t. get_task e' (x_task y) = Some t \<and> t_tx t = Some x)"
    using assms(2-4,6) by auto
qed

lemma owned_remove_resolve:
  assumes "owned e" "get_task e i = Some t" "t_owner t = OResolve q"
    and "\<And>j. get_task e' j = (if j = i then None else get_task e j)" "lookups e' = lookups e"
  shows "owned e'"
proof -
  have "get_lookup e q' = Some l \<Longrightarrow> i \<notin> set (l_pending l)" for q' l
    using assms(1-3) by (fastforce simp: owned_def)
  with assms show ?thesis unfolding owned_def by (auto split: if_splits)
qed

lemma opens_remove:
  assumes "get_task e i = Some t" "owner_qid (t_owner t) = q"
    and "\<And>j. get_task e' j = (if j = i then None else get_task e j)"
  shows "insert q (opens e') = opens e"
    "q \<in> opens e' \<longleftrightarrow> (\<exists>j u. j \<noteq> i \<and> get_task e j = Some u \<and> owner_qid (t_owner u) = q)"
proof -
  have "opens e' = {p. \<exists>j u. j \<noteq> i \<and> get_task e j = Some u \<and> owner_qid (t_owner u) = p}"
    using assms(3) by (auto simp: opens_def split: if_splits)
  moreover have "opens e = insert q {p. \<exists>j u. j \<noteq> i \<and> get_task e j = Some u \<and> owner_qid (t_owner u) = p}"
  proof -
    have "ow \<noteq> q \<Longrightarrow> get_task e j = Some u \<Longrightarrow> owner_qid (t_owner u) = ow \<Longrightarrow> j \<noteq> i" for j u ow
      using assms(1,2) by auto
    then show ?thesis using assms(1,2) unfolding opens_def by blast
  qed
  ultimately show "insert q (opens e') = opens e"
    "q \<in> opens e' \<longleftrightarrow> (\<exists>j u. j \<noteq> i \<and> get_task e j = Some u \<and> owner_qid (t_owner u) = q)"
    by auto
qed

lemma owned_shared:
  assumes "owned e" "get_task e i = Some t" "t_owner t = OLookup q" "get_lookup e q = Some l"
  shows "(\<exists>j u. j \<noteq> i \<and> get_task e j = Some u \<and> owner_qid (t_owner u) = q) \<longleftrightarrow>
    filter (\<lambda>j. j \<noteq> i) (l_pending l) \<noteq> []"
proof -
  have pend: "j \<in> set (l_pending l) \<longleftrightarrow> (\<exists>t. get_task e j = Some t \<and> t_owner t = OLookup q)" for j
    using assms by (auto simp: owned_def)
  have "t_owner u = OLookup q" if "get_task e j = Some u" "owner_qid (t_owner u) = q" "j \<noteq> i" for j u
  proof (cases "t_owner u")
    case (OResolve q')
    then have "j = i" using assms(1-3) that unfolding owned_def by fastforce
    with that show ?thesis by simp
  qed (use that in simp)
  then have "(\<exists>j u. j \<noteq> i \<and> get_task e j = Some u \<and> owner_qid (t_owner u) = q) \<longleftrightarrow>
      (\<exists>j. j \<noteq> i \<and> j \<in> set (l_pending l))"
    unfolding pend by (metis owner_qid.simps(2))
  then show ?thesis by (auto simp: filter_empty_conv)
qed

lemma owned_settle_lookup:
  assumes "owned e" "hm_wf (=) (lookups e)" "get_task e i = Some t" "t_owner t = OLookup q"
    and "get_lookup e q = Some l"
    and get: "\<And>j. get_task e' j = (if j = i then None else get_task e j)"
    and look: "\<And>q'. get_lookup e' q' = (if q' = q then
        (if filter (\<lambda>j. j \<noteq> i) (l_pending l) \<noteq> [] then Some l' else None) else get_lookup e q')"
    and "l_pending l' = filter (\<lambda>j. j \<noteq> i) (l_pending l)"
  shows "owned e'"
proof -
  have pend: "j \<in> set (l_pending l) \<longleftrightarrow> (\<exists>t. get_task e j = Some t \<and> t_owner t = OLookup q)" for j
    using assms by (auto simp: owned_def)
  have "\<exists>j u. j \<noteq> i \<and> get_task e j = Some u \<and> t_owner u = OLookup q \<Longrightarrow>
      filter (\<lambda>j. j \<noteq> i) (l_pending l) \<noteq> []"
    using pend by (fastforce simp: filter_empty_conv)
  then show ?thesis
    using assms(1,3,4,5,8) pend unfolding owned_def get look
    by (auto split: if_splits simp: filter_empty_conv)
qed
lemma settle_worked:
  assumes ok: "engine_ok (insert i act) e" and i: "i \<notin> act" and t: "get_task e i = Some t"
  shows "worked act i e (fst (settle i ans e)) (snd (settle i ans e))"
    "get_task (fst (settle i ans e)) i = None" "sents (snd (settle i ans e)) = []"
    "txs (fst (settle i ans e)) = txs e"
proof -
  define e1 where "e1 = e\<lparr>tasks := hm_remove (=) i (tasks e)\<rparr>"
  have tx: "t_tx t = None" using engine_ok_tx_None [OF ok _ t] by simp
  have get1: "get_task e1 j = (if j = i then None else get_task e j)" for j
    by (simp add: e1_def ids.get_remove)
  have wf: "hm_wf (=) (tasks e1)" "hm_wf (=) (lookups e)" "owned e" "linked (insert i act) e"
    using ok by (auto simp: engine_ok_def e1_def ids.wf_remove)
  have link: "linked act e'" if "tasks e' = tasks e1" "txs e' = txs e" "next_id e' = next_id e" for e'
    using linked_remove [OF wf(4) t tx] get1 that by simp
  define P where "P r \<longleftrightarrow> worked act i e (fst r) (snd r) \<and> get_task (fst r) i = None \<and>
      sents (snd r) = [] \<and> txs (fst r) = txs e" for r
  have finish: "P (e', acts)"
    if "tasks e' = tasks e1" "txs e' = txs e" "next_id e' = next_id e" "answers_cache e' = answers_cache e"
      "same_config e e'" "owned e'" "hm_wf (=) (lookups e')" "sents acts = []" "cancels acts = []" "serves e e' acts"
    for e' acts
    using that ok link [OF that(1-3)] wf(1) get1
    by (auto simp: P_def worked_def engine_ok_def wires_def live_def)
  have "P (settle i ans e)"
  proof (cases "t_owner t")
    case (OResolve q)
    then have "settle i ans e = (e1, [Done q (CAnswer ans)])"
      using t tx by (simp add: settle_def e1_def)
    moreover have "owned e1"
      by (rule owned_remove_resolve [OF wf(3) t OResolve get1]) (simp add: e1_def)
    moreover have "serves e e1 [Done q (CAnswer ans)]"
    proof -
      have "q \<notin> opens e1"
        using opens_remove(2) [OF t _ get1] OResolve wf(3) t by (fastforce simp: owned_def)
      then show ?thesis using opens_remove(1) [OF t _ get1, of q] OResolve by (auto simp: serves_def)
    qed
    ultimately show ?thesis using wf(2) by (auto intro!: finish simp: e1_def same_config_def)
  next
    case (OLookup q)
    then obtain l where l: "get_lookup e q = Some l" using wf(3) t by (fastforce simp: owned_def)
    define l1 where "l1 = l\<lparr>l_pending := filter (\<lambda>t. t \<noteq> i) (l_pending l),
      l_results := l_results l @ [(t_type t, ans)]\<rparr>"
    define more where "more \<longleftrightarrow> filter (\<lambda>t. t \<noteq> i) (l_pending l) \<noteq> []"
    define e2 where "e2 = (if more then e1\<lparr>lookups := hm_insert (=) q l1 (lookups e)\<rparr>
      else e1\<lparr>lookups := hm_remove (=) q (lookups e)\<rparr>)"
    define acts where "acts = (if more then [] else [Done q (CAddresses (combine l1))])"
    have settle: "settle i ans e = (e2, acts)"
      using t tx l OLookup unfolding settle_def e2_def acts_def more_def l1_def e1_def
      by (simp add: Let_def)
    have get2: "get_task e2 j = (if j = i then None else get_task e j)" for j
      using get1 by (simp add: e2_def)
    have "owned e2"
      by (rule owned_settle_lookup [OF wf(3,2) t OLookup l get2, of l1])
         (auto simp: e2_def more_def l1_def ids.get_insert ids.get_remove)
    moreover have "serves e e2 acts"
    proof -
      have "q \<in> opens e2 \<longleftrightarrow> more"
        using opens_remove(2) [OF t _ get2] OLookup owned_shared [OF wf(3) t OLookup l]
        by (simp add: more_def)
      then show ?thesis using opens_remove(1) [OF t _ get2, of q] OLookup by (auto simp: serves_def acts_def)
    qed
    moreover have "hm_wf (=) (lookups e2)" using wf(2) by (simp add: e2_def ids.wf_insert ids.wf_remove)
    ultimately show ?thesis unfolding settle
      by (intro finish) (auto simp: e2_def acts_def e1_def same_config_def)
  qed
  then show "worked act i e (fst (settle i ans e)) (snd (settle i ans e))"
    "get_task (fst (settle i ans e)) i = None" "sents (snd (settle i ans e)) = []"
    "txs (fst (settle i ans e)) = txs e"
    by (simp_all add: P_def)
qed

lemma transmit_worked:
  assumes ok: "engine_ok (insert i act) e" and i: "i \<notin> act" and t: "get_task e i = Some t"
    and room: "t_attempt t < MAX_ATTEMPTS" "length (txs e) < MAX_IN_FLIGHT"
    and r: "(e', acts) = transmit i server tcp now iface d q payload e"
  shows "worked act i e e' acts" "dones acts = []"
    "get_task e' i = Some (t\<lparr>t_attempt := t_attempt t + 1, t_tx := Some (next_id e)\<rparr>)"
    "get_tx e' x = (if x = next_id e then Some \<lparr>x_task = i, x_dns_id = d, x_question = q, x_server = server,
       x_tcp = tcp, x_deadline = now + SERVER_TIMEOUT\<rparr> else get_tx e x)"
    "acts = [Send (next_id e) server iface tcp payload]"
proof -
  let ?x = "next_id e"
  let ?y = "\<lparr>x_task = i, x_dns_id = d, x_question = q, x_server = server, x_tcp = tcp,
    x_deadline = now + SERVER_TIMEOUT\<rparr>"
  have link: "linked (insert i act) e" using ok by (simp add: engine_ok_def)
  have fresh: "get_tx e ?x = None"
    using linked_tx [OF link, of ?x] by (cases "get_tx e ?x") auto
  have task: "get_task e' j = (if j = i then Some (t\<lparr>t_attempt := t_attempt t + 1, t_tx := Some ?x\<rparr>)
      else get_task e j)" for j
    using r t by (simp add: transmit_def fresh_id_def get_update_task)
  have tx: "get_tx e' x = (if x = ?x then Some ?y else get_tx e x)" for x
    using r by (simp add: transmit_def fresh_id_def ids.get_insert)
  have acts: "acts = [Send ?x server iface tcp payload]"
    and fields: "lookups e' = lookups e" "next_id e' = next_id e + 1" "answers_cache e' = answers_cache e"
      "map fst (tasks e') = map fst (tasks e)" "txs e' = hm_insert (=) ?x ?y (txs e)" "same_config e e'"
    using r by (auto simp: transmit_def fresh_id_def same_config_def update_task_def)
  have "linked act e'"
  proof (rule linkedI)
    fix j u assume u: "get_task e' j = Some u"
    show "j < next_id e' \<and> task_ok u \<and> (t_tx u = None \<longleftrightarrow> j \<in> act) \<and>
        (\<forall>x. t_tx u = Some x \<longrightarrow> 1 \<le> t_attempt u \<and> (\<exists>y. get_tx e' x = Some y \<and> x_task y = j))"
    proof (cases "j = i")
      case True
      then show ?thesis
        using u linked_task [OF link t] task tx i room(1) fields(2) by (auto simp: task_ok_def)
    next
      case False
      then show ?thesis using u linked_task [OF link, of j u] task tx fields(2) fresh by fastforce
    qed
  next
    fix x y assume "get_tx e' x = Some y"
    then show "x < next_id e' \<and> (\<exists>t. get_task e' (x_task y) = Some t \<and> t_tx t = Some x)"
      using t tx task fields(2) linked_tx [OF link, of x y] linked_task [OF link t]
      by (auto split: if_splits)
  qed
  moreover have owner: "(\<exists>t. get_task e' j = Some t \<and> t_owner t = ow) \<longleftrightarrow>
      (\<exists>t. get_task e j = Some t \<and> t_owner t = ow)" for j ow
    using task t by auto
  moreover have "owned e'"
    using ok unfolding engine_ok_def owned_alt owner fields(1) by simp
  moreover have "opens e' = opens e" using opens_cong [OF owner] .
  moreover have "live e' = insert ?x (live e)"
    by (auto simp: in_live tx set_eq_iff split: if_splits)
  moreover have "length (txs e') \<le> MAX_IN_FLIGHT" "hm_wf (=) (txs e')"
    using room(2) ok fresh by (auto simp: fields ids.length_insert ids.wf_insert engine_ok_def)
  ultimately show "worked act i e e' acts"
    using ok fields task t tx
    by (auto simp: worked_def engine_ok_def serves_def wires_def acts hm_wf_eq_distinct same_asker_def)
  show "dones acts = []" "get_task e' i = Some (t\<lparr>t_attempt := t_attempt t + 1, t_tx := Some ?x\<rparr>)"
    "get_tx e' x = (if x = ?x then Some ?y else get_tx e x)" "acts = [Send ?x server iface tcp payload]"
    using acts task tx by simp_all
qed
section \<open>Work on a task\<close>

text \<open>
  What the internal functions come to: after bookkeeping, the task is settled, or a query for
  its current candidate is sent. \<open>P\<close> restricts the task, the server and the transport.
\<close>

inductive handled ::
  "(engine \<Rightarrow> task \<Rightarrow> ip_addr \<Rightarrow> bool \<Rightarrow> bool) \<Rightarrow> task_id \<Rightarrow> instant \<Rightarrow> engine \<Rightarrow> engine \<times> action list \<Rightarrow> bool"
  for P i now e where
  answered: "quiet i e e1 \<Longrightarrow> handled P i now e (settle i ans e1)"
| dispatched:
    "quiet i e e1 \<Longrightarrow> get_task e1 i = Some t \<Longrightarrow> t_attempt t < MAX_ATTEMPTS \<Longrightarrow>
     length (txs e1) < MAX_IN_FLIGHT \<Longrightarrow> name_eq n (current_name t) \<Longrightarrow>
     encode (message_query d (question_new n (t_type t))) = Inr payload \<Longrightarrow> P e1 t server tcp \<Longrightarrow>
     handled P i now e (transmit i server tcp now (Option.bind (t_scope t) (interface_of e1)) d
       (question_new n (t_type t)) payload e1)"

definition handles ::
  "(engine \<Rightarrow> task \<Rightarrow> ip_addr \<Rightarrow> bool \<Rightarrow> bool) \<Rightarrow> task_id \<Rightarrow> instant \<Rightarrow> engine \<Rightarrow> result \<Rightarrow> bool" where
  "handles P i now e res \<longleftrightarrow> (case res of None \<Rightarrow> False | Some r \<Rightarrow> handled P i now e r)"

lemma handles_Some [simp]: "handles P i now e (Some r) = handled P i now e r"
  by (simp add: handles_def)

lemma handled_quiet: "quiet i e e1 \<Longrightarrow> handled P i now e1 r \<Longrightarrow> handled P i now e r"
  by (erule handled.cases) (auto intro: handled.intros quiet_trans)

lemma handled_mono:
  "handled P i now e r \<Longrightarrow> (\<And>e1 t s b. P e1 t s b \<Longrightarrow> quiet i e e1 \<Longrightarrow> Q e1 t s b) \<Longrightarrow> handled Q i now e r"
  by (erule handled.cases) (auto intro: handled.intros)

lemma handles_quiet: "quiet i e e1 \<Longrightarrow> handles P i now e1 res \<Longrightarrow> handles P i now e res"
  by (auto simp: handles_def intro: handled_quiet split: option.splits)

lemma handles_mono:
  "handles P i now e res \<Longrightarrow> (\<And>e1 t s b. P e1 t s b \<Longrightarrow> quiet i e e1 \<Longrightarrow> Q e1 t s b) \<Longrightarrow> handles Q i now e res"
  by (auto simp: handles_def intro: handled_mono split: option.splits)

lemma handled_worked:
  assumes "handled P i now e (e', acts)" "engine_ok (insert i act) e" "i \<notin> act" "get_task e i = Some t"
  shows "worked act i e e' acts"
proof -
  have lift: "worked act i e e' acts" if "quiet i e e1" "worked act i e1 e' acts" for e1
  proof -
    have "get_task e' i = Some t' \<Longrightarrow> same_asker t t'" for t'
      using that assms(4) by (fastforce simp: worked_def quiet_def keeps_def same_asker_def)
    with that quiet_opens [OF that(1)] assms(4) show ?thesis
      by (auto simp: worked_def serves_def wires_def quiet_def live_def intro: same_config_trans cache_le_trans)
  qed
  show ?thesis
    using assms(1)
  proof cases
    case (answered e1 ans)
    obtain u where u: "get_task e1 i = Some u" using answered(2) assms(4) by (auto simp: quiet_def)
    have "worked act i e1 e' acts"
      using settle_worked(1) [OF quiet_ok [OF answered(2) assms(2)] assms(3) u, of ans] answered(1)
      by (metis fst_conv insertI1 snd_conv)
    with answered(2) show ?thesis by (rule lift)
  next
    case (dispatched e1 u n d payload server tcp)
    have "worked act i e1 e' acts"
      by (rule transmit_worked [OF quiet_ok [OF dispatched(2) assms(2)] assms(3) dispatched(3,4,5,1)]) simp
    with dispatched(2) show ?thesis by (rule lift)
  qed
qed

text \<open>A task that survives has been dispatched: one more attempt, with a deadline.\<close>

lemma handled_survives:
  assumes "handled P i now e (e', acts)" "engine_ok (insert i act) e" "i \<notin> act" "get_task e i = Some t"
    and "get_task e' i = Some t'"
  obtains e1 u n d payload server tcp where "quiet i e e1" "get_task e1 i = Some u" "keeps t u" "P e1 u server tcp"
    "t_attempt u < MAX_ATTEMPTS" "t' = u\<lparr>t_attempt := t_attempt u + 1, t_tx := Some (next_id e)\<rparr>"
    "name_eq n (current_name u)" "encode (message_query d (question_new n (t_type t))) = Inr payload"
    "get_tx e' (next_id e) = Some \<lparr>x_task = i, x_dns_id = d, x_question = question_new n (t_type t), x_server = server,
       x_tcp = tcp, x_deadline = now + SERVER_TIMEOUT\<rparr>"
    "acts = [Send (next_id e) server (Option.bind (t_scope u) (interface_of e1)) tcp payload]"
  using assms(1)
proof cases
  case (answered e1 ans)
  obtain u where u: "get_task e1 i = Some u" using answered(2) assms(4) by (auto simp: quiet_def)
  have "get_task e' i = None"
    using settle_worked(2) [OF quiet_ok [OF answered(2) assms(2)] assms(3) u, of ans] answered(1)
    by (metis fst_conv insertI1)
  with assms(5) show thesis by simp
next
  case (dispatched e1 u n d payload server tcp)
  have "engine_ok (insert i act) e1" using quiet_ok [OF dispatched(2) assms(2)] by simp
  note facts = transmit_worked [OF this assms(3) dispatched(3,4,5,1)]
  have "keeps t u" "next_id e1 = next_id e" using dispatched(2,3) assms(4) by (auto simp: quiet_def)
  then show thesis
    using that [OF dispatched(2,3) _ dispatched(8,4) _ dispatched(6)] dispatched(7) facts(3-5) assms(5)
    by (simp add: keeps_def)
qed

subsection \<open>Sending\<close>

lemma current_name_wf: "task_ok t \<Longrightarrow> wf_name (current_name t)"
  by (auto simp: task_ok_def current_name_def unwrap_or_def split: option.splits)

lemma case_bits_total: "length random = 34 \<Longrightarrow> k < 256 \<Longrightarrow> case_bits random k \<noteq> None"
  by (auto simp: case_bits_def get_at_def)

lemma labels_bits: "wf_name n \<Longrightarrow> sum_list (map length (labels n)) \<le> 256"
proof -
  have "sum_list (map length ls) \<le> sum_list (map (\<lambda>l. length l + 1) ls)" for ls :: "bytes list"
    by (induction ls) auto
  then show "wf_name n \<Longrightarrow> ?thesis"
    by (force simp: wf_name_def wire_len_def MAX_NAME_LEN_def intro: le_trans)
qed

lemma randomise_case_total:
  assumes "wf_name n" "length random = 34"
  obtains n' where "randomise_case n (case_bits random) = Some n'" "name_eq n' n" "wf_name n'"
proof -
  have "randomise_labels (case_bits random) 0 (labels n) \<noteq> None"
    using labels_bits [OF assms(1)] case_bits_total [OF assms(2)]
    by (intro randomise_labels_total [of 256]) auto
  then obtain n' where n': "randomise_case n (case_bits random) = Some n'"
    by (auto simp: randomise_case_def)
  then have eq: "name_eq n' n" by (rule randomise_case_eq)
  then have "wf_name n'" using assms(1) wf_name_eq by blast
  with n' eq that show thesis by blast
qed

lemma handled_refuse: "quiet i e e1 \<Longrightarrow> handled P i now e (refuse i e1)"
  unfolding refuse_def by (rule answered) (rule quiet_trans [OF _ quiet_bump])

lemma send_handled:
  assumes "get_task e i = Some t" "task_ok t"
  shows "handles (\<lambda>e1 u s b. u = t \<and> s = server \<and> b = tcp) i now e (send i server tcp now e)"
proof (cases "t_attempt t \<ge> MAX_ATTEMPTS \<or> length (txs e) \<ge> MAX_IN_FLIGHT")
  case True
  then show ?thesis using assms(1)
    by (auto simp: send_def intro: answered [OF quiet_refl] handled_refuse [OF quiet_refl])
next
  case False
  define e1 where "e1 = snd (draw e)"
  have q: "quiet i e e1" by (simp add: e1_def quiet_draw)
  have get: "get_task e1 i = Some t" "txs e1 = txs e" "interface_of e1 = interface_of e"
    using assms(1) by (auto simp: e1_def draw_def interface_of_def)
  show ?thesis
  proof (cases "fst (draw e)")
    case None
    then show ?thesis using False assms(1) q
      by (auto simp: send_def e1_def case_prod_unfold intro: handled_refuse)
  next
    case (Some random)
    then have "length random = 34" by (auto simp: draw_def)
    then obtain n where n: "randomise_case (current_name t) (case_bits random) = Some n"
      "name_eq n (current_name t)" "wf_name n"
      using randomise_case_total [OF current_name_wf [OF assms(2)]] by blast
    define d where "d = from_le16 (random ! 0) (random ! 1)"
    obtain payload where p: "encode (message_query d (question_new n (t_type t))) = Inr payload"
      using encode_query [of "question_new n (t_type t)" d] n(3) by (auto simp: question_new_def)
    have "send i server tcp now e = Some (transmit i server tcp now
        (Option.bind (t_scope t) (interface_of e1)) d (question_new n (t_type t)) payload e1)"
      using False assms(1) Some n(1) p unfolding d_def
      by (simp add: send_def e1_def get case_prod_unfold Let_def flip: e1_def)
    then show ?thesis
      using False get(2,3) dispatched [OF q get(1) _ _ n(2) p, where server = server and tcp = tcp
          and now = now and P = "\<lambda>e1 u s b. u = t \<and> s = server \<and> b = tcp"]
      by simp
  qed
qed
subsection \<open>Attempts and candidates\<close>

lemma choose_server_mem: "servers \<noteq> [] \<Longrightarrow> choose_server t servers \<in> set servers"
  by (auto simp: choose_server_def unwrap_or_def find_Some_iff split: option.splits)

lemma choose_server_new:
  assumes "\<exists>s \<in> set servers. s \<notin> set (t_tried t)"
  shows "choose_server t servers \<notin> set (t_tried t)"
  using assms by (auto simp: choose_server_def unwrap_or_def find_None_iff find_Some_iff split: option.splits)

lemma keeps_tried: "keeps t (t\<lparr>t_tried := ss\<rparr>)"
  by (simp add: keeps_def task_ok_def)

lemma keeps_scope: "keeps t (t\<lparr>t_scope := s\<rparr>)"
  by (simp add: keeps_def task_ok_def)

lemma keeps_take: "t_candidates t = c # rest \<Longrightarrow> keeps t (take_candidate c rest t)"
  by (simp add: keeps_def task_ok_def take_candidate_def)

lemma scope_servers_cong:
  "same_config e e' \<Longrightarrow> scope_servers e' sid = scope_servers e sid"
  by (simp add: scope_servers_def same_config_def)

lemma route_cong: "same_config e e' \<Longrightarrow> route e' n = route e n"
proof -
  assume cfg: "same_config e e'"
  then have up: "up_scopes e' = up_scopes e" by (simp add: up_scopes_def same_config_def)
  then have "exclusive e' = exclusive e" by (simp add: exclusive_def)
  with cfg up show ?thesis by (simp add: route_def same_config_def cong: option.case_cong)
qed

text \<open>
  An attempt goes over UDP to a server of the task's scope and leaves the search where it is.
\<close>

definition attempt_at :: "engine \<Rightarrow> task \<Rightarrow> engine \<Rightarrow> task \<Rightarrow> ip_addr \<Rightarrow> bool \<Rightarrow> bool" where
  "attempt_at e t e1 u server tcp \<longleftrightarrow>
     \<not> tcp \<and> server \<in> set (scope_servers e (scope_of t)) \<and>
     t_candidates u = t_candidates t \<and> t_attempt u = t_attempt t \<and> t_current u = t_current t \<and>
     t_scope u = t_scope t"

lemma next_attempt_handled:
  assumes "get_task e i = Some t" "task_ok t"
  shows "handles (attempt_at e t) i now e (next_attempt i now e)"
proof (cases "t_attempt t \<ge> MAX_ATTEMPTS \<or> servers_of e (scope_of t) now = []")
  case True
  then show ?thesis using assms(1)
    by (auto simp: next_attempt_def Let_def intro: answered [OF quiet_refl])
next
  case False
  define s where "s = choose_server t (servers_of e (scope_of t) now)"
  define e1 where "e1 = update_task i (\<lambda>t. t\<lparr>t_tried := t_tried t @ [s]\<rparr>) e"
  define u where "u = t\<lparr>t_tried := t_tried t @ [s]\<rparr>"
  have q: "quiet i e e1" unfolding e1_def by (rule quiet_update) (rule keeps_tried)
  have u: "get_task e1 i = Some u" "task_ok u"
    using assms by (auto simp: e1_def u_def get_update_task task_ok_def)
  have mem: "s \<in> set (scope_servers e (scope_of t))"
    using False choose_server_mem [of "servers_of e (scope_of t) now" t] by (simp add: s_def set_servers_of)
  have "next_attempt i now e = send i s False now e1"
    using False assms(1) by (simp add: next_attempt_def s_def e1_def Let_def)
  moreover have "handles (attempt_at e t) i now e1 (send i s False now e1)"
    by (rule handles_mono [OF send_handled [OF u]]) (use mem in \<open>auto simp: attempt_at_def u_def\<close>)
  ultimately show ?thesis using handles_quiet [OF q] by simp
qed

text \<open>
  A candidate is asked in the scope it routes to, and every candidate asked is one less to ask.
\<close>

definition candidate_at :: "engine \<Rightarrow> task \<Rightarrow> engine \<Rightarrow> task \<Rightarrow> ip_addr \<Rightarrow> bool \<Rightarrow> bool" where
  "candidate_at e t e1 u server tcp \<longleftrightarrow>
     \<not> tcp \<and> length (t_candidates u) < length (t_candidates t) \<and> t_attempt u = t_attempt t \<and>
     (\<exists>c sid. c \<in> set (t_candidates t) \<and> t_current u = Some c \<and> t_scope u = Some sid \<and>
        route e c = Some sid \<and> server \<in> set (scope_servers e sid))"

lemma next_candidate_handled:
  assumes "get_task e i = Some t" "task_ok t"
  shows "handles (candidate_at e t) i now e (next_candidate i now e)"
  using assms
proof (induction "length (t_candidates t)" arbitrary: t e rule: less_induct)
  case less
  show ?case
  proof (cases "t_candidates t")
    case Nil
    then show ?thesis using less.prems
      by (simp add: next_candidate.simps [of i now e] answered [OF quiet_refl])
  next
    case (Cons c rest)
    define e1 where "e1 = update_task i (take_candidate c rest) e"
    have q1: "quiet i e e1"
      unfolding e1_def using less.prems(1) Cons by (intro quiet_update) (simp add: keeps_take)
    show ?thesis
    proof (cases "route e1 c")
      case None
      then show ?thesis using less.prems(1) Cons
        by (simp add: next_candidate.simps [of i now e] flip: e1_def) (rule answered [OF q1])
    next
      case (Some sid)
      define e2 where "e2 = update_task i (\<lambda>t. t\<lparr>t_scope := Some sid\<rparr>) e1"
      define e3 where "e3 = snd (consult_cache t c sid now e2)"
      define u where "u = (take_candidate c rest t)\<lparr>t_scope := Some sid\<rparr>"
      have "quiet i e1 e2" unfolding e2_def by (rule quiet_update) (rule keeps_scope)
      then have q3: "quiet i e e3"
        unfolding e3_def by (rule quiet_trans [OF quiet_trans [OF q1] quiet_consult])
      have u: "get_task e3 i = Some u"
        using less.prems(1) by (simp add: e3_def e2_def e1_def get_update_task u_def)
      have ok: "task_ok u" using less.prems(2) Cons by (auto simp: u_def task_ok_def take_candidate_def)
      have shrink: "length (t_candidates u) < length (t_candidates t)" "t_attempt u = t_attempt t"
        "set (t_candidates u) \<subseteq> set (t_candidates t)"
        using Cons by (auto simp: u_def take_candidate_def)
      have cfg: "same_config e e3" using q3 by (simp add: quiet_def)
      have rt: "route e c = Some sid" using Some q1 route_cong [of e e1 c] by (simp add: quiet_def)
      show ?thesis
      proof (cases "fst (consult_cache t c sid now e2)")
        case None
        then have "next_candidate i now e = next_attempt i now e3"
          using less.prems(1) Cons Some
          by (simp add: next_candidate.simps [of i now e] e3_def e2_def e1_def case_prod_unfold Let_def)
        moreover have "handles (candidate_at e t) i now e3 (next_attempt i now e3)"
          by (rule handles_mono [OF next_attempt_handled [OF u ok]])
             (use shrink rt Cons scope_servers_cong [OF cfg] in
               \<open>auto simp: attempt_at_def candidate_at_def u_def take_candidate_def scope_of_def unwrap_or_def\<close>)
        ultimately show ?thesis using handles_quiet [OF q3] by simp
      next
        case en: (Some en)
        define e4 where "e4 = bump (\<lambda>c. c\<lparr>c_cache_hits := c_cache_hits c + 1\<rparr>) e3"
        have q4: "quiet i e e4" unfolding e4_def by (rule quiet_trans [OF q3 quiet_bump])
        have step: "next_candidate i now e =
            (if e_outcome en = NotFound \<and> rest \<noteq> [] then next_candidate i now e4
             else Some (settle i (cached_answer en (interface_of e4 sid) c now) e4))"
          using less.prems(1) Cons Some en
          by (simp add: next_candidate.simps [of i now e] e4_def e3_def e2_def e1_def case_prod_unfold Let_def)
        have "handles (candidate_at e4 u) i now e4 (next_candidate i now e4)"
          using less.hyps [of u e4] shrink(1) u ok by (simp add: e4_def)
        then have "handles (candidate_at e t) i now e4 (next_candidate i now e4)"
          by (rule handles_mono)
             (use shrink q4 in \<open>auto simp: candidate_at_def quiet_def scope_servers_cong route_cong\<close>)
        then show ?thesis unfolding step using answered [OF q4] handles_quiet [OF q4] by simp
      qed
    qed
  qed
qed

end
