(* ===== verification/Engine_Events.thy ===== *)
theory Engine_Events
  imports Engine_Invariant
begin

text \<open>
  The engine as a state machine: the public operations of \<open>resolvd/src/engine.rs\<close> as events,
  the states they reach, and what holds of every reachable state and every event: the
  invariant, no panic, and that each question is answered exactly once.
\<close>

section \<open>New questions\<close>

definition engine_core :: "task_id set \<Rightarrow> engine \<Rightarrow> bool" where
  "engine_core act e \<longleftrightarrow>
     hm_wf (=) (tasks e) \<and> hm_wf (=) (txs e) \<and> hm_wf (=) (lookups e) \<and> linked act e \<and>
     length (txs e) \<le> MAX_IN_FLIGHT \<and> cache_wf (answers_cache e)"

lemma engine_ok_core: "engine_ok act e \<longleftrightarrow> engine_core act e \<and> owned e"
  by (auto simp: engine_ok_def engine_core_def)

lemma engine_ok_cong:
  "tasks e' = tasks e \<Longrightarrow> txs e' = txs e \<Longrightarrow> lookups e' = lookups e \<Longrightarrow> next_id e' = next_id e \<Longrightarrow>
   (cache_wf (answers_cache e) \<Longrightarrow> cache_wf (answers_cache e')) \<Longrightarrow> engine_ok act e \<Longrightarrow> engine_ok act e'"
  by (auto simp: engine_ok_def linked_def owned_def)

lemma new_task_ok: "wf_name n \<Longrightarrow> task_ok (new_task ow n rtype nc)"
  by (simp add: task_ok_def new_task_def)

lemma start_task_fields:
  assumes "start_task ow n rtype nc e = (i, e1)"
  shows "i = next_id e" "next_id e1 = next_id e + 1" "txs e1 = txs e" "lookups e1 = lookups e"
    "answers_cache e1 = answers_cache e" "same_config e e1"
    "get_task e1 j = (if j = next_id e then Some (new_task ow n rtype nc) else get_task e j)"
  using assms by (auto simp: start_task_def fresh_id_def same_config_def ids.get_insert)

lemma start_task_core:
  assumes core: "engine_core act e" and wf: "wf_name n" and st: "start_task ow n rtype nc e = (i, e1)"
  shows "engine_core (insert i act) e1"
proof -
  note f = start_task_fields [OF st]
  have link: "linked act e" using core by (simp add: engine_core_def)
  have "linked (insert i act) e1"
  proof (rule linkedI)
    fix j t assume "get_task e1 j = Some t"
    then show "j < next_id e1 \<and> task_ok t \<and> (t_tx t = None \<longleftrightarrow> j \<in> insert i act) \<and>
        (\<forall>x. t_tx t = Some x \<longrightarrow> 1 \<le> t_attempt t \<and> (\<exists>y. get_tx e1 x = Some y \<and> x_task y = j))"
      using f new_task_ok [OF wf] linked_task [OF link, of j t]
      by (auto simp: new_task_def split: if_splits)
  next
    fix x y assume "get_tx e1 x = Some y"
    then have x: "get_tx e x = Some y" using f(3) by simp
    then obtain t where t: "x < next_id e" "get_task e (x_task y) = Some t" "t_tx t = Some x"
      using linked_tx [OF link] by blast
    then have "x_task y \<noteq> next_id e" using linked_task [OF link t(2)] by auto
    then show "x < next_id e1 \<and> (\<exists>t. get_task e1 (x_task y) = Some t \<and> t_tx t = Some x)"
      using t f by auto
  qed
  moreover have "hm_wf (=) (tasks e1)"
    using core st by (auto simp: engine_core_def start_task_def fresh_id_def ids.wf_insert)
  ultimately show ?thesis using core f by (simp add: engine_core_def)
qed

lemma fresh_get: "linked act e \<Longrightarrow> next_id e \<le> i \<Longrightarrow> get_task e i = None"
  using linked_task [of act e i] by (cases "get_task e i") auto

lemma start_resolve_ok:
  assumes ok: "engine_ok act e" and wf: "wf_name n" and new: "q \<notin> opens e"
    and st: "start_task (OResolve q) n rtype nc e = (i, e1)"
  shows "engine_ok (insert i act) e1" "opens e1 = insert q (opens e)"
proof -
  note f = start_task_fields [OF st]
  have none: "get_task e (next_id e) = None" using fresh_get [of act e] ok by (simp add: engine_ok_def)
  have noq: "t_owner t \<noteq> OResolve q \<and> t_owner t \<noteq> OLookup q \<and> owner_qid (t_owner t) \<noteq> q"
    if "get_task e j = Some t" for j t
    using opensI [OF that] new by auto
  have "owned e1"
    using ok f none noq unfolding engine_ok_def owned_def
    by (auto simp: new_task_def split: if_splits)
  then show "engine_ok (insert i act) e1"
    using start_task_core [OF _ wf st] ok by (auto simp: engine_ok_core)
  show "opens e1 = insert q (opens e)"
  proof -
    have "opens e1 = insert (owner_qid (t_owner (new_task (OResolve q) n rtype nc))) (opens e)"
      using none unfolding opens_def f(7) by (auto split: if_splits) (metis option.distinct(1))
    then show ?thesis by (simp add: new_task_def)
  qed
qed

lemma start_tasks_spec:
  assumes "start_tasks q n ts e = (pending, e1)" "engine_core act e" "wf_name n"
  shows "pending = [next_id e ..< next_id e + length ts] \<and> next_id e1 = next_id e + length ts \<and>
    engine_core (act \<union> set pending) e1 \<and> txs e1 = txs e \<and> lookups e1 = lookups e \<and>
    answers_cache e1 = answers_cache e \<and> same_config e e1 \<and>
    (\<forall>j. get_task e1 j = (if j \<in> set pending
       then Some (new_task (OLookup q) n (ts ! (j - next_id e)) False) else get_task e j))"
  using assms
proof (induction ts arbitrary: e pending e1 act)
  case (Cons t ts)
  obtain i e2 where st: "start_task (OLookup q) n t False e = (i, e2)" by fastforce
  obtain rest where sts: "start_tasks q n ts e2 = (rest, e1)" and pending: "pending = i # rest"
    using Cons.prems(1) st by (auto split: prod.splits)
  note f = start_task_fields [OF st]
  have core: "engine_core (insert i act) e2" by (rule start_task_core [OF Cons.prems(2,3) st])
  note IH = Cons.IH [OF sts core Cons.prems(3)]
  have "pending = [next_id e ..< next_id e + length (t # ts)]"
    using IH f(1,2) pending by (simp add: upt_rec)
  moreover have "insert i act \<union> set rest = act \<union> set pending" using pending by auto
  moreover have "get_task e1 j = (if j \<in> set pending
      then Some (new_task (OLookup q) n ((t # ts) ! (j - next_id e)) False) else get_task e j)" for j
  proof (cases "j \<in> set rest")
    case True
    then have "j - next_id e = Suc (j - next_id e2)" using IH f(2) by auto
    with True IH pending show ?thesis by simp
  next
    case False
    have "get_task e1 j = get_task e2 j" using False IH by metis
    with False show ?thesis using f(1,7) pending by simp
  qed
  ultimately show ?case using IH f by (auto intro: same_config_trans)
qed simp
lemma start_lookup_ok:
  assumes ok: "engine_ok {} e" and wf: "wf_name n" and new: "q \<notin> opens e" and ts: "ts \<noteq> []"
    and st: "start_tasks q n ts e = (pending, e1)"
    and e2: "e2 = e1\<lparr>lookups := hm_insert (=) q \<lparr>l_name = n, l_pending = pending, l_results = []\<rparr> (lookups e1)\<rparr>"
  shows "engine_ok (set pending) e2" "opens e2 = insert q (opens e)" "distinct pending"
    "\<And>i. i \<in> set pending \<Longrightarrow> \<exists>t. get_task e2 i = Some (new_task (OLookup q) n t False)"
    "live e2 = live e" "next_id e \<le> next_id e2" "same_config e e2" "answers_cache e2 = answers_cache e"
    "\<And>j. j < next_id e \<Longrightarrow> get_task e2 j = get_task e j" "txs e2 = txs e"
proof -
  have core: "engine_core {} e" "owned e" using ok by (auto simp: engine_ok_core)
  note spec = start_tasks_spec [OF st core(1) wf]
  have pending: "pending = [next_id e ..< next_id e + length ts]" using spec by blast
  have get: "get_task e2 j = (if j \<in> set pending then Some (new_task (OLookup q) n (ts ! (j - next_id e)) False)
      else get_task e j)" for j
    using spec e2 by simp
  have old: "get_task e j = Some t \<Longrightarrow> j \<notin> set pending \<and> t_owner t \<noteq> OResolve q \<and> t_owner t \<noteq> OLookup q \<and>
      owner_qid (t_owner t) \<noteq> q" for j t
    using opensI [where e = e and i = j and t = t] new linked_task [of "{}" e j t] core pending
    by (auto simp: engine_core_def)
  have look: "get_lookup e2 q' = (if q' = q then Some \<lparr>l_name = n, l_pending = pending, l_results = []\<rparr>
      else get_lookup e q')" for q'
    using spec e2 by (simp add: ids.get_insert)
  have ne: "pending \<noteq> []" using pending ts by simp
  have "owned e2"
    using core(2) old ne unfolding owned_def get look by (auto simp: new_task_def split: if_splits)
  moreover have "engine_core (set pending) e1" using spec by (metis Un_empty_left)
  then have "engine_core (set pending) e2"
    using e2 by (simp add: engine_core_def linked_def ids.wf_insert)
  ultimately show "engine_ok (set pending) e2" by (simp add: engine_ok_core)
  have own: "owner_qid (t_owner (new_task (OLookup q) n t False)) = q" for t by (simp add: new_task_def)
  have "opens e2 = {p. \<exists>j t. j \<notin> set pending \<and> get_task e j = Some t \<and> owner_qid (t_owner t) = p} \<union> {q}"
    using ne unfolding opens_def get by (fastforce simp: own neq_Nil_conv split: if_splits)
  also have "\<dots> = insert q (opens e)" using old unfolding opens_def by blast
  finally show "opens e2 = insert q (opens e)" .
  show "distinct pending" using pending by simp
  show "\<exists>t. get_task e2 i = Some (new_task (OLookup q) n t False)" if "i \<in> set pending" for i
    using that get by auto
  show "live e2 = live e" "next_id e \<le> next_id e2" "same_config e e2" "answers_cache e2 = answers_cache e" "txs e2 = txs e"
    using spec e2 by (auto simp: live_def same_config_def)
  show "get_task e2 j = get_task e j" if "j < next_id e" for j
    using that get pending by simp
qed

section \<open>Work on several tasks\<close>

lemma wires_trans:
  "wires e e1 as \<Longrightarrow> wires e1 e2 bs \<Longrightarrow> set (cancels bs) \<inter> set (sents as) = {} \<Longrightarrow>
   \<forall>x \<in> set (cancels bs). x < next_id e \<Longrightarrow> wires e e2 (as @ bs)"
proof -
  assume a: "wires e e1 as" and b: "wires e1 e2 bs" and c: "set (cancels bs) \<inter> set (sents as) = {}"
    and d: "\<forall>x \<in> set (cancels bs). x < next_id e"
  have fresh: "x \<notin> set (cancels as)" if "x \<in> set (sents bs)" for x
    using a b that by (force simp: wires_def)
  have "distinct (sents as @ sents bs)" using a b by (force simp: wires_def)
  moreover have "live e2 = live e \<union> set (sents (as @ bs)) - set (cancels (as @ bs))"
    using a b c fresh by (auto simp: wires_def)
  ultimately show ?thesis using a b d by (fastforce simp: wires_def)
qed

text \<open>A fresh task, routed: what \<open>advance\<close> sends.\<close>

definition routed_at :: "engine \<Rightarrow> name \<Rightarrow> u16 \<Rightarrow> engine \<Rightarrow> task \<Rightarrow> ip_addr \<Rightarrow> bool \<Rightarrow> bool" where
  "routed_at e n rtype e1 u server tcp \<longleftrightarrow>
     \<not> tcp \<and> t_attempt u = 0 \<and> length (t_candidates u) < length (candidates e n) \<and>
     synthetic e n rtype = None \<and>
     (\<exists>c sid. c \<in> set (candidates e n) \<and> t_current u = Some c \<and> t_scope u = Some sid \<and>
        route e c = Some sid \<and> server \<in> set (scope_servers e sid))"

lemma advance_handled:
  assumes "get_task e i = Some (new_task ow n rtype nc)" "wf_name n"
  shows "handles (routed_at e n rtype) i now e (advance i now e)"
proof -
  let ?t = "new_task ow n rtype nc"
  have new: "t_current ?t = None" "t_candidates ?t = []" "t_attempt ?t = 0" "t_original ?t = n" "t_type ?t = rtype"
    by (simp_all add: new_task_def)
  show ?thesis
  proof (cases "synthetic e n rtype")
    case (Some ans)
    then show ?thesis using assms(1) by (simp add: advance_def new answered [OF quiet_bump])
  next
    case None
    show ?thesis
    proof (cases "candidates e n = []")
      case True
      then show ?thesis using assms(1) None by (simp add: advance_def new answered [OF quiet_refl])
    next
      case False
      define e1 where "e1 = update_task i (\<lambda>t. t\<lparr>t_candidates := candidates e n\<rparr>) e"
      define u where "u = ?t\<lparr>t_candidates := candidates e n\<rparr>"
      have ok: "task_ok u" using candidates_wf [OF assms(2)] assms(2)
        by (auto simp: u_def task_ok_def new_task_def)
      have q: "quiet i e e1"
        unfolding e1_def using assms(1) ok by (intro quiet_update) (auto simp: keeps_def u_def)
      have get: "get_task e1 i = Some u" using assms(1) by (simp add: e1_def u_def get_update_task)
      have "handles (routed_at e n rtype) i now e1 (next_candidate i now e1)"
        by (rule handles_mono [OF next_candidate_handled [OF get ok]])
           (use q None get in \<open>auto simp: candidate_at_def routed_at_def u_def new quiet_def route_cong scope_servers_cong\<close>)
      moreover have "advance i now e = next_candidate i now e1"
        using assms(1) None False by (simp add: advance_def new e1_def)
      ultimately show ?thesis using handles_quiet [OF q] by simp
    qed
  qed
qed

lemma run_advance:
  assumes "engine_ok (set is) e" "distinct is"
    and "\<And>i. i \<in> set is \<Longrightarrow> \<exists>ow n t nc. get_task e i = Some (new_task ow n t nc) \<and> wf_name n"
  shows "\<exists>e' acts. run_each (\<lambda>i. advance i now) is e = Some (e', acts) \<and> engine_ok {} e' \<and>
    serves e e' acts \<and> wires e e' acts \<and> cancels acts = [] \<and> same_config e e' \<and>
    cache_le (answers_cache e) (answers_cache e') \<and>
    (\<forall>j. j \<notin> set is \<longrightarrow> get_task e' j = get_task e j) \<and> (\<forall>x < next_id e. get_tx e' x = get_tx e x)"
  using assms
proof (induction "is" arbitrary: e)
  case Nil
  then show ?case by simp
next
  case (Cons i "is")
  obtain ow n t nc where t: "get_task e i = Some (new_task ow n t nc)" "wf_name n" using Cons.prems(3) by force
  obtain e1 as where adv: "advance i now e = Some (e1, as)" "handled (routed_at e n t) i now e (e1, as)"
    using advance_handled [OF t, of now] by (auto simp: handles_def split: option.splits)
  have ok: "engine_ok (insert i (set is)) e" "i \<notin> set is" using Cons.prems(1,2) by auto
  have w: "worked (set is) i e e1 as" by (rule handled_worked [OF adv(2) ok t(1)])
  have ok1: "engine_ok (set is) e1" and same: "j \<noteq> i \<Longrightarrow> get_task e1 j = get_task e j" for j
    using w by (auto simp: worked_def)
  have new1: "\<exists>ow n t nc. get_task e1 j = Some (new_task ow n t nc) \<and> wf_name n" if "j \<in> set is" for j
    using Cons.prems(3) [of j] same [of j] that ok(2) by (cases "j = i") auto
  obtain e2 bs where r: "run_each (\<lambda>i. advance i now) is e1 = Some (e2, bs)" "engine_ok {} e2"
    "serves e1 e2 bs" "wires e1 e2 bs" "cancels bs = []" "same_config e1 e2"
    "cache_le (answers_cache e1) (answers_cache e2)"
    "\<forall>j. j \<notin> set is \<longrightarrow> get_task e2 j = get_task e1 j" "\<forall>x < next_id e1. get_tx e2 x = get_tx e1 x"
    using Cons.IH [OF ok1 _ new1] Cons.prems(2) by auto
  have le: "next_id e \<le> next_id e1" using w by (simp add: worked_def wires_def)
  have "serves e e2 (as @ bs)" "wires e e2 (as @ bs)"
    using w r serves_trans wires_trans [of e e1 as e2 bs] by (auto simp: worked_def)
  moreover have "same_config e e2" "cache_le (answers_cache e) (answers_cache e2)"
    using w r same_config_trans cache_le_trans by (auto simp: worked_def)
  ultimately show ?case using adv(1) r w le by (auto simp: worked_def)
qed
section \<open>Ending a transaction\<close>

definition release :: "txid \<Rightarrow> task_id \<Rightarrow> engine \<Rightarrow> engine" where
  "release x i e = update_task i (\<lambda>t. t\<lparr>t_tx := None\<rparr>) (e\<lparr>txs := hm_remove (=) x (txs e)\<rparr>)"

lemma release_fields:
  "get_tx (release x i e) x' = (if x' = x then None else get_tx e x')"
  "get_task (release x i e) j = (if j = i then map_option (\<lambda>t. t\<lparr>t_tx := None\<rparr>) (get_task e j) else get_task e j)"
  "lookups (release x i e) = lookups e" "next_id (release x i e) = next_id e" "same_config e (release x i e)"
  "answers_cache (release x i e) = answers_cache e" "live (release x i e) = live e - {x}"
  "map fst (tasks (release x i e)) = map fst (tasks e)" "txs (release x i e) = hm_remove (=) x (txs e)"
  using fst_update_task [of i "\<lambda>t. t\<lparr>t_tx := None\<rparr>" "e\<lparr>txs := hm_remove (=) x (txs e)\<rparr>"]
  by (auto simp: release_def ids.get_remove get_update_task same_config_def in_live split: if_splits)

lemma engine_ok_tx:
  assumes "engine_ok act e" "get_tx e x = Some y"
  obtains t where "get_task e (x_task y) = Some t" "t_tx t = Some x" "task_ok t" "1 \<le> t_attempt t" "x < next_id e"
proof -
  have link: "linked act e" using assms(1) by (simp add: engine_ok_def)
  obtain t where t: "get_task e (x_task y) = Some t" "t_tx t = Some x" "x < next_id e"
    using linked_tx [OF link assms(2)] by blast
  with linked_task [OF link t(1)] that show thesis by auto
qed

lemma release_ok:
  assumes ok: "engine_ok {} e" and y: "get_tx e x = Some y"
  shows "engine_ok {x_task y} (release x (x_task y) e)" "opens (release x (x_task y) e) = opens e"
proof -
  let ?i = "x_task y" and ?r = "release x (x_task y) e"
  have link: "linked {} e" using ok by (simp add: engine_ok_def)
  obtain t where t: "get_task e ?i = Some t" "t_tx t = Some x" "task_ok t" by (rule engine_ok_tx [OF ok y])
  have "linked {?i} ?r"
  proof (rule linkedI)
    fix j u assume "get_task ?r j = Some u"
    then show "j < next_id ?r \<and> task_ok u \<and> (t_tx u = None \<longleftrightarrow> j \<in> {?i}) \<and>
        (\<forall>x. t_tx u = Some x \<longrightarrow> 1 \<le> t_attempt u \<and> (\<exists>y. get_tx ?r x = Some y \<and> x_task y = j))"
      using t linked_task [OF link, of j u] linked_task [OF link t(1)] y
      by (auto simp: release_fields ids.get_remove task_ok_def split: if_splits)
  next
    fix x' y' assume "get_tx ?r x' = Some y'"
    then have "get_tx e x' = Some y'" "x' \<noteq> x" by (auto simp: release_fields ids.get_remove split: if_splits)
    then show "x' < next_id ?r \<and> (\<exists>t. get_task ?r (x_task y') = Some t \<and> t_tx t = Some x')"
      using t linked_tx [OF link, of x' y'] by (auto simp: release_fields)
  qed
  moreover have owner: "(\<exists>t. get_task ?r j = Some t \<and> t_owner t = ow) \<longleftrightarrow>
      (\<exists>t. get_task e j = Some t \<and> t_owner t = ow)" for j ow
    by (auto simp: release_fields)
  moreover have "owned ?r"
    using ok unfolding engine_ok_def owned_alt owner release_fields(3) by simp
  moreover have "length (hm_remove (=) x (txs e)) \<le> length (txs e)" by (simp add: hm_remove_def)
  ultimately show "engine_ok {?i} ?r"
    using ok by (auto simp: engine_ok_def release_fields hm_wf_eq_distinct ids.wf_remove [unfolded hm_wf_eq_distinct])
  show "opens ?r = opens e" by (rule opens_cong) (rule owner)
qed

lemma quiet_demote: "quiet i e (demote s sid now e)"
  by (auto simp: quiet_def same_config_def demote_def)

text \<open>
  Work after the transaction \<open>x\<close> has ended: \<open>ended x e e' acts\<close> is the effect on questions and
  transactions when the transport reported \<open>x\<close>.
\<close>

definition ended :: "txid \<Rightarrow> engine \<Rightarrow> engine \<Rightarrow> action list \<Rightarrow> bool" where
  "ended x e e' acts \<longleftrightarrow>
     engine_ok {} e' \<and> serves e e' acts \<and> same_config e e' \<and> cancels acts = [] \<and>
     next_id e \<le> next_id e' \<and> distinct (sents acts) \<and>
     (\<forall>s \<in> set (sents acts). next_id e \<le> s \<and> s < next_id e') \<and>
     live e' = (live e - {x}) \<union> set (sents acts) \<and>
     (\<forall>x' < next_id e. x' \<noteq> x \<longrightarrow> get_tx e' x' = get_tx e x') \<and>
     (\<forall>y. get_tx e x = Some y \<longrightarrow> (\<forall>j. j \<noteq> x_task y \<longrightarrow> get_task e' j = get_task e j) \<and>
        (\<forall>t t'. get_task e (x_task y) = Some t \<longrightarrow> get_task e' (x_task y) = Some t' \<longrightarrow> same_asker t t'))"

lemma ended_worked:
  assumes ok: "engine_ok {} e" and y: "get_tx e x = Some y"
    and w: "worked {} (x_task y) ((release x (x_task y) e)\<lparr>answers_cache := c\<rparr>) e' acts"
  shows "ended x e e' acts"
proof -
  let ?i = "x_task y" and ?r = "(release x (x_task y) e)\<lparr>answers_cache := c\<rparr>"
  obtain t where t: "get_task e ?i = Some t" "x < next_id e" by (rule engine_ok_tx [OF ok y])
  have "same_asker t t'" if "get_task e' ?i = Some t'" for t'
    using w t that by (fastforce simp: worked_def release_fields same_asker_def)
  moreover have "opens ?r = opens e" using release_ok(2) [OF ok y] by (simp add: opens_def)
  moreover have "same_config e e'" using w release_fields(5) [of e x ?i] by (simp add: worked_def same_config_def)
  moreover have "live ?r = live e - {x}" using release_fields(7) [of x ?i e] by (simp add: live_def)
  ultimately show ?thesis
    using w t y
    by (auto simp: ended_def worked_def serves_def wires_def release_fields ids.get_remove)
qed

definition no_panic :: "result \<Rightarrow> (engine \<Rightarrow> action list \<Rightarrow> bool) \<Rightarrow> bool" where
  "no_panic res Q \<longleftrightarrow> (case res of None \<Rightarrow> False | Some (e', acts) \<Rightarrow> Q e' acts)"

lemma no_panic_Some [simp]: "no_panic (Some (e', acts)) Q = Q e' acts"
  by (simp add: no_panic_def)

lemma handles_ended_cache:
  assumes ok: "engine_ok {} e" and y: "get_tx e x = Some y" and c: "cache_wf c"
    and h: "handles P (x_task y) now ((release x (x_task y) e)\<lparr>answers_cache := c\<rparr>) res"
  shows "no_panic res (ended x e)"
proof -
  let ?r = "(release x (x_task y) e)\<lparr>answers_cache := c\<rparr>"
  obtain t where t: "get_task e (x_task y) = Some t" by (rule engine_ok_tx [OF ok y])
  obtain e' acts where r: "res = Some (e', acts)" "handled P (x_task y) now ?r (e', acts)"
    using h by (auto simp: handles_def split: option.splits)
  have "engine_ok {x_task y} ?r"
    by (rule engine_ok_cong [OF _ _ _ _ _ release_ok(1) [OF ok y]]) (simp_all add: c)
  then have "worked {} (x_task y) ?r e' acts"
    by (intro handled_worked [OF r(2)]) (use t in \<open>auto simp: release_fields\<close>)
  with r ended_worked [OF ok y] show ?thesis by simp
qed

lemma handles_ended:
  assumes ok: "engine_ok {} e" and y: "get_tx e x = Some y"
    and h: "handles P (x_task y) now (release x (x_task y) e) res"
  shows "no_panic res (ended x e)"
  using handles_ended_cache [OF ok y, of "answers_cache e" P now res] h ok release_fields(6) [of x "x_task y" e]
  by (simp add: engine_ok_def) (metis engine.surjective engine.update_convs(6))

lemma released_task:
  assumes ok: "engine_ok {} e" and y: "get_tx e x = Some y" and q: "quiet (x_task y) (release x (x_task y) e) e1"
  obtains t u where "get_task e (x_task y) = Some t" "get_task e1 (x_task y) = Some u" "task_ok u"
    "keeps (t\<lparr>t_tx := None\<rparr>) u" "task_ok t" "1 \<le> t_attempt t"
proof -
  obtain t where t: "get_task e (x_task y) = Some t" "task_ok t" "1 \<le> t_attempt t" by (rule engine_ok_tx [OF ok y])
  then have r: "get_task (release x (x_task y) e) (x_task y) = Some (t\<lparr>t_tx := None\<rparr>)"
    by (simp add: release_fields)
  then obtain u where "get_task e1 (x_task y) = Some u" "keeps (t\<lparr>t_tx := None\<rparr>) u"
    using q by (auto simp: quiet_def)
  moreover have "task_ok (t\<lparr>t_tx := None\<rparr>)" using t by (simp add: task_ok_def)
  ultimately show thesis using that t by (auto simp: keeps_def)
qed
subsection \<open>Failures\<close>

lemma failed_next_attempt:
  assumes "get_tx e x = Some y"
  obtains e1 where "quiet (x_task y) (release x (x_task y) e) e1" "failed x now e = next_attempt (x_task y) now e1"
    "tasks e1 = tasks (release x (x_task y) e)"
proof -
  let ?e1 = "bump (\<lambda>c. c\<lparr>c_upstream_failed := c_upstream_failed c + 1\<rparr>) (e\<lparr>txs := hm_remove (=) x (txs e)\<rparr>)"
  define e3 where "e3 = update_task (x_task y) (\<lambda>t. t\<lparr>t_tx := None\<rparr>)
    (demote (x_server y) (unwrap_or '''' (Option.bind (get_task ?e1 (x_task y)) t_scope)) now ?e1)"
  have eq: "failed x now e = next_attempt (x_task y) now e3"
    using assms by (simp add: failed_def e3_def Let_def)
  have same: "tasks e3 = tasks (release x (x_task y) e)"
    by (simp add: e3_def release_def update_task_def demote_def bump_def)
  then have "quiet (x_task y) (release x (x_task y) e) e3"
    by (auto simp: quiet_def same_config_def e3_def release_def demote_def)
  with eq same show thesis by (intro that)
qed

lemma local_failed_next_attempt:
  assumes "get_tx e x = Some y"
  obtains e1 where "quiet (x_task y) (release x (x_task y) e) e1" "local_failed x now e = next_attempt (x_task y) now e1"
    "tasks e1 = tasks (release x (x_task y) e)"
proof -
  let ?e1 = "bump (\<lambda>c. c\<lparr>c_upstream_failed := c_upstream_failed c + 1\<rparr>) (e\<lparr>txs := hm_remove (=) x (txs e)\<rparr>)"
  define e3 where "e3 = update_task (x_task y) (\<lambda>t. t\<lparr>t_tx := None\<rparr>) ?e1"
  have eq: "local_failed x now e = next_attempt (x_task y) now e3"
    using assms by (simp add: local_failed_def e3_def Let_def)
  have same: "tasks e3 = tasks (release x (x_task y) e)"
    by (simp add: e3_def release_def update_task_def bump_def)
  then have "quiet (x_task y) (release x (x_task y) e) e3"
    by (auto simp: quiet_def same_config_def e3_def release_def)
  with eq same show thesis by (intro that)
qed

text \<open>After a failure the same candidate is tried again, with the same attempts spent.\<close>

definition retry_at :: "task \<Rightarrow> engine \<Rightarrow> task \<Rightarrow> ip_addr \<Rightarrow> bool \<Rightarrow> bool" where
  "retry_at t e1 u server tcp \<longleftrightarrow>
     \<not> tcp \<and> t_candidates u = t_candidates t \<and> t_attempt u = t_attempt t \<and>
     t_current u = t_current t \<and> t_scope u = t_scope t \<and>
     server \<in> set (scope_servers e1 (scope_of t))"

lemma attempt_handles:
  assumes ok: "engine_ok {} e" and y: "get_tx e x = Some y" and t: "get_task e (x_task y) = Some t"
    and q: "quiet (x_task y) (release x (x_task y) e) e1" and same: "tasks e1 = tasks (release x (x_task y) e)"
  shows "handles (retry_at t) (x_task y) now (release x (x_task y) e) (next_attempt (x_task y) now e1)"
proof -
  have t1: "get_task e1 (x_task y) = Some (t\<lparr>t_tx := None\<rparr>)"
    using t unfolding same by (simp add: release_fields)
  have "task_ok t" using engine_ok_tx [OF ok y] t by auto
  then have ok1: "task_ok (t\<lparr>t_tx := None\<rparr>)" by (simp add: task_ok_def)
  have "handles (retry_at t) (x_task y) now e1 (next_attempt (x_task y) now e1)"
    by (rule handles_mono [OF next_attempt_handled [OF t1 ok1]])
       (auto simp: attempt_at_def retry_at_def scope_of_def quiet_def scope_servers_cong)
  then show ?thesis by (rule handles_quiet [OF q])
qed

lemma failed_handles:
  assumes ok: "engine_ok {} e" and y: "get_tx e x = Some y" and t: "get_task e (x_task y) = Some t"
  shows "handles (retry_at t) (x_task y) now (release x (x_task y) e) (failed x now e)"
  by (rule failed_next_attempt [OF y, of now]) (simp add: attempt_handles [OF ok y t])

lemma local_failed_handles:
  assumes ok: "engine_ok {} e" and y: "get_tx e x = Some y" and t: "get_task e (x_task y) = Some t"
  shows "handles (retry_at t) (x_task y) now (release x (x_task y) e) (local_failed x now e)"
  by (rule local_failed_next_attempt [OF y, of now]) (simp add: attempt_handles [OF ok y t])

lemma ended_refl: "engine_ok {} e \<Longrightarrow> get_tx e x = None \<Longrightarrow> ended x e e []"
proof -
  assume "engine_ok {} e" "get_tx e x = None"
  then show ?thesis using in_live [of x e] by (simp add: ended_def)
qed

lemma failed_ended: "engine_ok {} e \<Longrightarrow> no_panic (failed x now e) (ended x e)"
proof (cases "get_tx e x")
  case None
  then show "engine_ok {} e \<Longrightarrow> ?thesis" by (simp add: failed_def ended_refl)
next
  case (Some y)
  assume ok: "engine_ok {} e"
  obtain t where "get_task e (x_task y) = Some t" by (rule engine_ok_tx [OF ok Some])
  then show ?thesis by (rule handles_ended [OF ok Some failed_handles [OF ok Some]])
qed

lemma local_failed_ended: "engine_ok {} e \<Longrightarrow> no_panic (local_failed x now e) (ended x e)"
proof (cases "get_tx e x")
  case None
  then show "engine_ok {} e \<Longrightarrow> ?thesis" by (simp add: local_failed_def ended_refl)
next
  case (Some y)
  assume ok: "engine_ok {} e"
  obtain t where "get_task e (x_task y) = Some t" by (rule engine_ok_tx [OF ok Some])
  then show ?thesis by (rule handles_ended [OF ok Some local_failed_handles [OF ok Some]])
qed

subsection \<open>Replies\<close>

lemma matching_response_Some:
  "matching_response e x bs = Some msg \<longleftrightarrow>
     (\<exists>t q. get_tx e x = Some t \<and> decode bs = Inr msg \<and> hdr_id (header msg) = x_dns_id t \<and>
        response (header msg) \<and> questions msg = [q] \<and> q_type q = q_type (x_question t) \<and>
        q_class q = q_class (x_question t) \<and> q_name q = q_name (x_question t))"
  by (auto simp: matching_response_def message_question_def same_case_def name.expand rust_simps
      split: option.splits list.splits if_splits)

text \<open>
  A truncated UDP reply is asked again on the same server over TCP; a negative reply moves to
  the next candidate and gives its attempt back; another failure tries again.
\<close>

definition progress_at :: "task \<Rightarrow> engine \<Rightarrow> task \<Rightarrow> ip_addr \<Rightarrow> bool \<Rightarrow> bool" where
  "progress_at t e1 u server tcp \<longleftrightarrow>
     (t_candidates u = t_candidates t \<and> t_attempt u = t_attempt t) \<or>
     (length (t_candidates u) < length (t_candidates t) \<and> t_attempt u + 1 = t_attempt t)"

lemma engine_ok_insert:
  "engine_ok act e \<Longrightarrow> engine_ok act (e\<lparr>answers_cache := cache_insert k en now (answers_cache e)\<rparr>)"
  by (rule engine_ok_cong) (auto simp: wf_cache_insert)
text \<open>What a reply may add to the cache: one entry, for the question that was asked, unless the task was invalidated.\<close>

definition reply_entry :: "message \<Rightarrow> name \<Rightarrow> u16 \<Rightarrow> ip_addr \<Rightarrow> instant \<Rightarrow> entry" where
  "reply_entry msg candidate rtype server now =
     (let d = digest msg candidate rtype in
      \<lparr>e_outcome = dg_outcome d, e_records = dg_records d, e_rcode = message_rcode msg,
       e_server = server, e_expires = now + from_secs (unat (dg_ttl d))\<rparr>)"

definition cached_from :: "task \<Rightarrow> ip_addr \<Rightarrow> message \<Rightarrow> instant \<Rightarrow> cache \<Rightarrow> cache \<Rightarrow> bool" where
  "cached_from t server msg now c c' \<longleftrightarrow>
     c' = c \<or>
     (\<not> t_cache_invalidated t \<and> dg_ttl (digest msg (current_name t) (t_type t)) > 0 \<and>
      c' = cache_insert (cache_key_new (current_name t) (t_type t) (scope_of t))
             (reply_entry msg (current_name t) (t_type t) server now) now c)"

lemma accept_answer_handles:
  assumes t: "get_task e i = Some t" "task_ok t" "1 \<le> t_attempt t" and w: "cache_wf (answers_cache e)"
  obtains c where "cached_from t server msg now (answers_cache e) c" "cache_wf c"
    "handles (progress_at t) i now (e\<lparr>answers_cache := c\<rparr>) (accept_answer i t server msg now e)"
proof -
  define d where "d = digest msg (current_name t) (t_type t)"
  define c where "c = (if dg_ttl d > 0 \<and> \<not> t_cache_invalidated t
    then cache_insert (cache_key_new (current_name t) (t_type t) (scope_of t))
           (reply_entry msg (current_name t) (t_type t) server now) now (answers_cache e)
    else answers_cache e)"
  define e2 where "e2 = e\<lparr>demoted := hm_remove (=) (server_key server (scope_of t)) (demoted e), answers_cache := c\<rparr>"
  have q2: "quiet i (e\<lparr>answers_cache := c\<rparr>) e2" by (auto simp: quiet_def same_config_def e2_def)
  have acc: "accept_answer i t server msg now e =
      (if dg_outcome d = NotFound \<and> t_candidates t \<noteq> []
       then next_candidate i now (update_task i (\<lambda>t. t\<lparr>t_attempt := t_attempt t - 1\<rparr>) e2)
       else Some (settle i
         \<lparr>a_outcome = dg_outcome d, a_records = dg_records d, a_source = Dns,
          a_server = Some server, a_interface = interface_of e2 (scope_of t), a_rcode = message_rcode msg,
          a_resolved_name = Some (current_name t),
          a_negative_ttl = (if dg_records d = [] then dg_ttl d else 0)\<rparr> e2))"
    unfolding accept_answer_def e2_def c_def d_def reply_entry_def by (simp add: Let_def)
  have "handles (progress_at t) i now (e\<lparr>answers_cache := c\<rparr>) (accept_answer i t server msg now e)"
  proof (cases "dg_outcome d = NotFound \<and> t_candidates t \<noteq> []")
    case True
    define e3 where "e3 = update_task i (\<lambda>t. t\<lparr>t_attempt := t_attempt t - 1\<rparr>) e2"
    define u where "u = t\<lparr>t_attempt := t_attempt t - 1\<rparr>"
    have q3: "quiet i (e\<lparr>answers_cache := c\<rparr>) e3"
      unfolding e3_def by (rule quiet_trans [OF q2 quiet_update]) (auto simp: keeps_def task_ok_def)
    have u: "get_task e3 i = Some u" "task_ok u"
      using t by (auto simp: e3_def e2_def u_def get_update_task task_ok_def)
    have "handles (progress_at t) i now e3 (next_candidate i now e3)"
      by (rule handles_mono [OF next_candidate_handled [OF u]])
         (use t(3) in \<open>auto simp: candidate_at_def progress_at_def u_def\<close>)
    then show ?thesis unfolding acc using True handles_quiet [OF q3] by (simp add: e3_def)
  next
    case False
    then show ?thesis unfolding acc by (auto intro: answered [OF q2])
  qed
  moreover have "cached_from t server msg now (answers_cache e) c"
    by (auto simp: cached_from_def c_def d_def)
  moreover have "cache_wf c" using w by (simp add: c_def wf_cache_insert)
  ultimately show thesis by (intro that)
qed

lemma received_handles:
  assumes ok: "engine_ok {} e" and y: "get_tx e x = Some y" and t: "get_task e (x_task y) = Some t"
    and m: "matching_response e x bs = Some msg"
  obtains c where "cached_from t (x_server y) msg now (answers_cache e) c" "cache_wf c"
    "handles (progress_at t) (x_task y) now ((release x (x_task y) e)\<lparr>answers_cache := c\<rparr>) (received x bs now e)"
proof -
  let ?i = "x_task y"
  define r where "r = release x ?i e"
  define t1 where "t1 = t\<lparr>t_tx := None\<rparr>"
  define e2 where "e2 = bump (\<lambda>c. c\<lparr>c_upstream_answered := c_upstream_answered c + 1\<rparr>) r"
  have wf: "cache_wf (answers_cache e)" using ok by (simp add: engine_ok_def)
  have t_ok: "task_ok t" "1 \<le> t_attempt t" using engine_ok_tx [OF ok y] t by auto
  have g: "get_task r ?i = Some t1" "get_task e2 ?i = Some t1" "task_ok t1" "answers_cache e2 = answers_cache e"
    using t t_ok by (auto simp: r_def e2_def t1_def release_fields task_ok_def)
  have q2: "quiet ?i (r\<lparr>answers_cache := c\<rparr>) (e2\<lparr>answers_cache := c\<rparr>)" for c
    by (auto simp: quiet_def same_config_def e2_def bump_def)
  have self: "r\<lparr>answers_cache := answers_cache e\<rparr> = r" "e2\<lparr>answers_cache := answers_cache e\<rparr> = e2"
    using g(4) by (simp_all add: r_def release_def update_task_def e2_def bump_def)
  define code where "code = message_rcode msg"
  have eq: "received x bs now e =
      (if truncated (header msg) \<and> \<not> x_tcp y then send ?i (x_server y) True now e2
       else if (ucast code = NOERROR \<or> ucast code = NXDOMAIN) \<and> code < 16
       then accept_answer ?i t1 (x_server y) msg now e2
       else next_attempt ?i now (demote (x_server y) (scope_of t1) now
              (bump (\<lambda>c. c\<lparr>c_upstream_failed := c_upstream_failed c + 1\<rparr>) e2)))"
    using y t m unfolding received_def e2_def r_def release_def t1_def code_def by (simp add: Let_def)
  have p: "progress_at t = progress_at t1" by (intro ext) (simp add: progress_at_def t1_def)
  consider "truncated (header msg) \<and> \<not> x_tcp y"
    | "\<not> (truncated (header msg) \<and> \<not> x_tcp y)" "(ucast code = NOERROR \<or> ucast code = NXDOMAIN) \<and> code < 16"
    | "\<not> (truncated (header msg) \<and> \<not> x_tcp y)" "\<not> ((ucast code = NOERROR \<or> ucast code = NXDOMAIN) \<and> code < 16)"
    by blast
  then have "\<exists>c. cached_from t (x_server y) msg now (answers_cache e) c \<and> cache_wf c \<and>
      handles (progress_at t) ?i now (r\<lparr>answers_cache := c\<rparr>) (received x bs now e)"
  proof cases
    case 1
    have "handles (progress_at t) ?i now e2 (send ?i (x_server y) True now e2)"
      by (rule handles_mono [OF send_handled [OF g(2,3)]]) (auto simp: progress_at_def t1_def)
    then show ?thesis using handles_quiet [OF q2 [of "answers_cache e"]] 1 wf
      unfolding eq by (auto simp: self cached_from_def)
  next
    case 2
    obtain c where c: "cached_from t1 (x_server y) msg now (answers_cache e2) c" "cache_wf c"
      "handles (progress_at t1) ?i now (e2\<lparr>answers_cache := c\<rparr>) (accept_answer ?i t1 (x_server y) msg now e2)"
      by (rule accept_answer_handles [OF g(2,3), of "x_server y" msg now])
         (use t_ok wf in \<open>auto simp: t1_def g(4)\<close>)
    have "cached_from t (x_server y) msg now (answers_cache e) c"
      using c(1) g(4) by (simp add: cached_from_def t1_def current_name_def scope_of_def)
    then show ?thesis using c(2,3) handles_quiet [OF q2] 2 unfolding eq p by auto
  next
    case 3
    define e3 where "e3 = demote (x_server y) (scope_of t1) now
      (bump (\<lambda>c. c\<lparr>c_upstream_failed := c_upstream_failed c + 1\<rparr>) e2)"
    have q3: "quiet ?i e2 e3" unfolding e3_def by (rule quiet_trans [OF quiet_bump quiet_demote])
    have g3: "get_task e3 ?i = Some t1" using g(2) by (simp add: e3_def demote_def bump_def)
    have "handles (progress_at t) ?i now e3 (next_attempt ?i now e3)"
      by (rule handles_mono [OF next_attempt_handled [OF g3 g(3)]]) (auto simp: progress_at_def attempt_at_def t1_def)
    then have "handles (progress_at t) ?i now r (received x bs now e)"
      using handles_quiet [OF quiet_trans [OF q2 [of "answers_cache e"], of e3]] q3 3
      unfolding eq e3_def self by auto
    then show ?thesis using wf self by (auto simp: cached_from_def)
  qed
  then show thesis using that unfolding r_def by blast
qed

lemma received_ended:
  assumes "engine_ok {} e"
  shows "no_panic (received x bs now e) (\<lambda>e' acts.
    if response_matches e x bs then ended x e e' acts else e' = e \<and> acts = [])"
proof (cases "matching_response e x bs")
  case None
  then show ?thesis by (cases "get_tx e x") (auto simp: received_def response_matches_def)
next
  case (Some msg)
  then obtain y where y: "get_tx e x = Some y" by (auto simp: matching_response_Some)
  obtain t where t: "get_task e (x_task y) = Some t" by (rule engine_ok_tx [OF assms y])
  obtain c where "cache_wf c"
    "handles (progress_at t) (x_task y) now ((release x (x_task y) e)\<lparr>answers_cache := c\<rparr>) (received x bs now e)"
    by (rule received_handles [OF assms y t Some])
  then have "no_panic (received x bs now e) (ended x e)" by (rule handles_ended_cache [OF assms y])
  then show ?thesis using Some by (simp add: response_matches_def)
qed

subsection \<open>Expiry\<close>

text \<open>The effect of \<open>tick\<close> and of cancelling one transaction.\<close>

definition swept :: "engine \<Rightarrow> engine \<Rightarrow> action list \<Rightarrow> bool" where
  "swept e e' acts \<longleftrightarrow> engine_ok {} e' \<and> serves e e' acts \<and> wires e e' acts \<and> same_config e e'"

lemma expire_swept:
  assumes "engine_ok {} e" "x < next_id e"
  shows "no_panic (expire now x e) (\<lambda>e' acts. swept e e' acts \<and> cancels acts = [x] \<and> ended x e e' (tl acts))"
proof -
  obtain e' acts where f: "failed x now e = Some (e', acts)" "ended x e e' acts"
    using failed_ended [OF assms(1), of x now] by (auto simp: no_panic_def split: option.splits)
  then have "serves e e' (Cancel x # acts)" by (simp add: ended_def serves_def)
  moreover have "wires e e' (Cancel x # acts)"
    using f(2) assms(2) by (auto simp: ended_def wires_def)
  ultimately show ?thesis using f by (simp add: expire_def swept_def ended_def)
qed

lemma run_expire:
  assumes "engine_ok {} e" "distinct xs" "\<forall>x \<in> set xs. x < next_id e"
  shows "no_panic (run_each (expire now) xs e) (\<lambda>e' acts. swept e e' acts \<and> cancels acts = xs)"
  using assms
proof (induction xs arbitrary: e)
  case Nil
  then show ?case by (simp add: swept_def)
next
  case (Cons x xs)
  obtain e1 as where a: "expire now x e = Some (e1, as)" "swept e e1 as" "cancels as = [x]"
    using expire_swept [OF Cons.prems(1), of x now] Cons.prems(3) by (auto simp: no_panic_def split: option.splits)
  have le: "next_id e \<le> next_id e1" using a(2) by (simp add: swept_def wires_def)
  have "no_panic (run_each (expire now) xs e1) (\<lambda>e' acts. swept e1 e' acts \<and> cancels acts = xs)"
    using Cons.prems a(2) le by (intro Cons.IH) (auto simp: swept_def)
  then obtain e2 bs where b: "run_each (expire now) xs e1 = Some (e2, bs)" "swept e1 e2 bs" "cancels bs = xs"
    by (auto simp: no_panic_def split: option.splits)
  have "set (cancels bs) \<inter> set (sents as) = {}"
    using b(3) Cons.prems(3) a(2) by (force simp: swept_def wires_def)
  then have "wires e e2 (as @ bs)"
    using a(2) b(2,3) Cons.prems(3) by (intro wires_trans) (auto simp: swept_def)
  moreover have "serves e e2 (as @ bs)" using a(2) b(2) serves_trans by (auto simp: swept_def)
  moreover have "same_config e e2" using a(2) b(2) same_config_trans by (auto simp: swept_def)
  ultimately show ?case using a b by (simp add: swept_def)
qed

lemma in_set_iff_get: "hm_wf (=) xs \<Longrightarrow> (k, v) \<in> set xs \<longleftrightarrow> hm_get (=) k xs = Some v"
  using ids.in_set_get [of xs k v] ids.get_in_set [of k xs v] by auto

lemma opens_alt: "opens e = {p. \<exists>j ow. (\<exists>t. get_task e j = Some t \<and> t_owner t = ow) \<and> owner_qid ow = p}"
  by (auto simp: opens_def)

definition expired :: "instant \<Rightarrow> engine \<Rightarrow> txid list" where
  "expired now e = map fst (filter (\<lambda>(_, t). x_deadline t \<le> now) (txs e))"

lemma expired_facts:
  assumes "engine_ok act e"
  shows "distinct (expired now e)" "\<forall>x \<in> set (expired now e). x < next_id e"
    "x \<in> set (expired now e) \<longleftrightarrow> (\<exists>y. get_tx e x = Some y \<and> x_deadline y \<le> now)"
proof -
  have wf: "hm_wf (=) (txs e)" and link: "linked act e" using assms by (auto simp: engine_ok_def)
  then show "distinct (expired now e)"
    unfolding expired_def hm_wf_eq_distinct by (intro distinct_map_filter)
  show mem: "x \<in> set (expired now e) \<longleftrightarrow> (\<exists>y. get_tx e x = Some y \<and> x_deadline y \<le> now)" for x
    by (auto simp: expired_def in_set_iff_get [OF wf] image_iff)
  show "\<forall>x \<in> set (expired now e). x < next_id e" using mem linked_tx [OF link] by blast
qed

lemma tick_swept:
  assumes "engine_ok {} e"
  shows "no_panic (tick now e) (\<lambda>e' acts. swept e e' acts \<and> cancels acts = expired now e)"
  using run_expire [OF assms expired_facts(1,2) [OF assms], of now now]
  by (simp add: tick_def expired_def)

subsection \<open>Abandoning a question\<close>

definition task_txs :: "task_id list \<Rightarrow> engine \<Rightarrow> txid list" where
  "task_txs is e = List.map_filter (\<lambda>i. Option.bind (get_task e i) t_tx) is"

lemma map_filter_eq: "(\<And>x. x \<in> set xs \<Longrightarrow> f x = g x) \<Longrightarrow> List.map_filter f xs = List.map_filter g xs"
  by (induction xs) (auto simp: map_filter_simps split: option.splits)

lemma abandon_tasks_closed:
  assumes "distinct is"
  shows "abandon_tasks is e =
    (e\<lparr>tasks := filter (\<lambda>(j, _). j \<notin> set is) (tasks e), txs := filter (\<lambda>(x, _). x \<notin> set (task_txs is e)) (txs e)\<rparr>,
     map Cancel (task_txs is e))"
  using assms
proof (induction "is" arbitrary: e)
  case Nil
  have "filter (\<lambda>(j, _). True) xs = xs" for xs :: "('a \<times> 'b) list" by (induction xs) auto
  then show ?case by (simp add: task_txs_def map_filter_simps)
next
  case (Cons i "is")
  define e1 where "e1 = e\<lparr>tasks := hm_remove (=) i (tasks e)\<rparr>"
  define e2 where "e2 = (case Option.bind (get_task e i) t_tx of None \<Rightarrow> e1 | Some x \<Rightarrow> e1\<lparr>txs := hm_remove (=) x (txs e1)\<rparr>)"
  have "get_task e2 j = get_task e j" if "j \<in> set is" for j
    using that Cons.prems by (auto simp: e2_def e1_def ids.get_remove split: option.splits)
  then have tt: "task_txs is e2 = task_txs is e"
    unfolding task_txs_def by (intro map_filter_eq) simp
  have f1: "filter (\<lambda>(j, _). j \<notin> set is) (tasks e2) = filter (\<lambda>(j, _). j \<notin> set (i # is)) (tasks e)"
    by (auto simp: e2_def e1_def hm_remove_def case_prod_unfold split: option.splits intro: filter_cong)
  have f2: "filter (\<lambda>(x, _). x \<notin> set (task_txs is e)) (txs e2) =
      filter (\<lambda>(x, _). x \<notin> set (task_txs (i # is) e)) (txs e)"
    by (auto simp: e2_def e1_def hm_remove_def task_txs_def map_filter_simps case_prod_unfold
        split: option.splits intro: filter_cong)
  have "abandon_tasks (i # is) e =
      (fst (abandon_tasks is e2), (case Option.bind (get_task e i) t_tx of None \<Rightarrow> [] | Some x \<Rightarrow> [Cancel x]) @
        snd (abandon_tasks is e2))"
    by (auto simp: e2_def e1_def Let_def case_prod_unfold split: option.splits)
  moreover have "abandon_tasks is e2 =
      (e2\<lparr>tasks := filter (\<lambda>(j, _). j \<notin> set is) (tasks e2), txs := filter (\<lambda>(x, _). x \<notin> set (task_txs is e2)) (txs e2)\<rparr>,
       map Cancel (task_txs is e2))"
    using Cons.IH [of e2] Cons.prems by simp
  ultimately show ?case
    using f1 f2 unfolding tt
    by (auto simp: task_txs_def map_filter_simps e2_def e1_def split: option.splits)
qed
lemma set_task_txs: "x \<in> set (task_txs is e) \<longleftrightarrow> (\<exists>i \<in> set is. \<exists>t. get_task e i = Some t \<and> t_tx t = Some x)"
proof -
  have "x \<in> set (List.map_filter f is) \<longleftrightarrow> (\<exists>i \<in> set is. f i = Some x)" for f
    by (induction "is") (auto simp: map_filter_simps split: option.splits)
  then show ?thesis by (simp add: task_txs_def bind_eq_Some_conv)
qed

lemma abandon_effect:
  assumes ok: "engine_ok {} e"
  shows "engine_ok {} (fst (abandon q e))" "opens (fst (abandon q e)) = opens e - {q}"
    "dones (snd (abandon q e)) = []" "wires e (fst (abandon q e)) (snd (abandon q e))"
    "sents (snd (abandon q e)) = []" "same_config e (fst (abandon q e))"
    "\<And>j. get_task (fst (abandon q e)) j =
       (case get_task e j of None \<Rightarrow> None | Some t \<Rightarrow> if owner_qid (t_owner t) = q then None else Some t)"
proof -
  define ids where "ids = map fst (filter (\<lambda>(_, t). owner_qid (t_owner t) = q) (tasks e))"
  define xs where "xs = task_txs ids e"
  define e' where "e' = e\<lparr>tasks := filter (\<lambda>(j, _). j \<notin> set ids) (tasks e),
    txs := filter (\<lambda>(x, _). x \<notin> set xs) (txs e), lookups := hm_remove (=) q (lookups e)\<rparr>"
  have wf: "hm_wf (=) (tasks e)" "linked {} e" "owned e" using ok by (auto simp: engine_ok_def)
  then have dist: "distinct ids" unfolding ids_def hm_wf_eq_distinct by (intro distinct_map_filter)
  have res: "abandon q e = (e', map Cancel xs)"
    using abandon_tasks_closed [OF dist, of e] by (simp add: abandon_def ids_def xs_def e'_def)
  have ids: "j \<in> set ids \<longleftrightarrow> (\<exists>t. get_task e j = Some t \<and> owner_qid (t_owner t) = q)" for j
    by (auto simp: ids_def in_set_iff_get [OF wf(1)] image_iff)
  have task: "get_task e' j = (if j \<in> set ids then None else get_task e j)" for j
    using ids.get_filter_key [of "\<lambda>j. j \<notin> set ids" j "tasks e"] by (simp add: e'_def)
  have tx: "get_tx e' x = (if x \<in> set xs then None else get_tx e x)" for x
    using ids.get_filter_key [of "\<lambda>x. x \<notin> set xs" x "txs e"] by (simp add: e'_def)
  have look: "get_lookup e' q' = (if q' = q then None else get_lookup e q')" for q'
    by (simp add: e'_def ids.get_remove)
  have xs: "x \<in> set xs \<longleftrightarrow> (\<exists>y. get_tx e x = Some y \<and> x_task y \<in> set ids)" for x
  proof
    assume "x \<in> set xs"
    then obtain i t where "i \<in> set ids" "get_task e i = Some t" "t_tx t = Some x"
      unfolding xs_def set_task_txs by blast
    then show "\<exists>y. get_tx e x = Some y \<and> x_task y \<in> set ids" using linked_task [OF wf(2), of i t] by auto
  next
    assume "\<exists>y. get_tx e x = Some y \<and> x_task y \<in> set ids"
    then show "x \<in> set xs" unfolding xs_def set_task_txs using linked_tx [OF wf(2), of x] by blast
  qed
  have nid: "next_id e' = next_id e" by (simp add: e'_def)
  have "linked {} e'"
  proof (rule linkedI)
    fix j t assume "get_task e' j = Some t"
    then have "get_task e j = Some t" "j \<notin> set ids" by (auto simp: task split: if_splits)
    then show "j < next_id e' \<and> task_ok t \<and> (t_tx t = None \<longleftrightarrow> j \<in> {}) \<and>
        (\<forall>x. t_tx t = Some x \<longrightarrow> 1 \<le> t_attempt t \<and> (\<exists>y. get_tx e' x = Some y \<and> x_task y = j))"
      using linked_task [OF wf(2), of j t] by (auto simp: tx xs nid)
  next
    fix x y assume "get_tx e' x = Some y"
    then show "x < next_id e' \<and> (\<exists>t. get_task e' (x_task y) = Some t \<and> t_tx t = Some x)"
      using linked_tx [OF wf(2), of x y] by (auto simp: tx task xs nid split: if_splits)
  qed
  moreover have owner: "(\<exists>t. get_task e' j = Some t \<and> t_owner t = ow) \<longleftrightarrow>
      (\<exists>t. get_task e j = Some t \<and> t_owner t = ow) \<and> owner_qid ow \<noteq> q" for j ow
    by (auto simp: task ids)
  moreover have "owned e'"
    using wf(3) unfolding owned_alt owner look by (simp, blast)
  moreover have "length (txs e') \<le> MAX_IN_FLIGHT"
    using ok le_trans [OF length_filter_le] by (auto simp: engine_ok_def e'_def)
  moreover have "hm_wf (=) (tasks e')" "hm_wf (=) (txs e')" "hm_wf (=) (lookups e')" "answers_cache e' = answers_cache e"
    using ok by (auto simp: engine_ok_def e'_def ids.wf_filter ids.wf_remove)
  ultimately show "engine_ok {} (fst (abandon q e))"
    using ok by (simp add: res engine_ok_def)
  show "opens (fst (abandon q e)) = opens e - {q}"
    unfolding res fst_conv opens_alt owner by blast
  have lists: "dones (map Cancel ys) = []" "sents (map Cancel ys) = []" "cancels (map Cancel ys) = ys" for ys
    by (induction ys) auto
  have "live e' = live e - set xs" by (auto simp: in_live tx split: if_splits)
  moreover have "\<forall>x \<in> set xs. x < next_id e" using xs linked_tx [OF wf(2)] by blast
  ultimately show "dones (snd (abandon q e)) = []" "wires e (fst (abandon q e)) (snd (abandon q e))"
    "sents (snd (abandon q e)) = []" "same_config e (fst (abandon q e))"
    using lists by (auto simp: res wires_def same_config_def e'_def)
  show "get_task (fst (abandon q e)) j =
       (case get_task e j of None \<Rightarrow> None | Some t \<Rightarrow> if owner_qid (t_owner t) = q then None else Some t)" for j
    using ids by (auto simp: res task split: option.splits)
qed

section \<open>Questions from the doors\<close>

text \<open>The effect of asking question \<open>q\<close>.\<close>

definition asked :: "qid \<Rightarrow> engine \<Rightarrow> engine \<Rightarrow> action list \<Rightarrow> bool" where
  "asked q e e' acts \<longleftrightarrow>
     engine_ok {} e' \<and> distinct (dones acts) \<and> set (dones acts) \<inter> opens e' = {} \<and>
     set (dones acts) \<union> opens e' = insert q (opens e) \<and> wires e e' acts \<and> cancels acts = [] \<and>
     same_config e e' \<and> cache_le (answers_cache e) (answers_cache e') \<and>
     (\<forall>j < next_id e. get_task e' j = get_task e j) \<and> (\<forall>x < next_id e. get_tx e' x = get_tx e x)"

lemma asked_immediately:
  "engine_ok {} e \<Longrightarrow> q \<notin> opens e \<Longrightarrow> asked q e e [Done q c]"
  by (auto simp: asked_def wires_def)

lemma bump_asked: "asked q (bump f e) e' acts = asked q e e' acts"
  by (simp add: asked_def wires_def opens_def live_def same_config_def)

lemma bump_ok [simp]: "engine_ok act (bump f e) = engine_ok act e"
  by (auto simp: engine_ok_def linked_def owned_def)

lemma bump_opens [simp]: "opens (bump f e) = opens e"
  by (simp add: opens_def)

lemma resolve_name_asked:
  assumes ok: "engine_ok {} e" and wf: "wf_name n" and new: "q \<notin> opens e"
  shows "no_panic (resolve_name q n rtype nc now e) (asked q e)"
proof -
  obtain i e1 where st: "start_task (OResolve q) n rtype nc e = (i, e1)" by fastforce
  note f = start_task_fields [OF st]
  have ok1: "engine_ok (set [i]) e1" using start_resolve_ok(1) [OF ok wf new st] by simp
  have t: "get_task e1 i = Some (new_task (OResolve q) n rtype nc)" using f by simp
  have "\<exists>ow n t nc. get_task e1 j = Some (new_task ow n t nc) \<and> wf_name n" if "j \<in> set [i]" for j
    using t wf that by auto
  from run_advance [OF ok1 _ this, of now] obtain e' acts where r:
    "run_each (\<lambda>i. advance i now) [i] e1 = Some (e', acts)" "engine_ok {} e'" "serves e1 e' acts"
    "wires e1 e' acts" "cancels acts = []" "same_config e1 e'" "cache_le (answers_cache e1) (answers_cache e')"
    "\<forall>j. j \<notin> set [i] \<longrightarrow> get_task e' j = get_task e1 j" "\<forall>x < next_id e1. get_tx e' x = get_tx e1 x"
    by auto
  have "advance i now e1 = Some (e', acts)" using r(1) by (auto split: option.splits)
  moreover have "asked q e e' acts"
    using r f start_resolve_ok(2) [OF ok wf new st] same_config_trans [of e e1 e']
    by (auto simp: asked_def serves_def wires_def live_def)
  ultimately show ?thesis using st by (simp add: resolve_name_def)
qed

lemma resolve_asked:
  assumes "engine_ok {} e" "q \<notin> opens e"
  shows "no_panic (resolve q s rtype nc now e) (asked q e)"
proof (cases "parse s")
  case (Inl err)
  then show ?thesis
    using asked_immediately [of "count_query e" q] assms by (simp add: resolve_def count_query_def bump_asked)
next
  case (Inr n)
  then show ?thesis
    using resolve_name_asked [of "count_query e" n q rtype nc now] parse_Inr_wf [OF Inr] assms
    by (simp add: resolve_def count_query_def bump_asked [abs_def] no_panic_def)
qed

lemma resolve_question_asked:
  assumes "engine_ok {} e" "q \<notin> opens e" "wf_name (q_name qu)"
  shows "no_panic (resolve_question q qu now e) (asked q e)"
  using resolve_name_asked [of "count_query e" "q_name qu" q "q_type qu" False now] assms
  by (simp add: resolve_question_def count_query_def bump_asked [abs_def] no_panic_def)

lemma reverse_asked:
  assumes "engine_ok {} e" "q \<notin> opens e"
  shows "no_panic (reverse q addr now e) (asked q e)"
proof -
  obtain n where "(case addr of V4 a \<Rightarrow> reverse_v4 a | V6 a \<Rightarrow> reverse_v6 a) = Some n"
    using reverse_v4_labels reverse_v6_labels by (cases addr) auto
  then show ?thesis using resolve_asked [OF assms] by (simp add: reverse_def)
qed

lemma lookup_asked:
  assumes ok: "engine_ok {} e" and new: "q \<notin> opens e"
  shows "no_panic (lookup_addresses q s fam now e) (asked q e)"
proof (cases "parse s")
  case (Inl err)
  then show ?thesis
    using asked_immediately [of "count_query e" q] assms
    by (simp add: lookup_addresses_def count_query_def bump_asked)
next
  case (Inr n)
  define e0 where "e0 = count_query e"
  have ok0: "engine_ok {} e0" "q \<notin> opens e0" using ok new by (simp_all add: e0_def count_query_def)
  obtain pending e1 where st: "start_tasks q n (family_types fam) e0 = (pending, e1)" by fastforce
  define e2 where "e2 = e1\<lparr>lookups := hm_insert (=) q \<lparr>l_name = n, l_pending = pending, l_results = []\<rparr> (lookups e1)\<rparr>"
  have ne: "family_types fam \<noteq> []" by (cases fam) auto
  note s = start_lookup_ok [OF ok0(1) parse_Inr_wf [OF Inr] ok0(2) ne st e2_def]
  have "\<exists>ow n t nc. get_task e2 j = Some (new_task ow n t nc) \<and> wf_name n" if "j \<in> set pending" for j
    using s(4) [OF that] parse_Inr_wf [OF Inr] by blast
  from run_advance [OF s(1,3) this, of now] obtain e' acts where r:
    "run_each (\<lambda>i. advance i now) pending e2 = Some (e', acts)" "engine_ok {} e'" "serves e2 e' acts"
    "wires e2 e' acts" "cancels acts = []" "same_config e2 e'" "cache_le (answers_cache e2) (answers_cache e')"
    "\<forall>j. j \<notin> set pending \<longrightarrow> get_task e' j = get_task e2 j" "\<forall>x < next_id e2. get_tx e' x = get_tx e2 x"
    by auto
  have "j \<notin> set pending" if "j < next_id e0" for j
    using start_tasks_spec [OF st _ parse_Inr_wf [OF Inr], of "{}"] ok0(1) that by (auto simp: engine_ok_core)
  then have "asked q e0 e' acts"
    using r s same_config_trans [of e0 e2 e']
    by (auto simp: asked_def serves_def wires_def)
  then show ?thesis
    using r(1) Inr st by (simp add: lookup_addresses_def e2_def e0_def count_query_def bump_asked Let_def)
qed

end
