(* ===== verification/Engine_Machine.thy ===== *)
theory Engine_Machine
  imports Engine_Events
begin

text \<open>
  The engine as a state machine over the public operations of \<open>resolvd/src/engine.rs\<close>: events,
  reachable states (in which every hash map may be reordered at any time), and the refinement
  of an abstract desk that only knows which questions are open and which transactions are alive.
\<close>

section \<open>Events\<close>

datatype event =
    EResolve qid bytes u16 bool
  | EQuestion qid question
  | ELookup qid bytes family
  | EReverse qid ip_addr
  | EAbandon qid
  | EReceived txid bytes
  | EFailed txid
  | ELocalFailed txid
  | ETick
  | ESetScopes "scope list"
  | ESetFallback "ip_addr list" "name list"
  | ESetHostname "bytes option"
  | ESetHosts "(name \<times> ip_addr list) list"
  | EFlush

fun engine_step :: "instant \<Rightarrow> event \<Rightarrow> engine \<Rightarrow> result" where
  "engine_step now (EResolve q s rtype nc) e = resolve q s rtype nc now e"
| "engine_step now (EQuestion q qu) e = resolve_question q qu now e"
| "engine_step now (ELookup q s fam) e = lookup_addresses q s fam now e"
| "engine_step now (EReverse q addr) e = reverse q addr now e"
| "engine_step now (EAbandon q) e = Some (abandon q e)"
| "engine_step now (EReceived x bs) e = received x bs now e"
| "engine_step now (EFailed x) e = failed x now e"
| "engine_step now (ELocalFailed x) e = local_failed x now e"
| "engine_step now ETick e = tick now e"
| "engine_step now (ESetScopes ss) e = Some (set_scopes ss e, [])"
| "engine_step now (ESetFallback servers domains) e = Some (set_fallback servers domains e, [])"
| "engine_step now (ESetHostname h) e = Some (set_hostname h e, [])"
| "engine_step now (ESetHosts hs) e = Some (set_hosts hs e, [])"
| "engine_step now EFlush e = Some (flush e, [])"

text \<open>
  A question is asked under an identifier that is not open, and a decoded question carries a
  well-formed name (every name the decoder returns is).
\<close>

fun event_ok :: "event \<Rightarrow> engine \<Rightarrow> bool" where
  "event_ok (EResolve q s rtype nc) e \<longleftrightarrow> q \<notin> opens e"
| "event_ok (EQuestion q qu) e \<longleftrightarrow> q \<notin> opens e \<and> wf_name (q_name qu)"
| "event_ok (ELookup q s fam) e \<longleftrightarrow> q \<notin> opens e"
| "event_ok (EReverse q addr) e \<longleftrightarrow> q \<notin> opens e"
| "event_ok _ e \<longleftrightarrow> True"

section \<open>The abstract desk\<close>

record desk =
  d_open :: "qid set"
  d_wire :: "txid set"

definition desk_of :: "engine \<Rightarrow> desk" where
  "desk_of e = \<lparr>d_open = opens e, d_wire = live e\<rparr>"

fun asks :: "event \<Rightarrow> qid set" where
  "asks (EResolve q s rtype nc) = {q}"
| "asks (EQuestion q qu) = {q}"
| "asks (ELookup q s fam) = {q}"
| "asks (EReverse q addr) = {q}"
| "asks _ = {}"

fun drops :: "event \<Rightarrow> qid set" where
  "drops (EAbandon q) = {q}"
| "drops _ = {}"

text \<open>The transactions the transport itself reports as over.\<close>

fun over :: "engine \<Rightarrow> event \<Rightarrow> txid set" where
  "over e (EReceived x bs) = (if response_matches e x bs then {x} else {})"
| "over e (EFailed x) = {x}"
| "over e (ELocalFailed x) = {x}"
| "over e _ = {}"

text \<open>
  The contract: an answer is given only to a question that is open or just asked, once; a
  question that is neither answered nor dropped stays open; a transaction is sent under a new
  identifier and is alive until the transport reports it over or is told to cancel it.
\<close>

definition desk_step ::
  "qid set \<Rightarrow> qid set \<Rightarrow> txid set \<Rightarrow> desk \<Rightarrow> action list \<Rightarrow> desk \<Rightarrow> bool" where
  "desk_step new gone ended_txs d acts d' \<longleftrightarrow>
     distinct (dones acts) \<and> set (dones acts) \<subseteq> d_open d \<union> new - gone \<and>
     d_open d' = d_open d \<union> new - gone - set (dones acts) \<and>
     distinct (sents acts) \<and> set (sents acts) \<inter> d_wire d = {} \<and>
     set (sents acts) \<inter> set (cancels acts) = {} \<and>
     d_wire d' = d_wire d - ended_txs \<union> set (sents acts) - set (cancels acts)"

section \<open>Configuration changes\<close>

text \<open>
  A change of configuration touches no question and no transaction; at most it marks tasks as
  not to be cached and hides cache entries.
\<close>

definition reconfigured :: "engine \<Rightarrow> engine \<Rightarrow> bool" where
  "reconfigured e e' \<longleftrightarrow>
     txs e' = txs e \<and> lookups e' = lookups e \<and> next_id e' = next_id e \<and>
     cache_le (answers_cache e) (answers_cache e') \<and> map fst (tasks e') = map fst (tasks e) \<and>
     (\<forall>j t. get_task e j = Some t \<longrightarrow> (\<exists>b. get_task e' j = Some (t\<lparr>t_cache_invalidated := b\<rparr>) \<and>
        (t_cache_invalidated t \<longrightarrow> b)))"

lemma get_map_values:
  "hm_get (=) j (map (\<lambda>(i, t). (i, f t)) xs) = map_option f (hm_get (=) j xs)"
  by (induction xs) auto

lemma invalid_update_id: "t\<lparr>t_cache_invalidated := t_cache_invalidated t\<rparr> = (t :: task)"
  by simp

lemma reconfigured_refl [simp]: "reconfigured e e"
  by (auto simp: reconfigured_def) (metis invalid_update_id)

lemma reconfigured_trans:
  assumes "reconfigured a b" "reconfigured b c"
  shows "reconfigured a c"
proof -
  have "\<exists>v. get_task c j = Some (t\<lparr>t_cache_invalidated := v\<rparr>) \<and> (t_cache_invalidated t \<longrightarrow> v)"
    if t: "get_task a j = Some t" for j t
  proof -
    obtain u where u: "get_task b j = Some (t\<lparr>t_cache_invalidated := u\<rparr>)" "t_cache_invalidated t \<longrightarrow> u"
      using assms(1) t by (auto simp: reconfigured_def)
    then obtain v where "get_task c j = Some (t\<lparr>t_cache_invalidated := u, t_cache_invalidated := v\<rparr>)" "u \<longrightarrow> v"
      using assms(2) by (fastforce simp: reconfigured_def)
    with u show ?thesis by auto
  qed
  then show ?thesis using assms cache_le_trans by (auto simp: reconfigured_def)
qed

lemma reconfigured_get:
  "reconfigured e e' \<Longrightarrow> get_task e' j = None \<longleftrightarrow> get_task e j = None"
  using get_in_keys [of j "tasks e"] get_in_keys [of j "tasks e'"]
  unfolding reconfigured_def by (metis set_map)

lemma reconfigured_task:
  "reconfigured e e' \<Longrightarrow> get_task e j = Some t \<Longrightarrow>
   \<exists>b. get_task e' j = Some (t\<lparr>t_cache_invalidated := b\<rparr>) \<and> (t_cache_invalidated t \<longrightarrow> b)"
  by (simp add: reconfigured_def)

lemma reconfigured_owner:
  assumes "reconfigured e e'"
  shows "(\<exists>t. get_task e' j = Some t \<and> t_owner t = ow) \<longleftrightarrow> (\<exists>t. get_task e j = Some t \<and> t_owner t = ow)"
  using reconfigured_get [OF assms, of j] assms
  by (cases "get_task e j") (fastforce simp: reconfigured_def)+

lemma reconfigured_ok:
  assumes r: "reconfigured e e'" and ok: "engine_ok {} e"
  shows "engine_ok {} e'" "opens e' = opens e" "live e' = live e"
proof -
  have link: "linked {} e" using ok by (simp add: engine_ok_def)
  have "linked {} e'"
  proof (rule linkedI)
    fix j u assume u: "get_task e' j = Some u"
    then obtain t where t: "get_task e j = Some t" using reconfigured_get [OF r, of j] by auto
    then obtain b where "u = t\<lparr>t_cache_invalidated := b\<rparr>" using reconfigured_task [OF r] u by fastforce
    then show "j < next_id e' \<and> task_ok u \<and> (t_tx u = None \<longleftrightarrow> j \<in> {}) \<and>
        (\<forall>x. t_tx u = Some x \<longrightarrow> 1 \<le> t_attempt u \<and> (\<exists>y. get_tx e' x = Some y \<and> x_task y = j))"
      using linked_task [OF link t] r by (auto simp: reconfigured_def task_ok_def)
  next
    fix x y assume "get_tx e' x = Some y"
    then show "x < next_id e' \<and> (\<exists>t. get_task e' (x_task y) = Some t \<and> t_tx t = Some x)"
      using linked_tx [OF link, of x y] r by (fastforce simp: reconfigured_def)
  qed
  moreover have "owned e'"
    using ok r unfolding engine_ok_def owned_alt reconfigured_owner [OF r] by (simp add: reconfigured_def)
  ultimately show "engine_ok {} e'"
    using ok r by (auto simp: engine_ok_def reconfigured_def hm_wf_eq_distinct cache_le_def)
  show "opens e' = opens e" by (rule opens_cong) (rule reconfigured_owner [OF r])
  show "live e' = live e" using r by (simp add: reconfigured_def live_def)
qed

lemma cache_le_flush: "cache_le c (flush_scope s c)"
  by (auto simp: cache_le_def wf_flush_scope live_entry_flush_scope split: if_splits)

lemma cache_le_clear: "cache_le c (cache_clear c)"
  by (simp add: cache_le_def wf_cache_clear live_entry_clear)

lemma reconfigured_invalidate: "reconfigured e (invalidate_scope_cache sid e)"
proof -
  have "get_task (invalidate_scope_cache sid e) j =
      map_option (\<lambda>t. if t_scope t = Some sid then t\<lparr>t_cache_invalidated := True\<rparr> else t) (get_task e j)" for j
    using get_map_values [of j _ "tasks e"] by (simp add: invalidate_scope_cache_def)
  moreover have "\<exists>b. (if P then t\<lparr>t_cache_invalidated := True\<rparr> else t) = t\<lparr>t_cache_invalidated := b\<rparr> \<and>
      (t_cache_invalidated t \<longrightarrow> b)" for P and t :: task
    by (cases P) (auto intro: exI [of _ "t_cache_invalidated t"])
  ultimately show ?thesis
    by (auto simp: reconfigured_def invalidate_scope_cache_def cache_le_flush case_prod_unfold)
qed

lemma reconfigured_fold: "reconfigured e (fold invalidate_scope_cache sids e)"
  by (induction sids arbitrary: e) (auto intro: reconfigured_trans reconfigured_invalidate)

lemma reconfigured_flush: "reconfigured e (flush e)"
  using get_map_values [of _ "\<lambda>t. t\<lparr>t_cache_invalidated := True\<rparr>" "tasks e"]
  by (auto simp: reconfigured_def flush_def cache_le_clear case_prod_unfold)

lemma reconfigured_config:
  "reconfigured e e' \<Longrightarrow> reconfigured e (e'\<lparr>scopes := ss\<rparr>)"
  "reconfigured e e' \<Longrightarrow> reconfigured e (e'\<lparr>fallback_servers := sv, fallback_domains := ds\<rparr>)"
  "reconfigured e e' \<Longrightarrow> reconfigured e (e'\<lparr>hostname := h\<rparr>)"
  "reconfigured e e' \<Longrightarrow> reconfigured e (e'\<lparr>hosts := hs\<rparr>)"
  by (simp_all add: reconfigured_def)

lemma reconfigured_step:
  "reconfigured e (set_scopes ss e)" "reconfigured e (set_fallback sv ds e)"
  "reconfigured e (set_hostname h e)" "reconfigured e (set_hosts hs e)" "reconfigured e (flush e)"
proof -
  show "reconfigured e (set_scopes ss e)"
    unfolding set_scopes_def Let_def by (intro reconfigured_config reconfigured_fold)
  show "reconfigured e (set_fallback sv ds e)"
    unfolding set_fallback_def Let_def by (intro reconfigured_config) (simp add: reconfigured_invalidate)
  show "reconfigured e (set_hostname h e)" "reconfigured e (set_hosts hs e)" "reconfigured e (flush e)"
    unfolding set_hostname_def set_hosts_def by (intro reconfigured_config reconfigured_refl reconfigured_flush)+
qed
section \<open>The effect of an event\<close>

definition effect :: "event \<Rightarrow> engine \<Rightarrow> engine \<Rightarrow> action list \<Rightarrow> bool" where
  "effect ev e e' acts \<longleftrightarrow>
     engine_ok {} e' \<and> next_id e \<le> next_id e' \<and>
     desk_step (asks ev) (drops ev) (over e ev) (desk_of e) acts (desk_of e') \<and>
     (\<forall>x \<in> set (sents acts). next_id e \<le> x \<and> x < next_id e') \<and>
     (\<forall>x \<in> set (cancels acts). x < next_id e)"

lemma live_below: "engine_ok act e \<Longrightarrow> x \<in> live e \<Longrightarrow> x < next_id e"
  using linked_tx [of act e x] by (auto simp: engine_ok_def in_live)

lemma asked_effect:
  assumes ok: "engine_ok {} e" and "asked q e e' acts" "asks ev = {q}" "drops ev = {}" "over e ev = {}"
  shows "effect ev e e' acts"
proof -
  have "x \<notin> live e" if "x \<in> set (sents acts)" for x
    using that assms(2) live_below [OF ok, of x] by (force simp: asked_def wires_def)
  then show ?thesis using assms(2-) by (auto simp: effect_def desk_step_def desk_of_def asked_def wires_def)
qed

lemma ended_effect:
  assumes ok: "engine_ok {} e" and "ended x e e' acts" "asks ev = {}" "drops ev = {}" "over e ev = {x}"
  shows "effect ev e e' acts"
proof -
  have "s \<notin> live e" if "s \<in> set (sents acts)" for s
    using that assms(2) live_below [OF ok, of s] by (force simp: ended_def)
  then show ?thesis using assms(2-) by (auto simp: effect_def desk_step_def desk_of_def ended_def serves_def)
qed

lemma swept_effect:
  assumes ok: "engine_ok {} e" and "swept e e' acts" "asks ev = {}" "drops ev = {}" "over e ev = {}"
  shows "effect ev e e' acts"
proof -
  have "s \<notin> live e" "s \<notin> set (cancels acts)" if "s \<in> set (sents acts)" for s
    using that assms(2) live_below [OF ok, of s] by (force simp: swept_def wires_def)+
  then show ?thesis
    using assms(2-) by (auto simp: effect_def desk_step_def desk_of_def swept_def serves_def wires_def)
qed

lemma reconfigured_effect:
  assumes "engine_ok {} e" "reconfigured e e'" "asks ev = {}" "drops ev = {}" "over e ev = {}"
  shows "effect ev e e' []"
  using assms reconfigured_ok [OF assms(2,1)]
  by (simp add: effect_def desk_step_def desk_of_def) (simp add: reconfigured_def)

text \<open>No event panics, and every event keeps the invariant and the contract of the desk.\<close>

lemma step_effect:
  assumes ok: "engine_ok {} e" and ev: "event_ok ev e"
  shows "no_panic (engine_step now ev e) (effect ev e)"
proof (cases ev)
  case (EResolve q s rtype nc)
  then show ?thesis using resolve_asked [OF ok, of q s rtype nc now] asked_effect [OF ok, of q _ _ ev] ev
    by (auto simp: no_panic_def split: option.splits)
next
  case (EQuestion q qu)
  then show ?thesis using resolve_question_asked [OF ok, of q qu now] asked_effect [OF ok, of q _ _ ev] ev
    by (auto simp: no_panic_def split: option.splits)
next
  case (ELookup q s fam)
  then show ?thesis using lookup_asked [OF ok, of q s fam now] asked_effect [OF ok, of q _ _ ev] ev
    by (auto simp: no_panic_def split: option.splits)
next
  case (EReverse q addr)
  then show ?thesis using reverse_asked [OF ok, of q addr now] asked_effect [OF ok, of q _ _ ev] ev
    by (auto simp: no_panic_def split: option.splits)
next
  case (EAbandon q)
  then show ?thesis using abandon_effect [OF ok, of q]
    by (cases "abandon q e") (auto simp: effect_def desk_step_def desk_of_def wires_def)
next
  case (EReceived x bs)
  show ?thesis
  proof (cases "response_matches e x bs")
    case True
    then show ?thesis using received_ended [OF ok, of x bs now] ended_effect [OF ok, of x _ _ ev] EReceived
      by (auto simp: no_panic_def split: option.splits)
  next
    case False
    then have "received x bs now e = Some (e, [])"
      using received_ended [OF ok, of x bs now] by (auto simp: no_panic_def split: option.splits)
    then show ?thesis using reconfigured_effect [OF ok reconfigured_refl, of ev] EReceived False by simp
  qed
next
  case (EFailed x)
  then show ?thesis using failed_ended [OF ok, of x now] ended_effect [OF ok, of x _ _ ev]
    by (auto simp: no_panic_def split: option.splits)
next
  case (ELocalFailed x)
  then show ?thesis using local_failed_ended [OF ok, of x now] ended_effect [OF ok, of x _ _ ev]
    by (auto simp: no_panic_def split: option.splits)
next
  case ETick
  then show ?thesis using tick_swept [OF ok, of now] swept_effect [OF ok, of _ _ ev]
    by (auto simp: no_panic_def split: option.splits)
qed (simp_all add: reconfigured_effect [OF ok] reconfigured_step)

section \<open>Reachable states\<close>

definition rehashed :: "engine \<Rightarrow> engine \<Rightarrow> bool" where
  "rehashed e e' \<longleftrightarrow>
     mset (tasks e') = mset (tasks e) \<and> mset (txs e') = mset (txs e) \<and> mset (lookups e') = mset (lookups e) \<and>
     mset (hosts e') = mset (hosts e) \<and> mset (demoted e') = mset (demoted e) \<and>
     mset (entries (answers_cache e')) = mset (entries (answers_cache e)) \<and>
     e' = e\<lparr>tasks := tasks e', txs := txs e', lookups := lookups e', hosts := hosts e', demoted := demoted e',
            answers_cache := answers_cache e'\<rparr>"

inductive reachable :: "(nat \<Rightarrow> bytes option) \<Rightarrow> engine \<Rightarrow> bool" for ent where
  start: "reachable ent (with_entropy ent)"
| step: "reachable ent e \<Longrightarrow> event_ok ev e \<Longrightarrow> engine_step now ev e = Some (e', acts) \<Longrightarrow> reachable ent e'"
| rehash: "reachable ent e \<Longrightarrow> rehashed e e' \<Longrightarrow> reachable ent e'"

lemma distinct_keys_mset: "mset xs = mset ys \<Longrightarrow> hm_wf (=) xs \<longleftrightarrow> hm_wf (=) ys"
  unfolding hm_wf_eq_distinct by (metis mset_eq_imp_distinct_iff mset_map)

lemma get_mset:
  "mset xs = mset ys \<Longrightarrow> hm_wf (=) xs \<Longrightarrow> hm_get (=) k xs = hm_get (=) k ys"
proof -
  assume eq: "mset xs = mset ys" and wf: "hm_wf (=) xs"
  then have wf': "hm_wf (=) ys" using distinct_keys_mset by blast
  have "hm_get (=) k xs = Some v \<longleftrightarrow> hm_get (=) k ys = Some v" for v
    using in_set_iff_get [OF wf, of k v] in_set_iff_get [OF wf', of k v] mset_eq_setD [OF eq] by simp
  then show ?thesis by (metis not_Some_eq)
qed

lemma cache_wf_mset:
  assumes "mset (entries c') = mset (entries c)" "cache_wf c"
  shows "cache_wf c'"
proof -
  have "length (filter P (entries c')) = length (filter P (entries c))" for P
    using assms(1) by (metis mset_filter size_mset)
  moreover have "set (entries c') = set (entries c)" using assms(1) by (rule mset_eq_setD)
  moreover have "length (entries c') = length (entries c)" using assms(1) by (metis size_mset)
  ultimately show ?thesis using assms(2) by (simp add: cache_wf_def keys.wf_iff_once)
qed

lemma rehashed_ok:
  assumes r: "rehashed e e'" and ok: "engine_ok {} e"
  shows "engine_ok {} e'"
proof -
  have wf: "hm_wf (=) (tasks e)" "hm_wf (=) (txs e)" "hm_wf (=) (lookups e)" using ok by (auto simp: engine_ok_def)
  have get: "get_task e' j = get_task e j" "get_tx e' x = get_tx e x" "get_lookup e' q = get_lookup e q" for j x q
    using r wf get_mset [of "tasks e" "tasks e'"] get_mset [of "txs e" "txs e'"] get_mset [of "lookups e" "lookups e'"]
    by (simp_all add: rehashed_def)
  have nid: "next_id e' = next_id e" using r unfolding rehashed_def by (metis engine.select_convs engine.surjective engine.update_convs)
  have len: "length (txs e') = length (txs e)" using r unfolding rehashed_def by (metis size_mset)
  have "linked {} e'" "owned e'" using ok unfolding engine_ok_def linked_def owned_def get nid by auto
  moreover have "hm_wf (=) (tasks e')" "hm_wf (=) (txs e')" "hm_wf (=) (lookups e')"
    using r wf distinct_keys_mset unfolding rehashed_def by blast+
  ultimately show ?thesis using ok r len cache_wf_mset by (auto simp: engine_ok_def rehashed_def)
qed

lemma start_ok: "engine_ok {} (with_entropy ent)"
  by (simp add: engine_ok_def with_entropy_def linked_def owned_def wf_cache_new)

lemma reachable_ok: "reachable ent e \<Longrightarrow> engine_ok {} e"
proof (induction rule: reachable.induct)
  case (step e ev now e' acts)
  then show ?case using step_effect [of e ev now] by (simp add: effect_def)
qed (auto intro: start_ok rehashed_ok)

section \<open>Progress\<close>

definition potential :: "task \<Rightarrow> nat" where
  "potential t = length (t_candidates t) + (MAX_ATTEMPTS - t_attempt t)"

text \<open>Every end of a transaction answers the question or uses up some of its potential.\<close>

lemma progress_potential:
  assumes h: "handles (progress_at t) i now e res" and ok: "engine_ok {i} e" and t: "get_task e i = Some t0"
    and res: "res = Some (e', acts)" and t': "get_task e' i = Some t'"
  shows "potential t' < potential t"
proof -
  have "handled (progress_at t) i now e (e', acts)" using h res by simp
  then obtain e1 u server tcp where u: "progress_at t e1 u server tcp" "t_attempt u < MAX_ATTEMPTS"
    "t' = u\<lparr>t_attempt := t_attempt u + 1, t_tx := Some (next_id e)\<rparr>"
    by (rule handled_survives [of "progress_at t" i now e e' acts "{}" t0 t']) (use ok t t' in auto)
  then show ?thesis by (auto simp: progress_at_def potential_def)
qed

lemma retry_progress: "retry_at t e1 u s b \<Longrightarrow> progress_at t e1 u s b"
  by (simp add: retry_at_def progress_at_def)

lemma released_get:
  "get_task e (x_task y) = Some t \<Longrightarrow>
   get_task ((release x (x_task y) e)\<lparr>answers_cache := c\<rparr>) (x_task y) = Some (t\<lparr>t_tx := None\<rparr>)"
  by (simp add: release_fields)

lemma released_ok:
  "engine_ok {} e \<Longrightarrow> get_tx e x = Some y \<Longrightarrow> cache_wf c \<Longrightarrow>
   engine_ok {x_task y} ((release x (x_task y) e)\<lparr>answers_cache := c\<rparr>)"
  by (rule engine_ok_cong [OF _ _ _ _ _ release_ok(1)]) simp_all

lemma failed_progress:
  assumes ok: "engine_ok {} e" and y: "get_tx e x = Some y" and t: "get_task e (x_task y) = Some t"
    and "failed x now e = Some (e', acts) \<or> local_failed x now e = Some (e', acts)"
    and t': "get_task e' (x_task y) = Some t'"
  shows "potential t' < potential t"
  using assms(4)
proof
  assume f: "failed x now e = Some (e', acts)"
  have "handles (progress_at t) (x_task y) now (release x (x_task y) e) (failed x now e)"
    using failed_handles [OF ok y t, of now] retry_progress by (rule handles_mono)
  from this release_ok(1) [OF ok y] _ f t' show ?thesis
    by (rule progress_potential) (use t in \<open>simp add: release_fields\<close>)
next
  assume f: "local_failed x now e = Some (e', acts)"
  have "handles (progress_at t) (x_task y) now (release x (x_task y) e) (local_failed x now e)"
    using local_failed_handles [OF ok y t, of now] retry_progress by (rule handles_mono)
  from this release_ok(1) [OF ok y] _ f t' show ?thesis
    by (rule progress_potential) (use t in \<open>simp add: release_fields\<close>)
qed

lemma received_progress:
  assumes ok: "engine_ok {} e" and y: "get_tx e x = Some y" and t: "get_task e (x_task y) = Some t"
    and m: "response_matches e x bs" and r: "received x bs now e = Some (e', acts)"
    and t': "get_task e' (x_task y) = Some t'"
  shows "potential t' < potential t"
proof -
  obtain msg where msg: "matching_response e x bs = Some msg" using m by (auto simp: response_matches_def)
  obtain c where c: "cache_wf c"
    "handles (progress_at t) (x_task y) now ((release x (x_task y) e)\<lparr>answers_cache := c\<rparr>) (received x bs now e)"
    by (rule received_handles [OF ok y t msg])
  show ?thesis
    by (rule progress_potential [OF c(2) released_ok [OF ok y c(1)] released_get [OF t] r t'])
qed

section \<open>Timeouts\<close>

text \<open>The fate of task \<open>j\<close> when the transactions \<open>xs\<close> expire.\<close>

definition retried :: "instant \<Rightarrow> txid set \<Rightarrow> engine \<Rightarrow> engine \<Rightarrow> bool" where
  "retried now xs e e' \<longleftrightarrow>
     (\<forall>j t'. get_task e' j = Some t' \<longrightarrow> (\<exists>t. get_task e j = Some t \<and> same_asker t t' \<and>
        (case t_tx t of
           None \<Rightarrow> t' = t
         | Some x \<Rightarrow> if x \<in> xs then t_attempt t' = t_attempt t + 1 \<and>
             (\<exists>x' y'. t_tx t' = Some x' \<and> get_tx e' x' = Some y' \<and> x_deadline y' = now + SERVER_TIMEOUT)
           else t' = t)))"

lemma same_asker_refl [simp]: "same_asker t t"
  by (simp add: same_asker_def)

lemma same_asker_trans: "same_asker a b \<Longrightarrow> same_asker b c \<Longrightarrow> same_asker a c"
  by (simp add: same_asker_def)

lemma retried_task:
  assumes ok: "engine_ok {} e" and y: "get_tx e x = Some y" and t: "get_task e (x_task y) = Some t"
    and h: "handled (retry_at t) (x_task y) now (release x (x_task y) e) (e1, acts)" and en: "ended x e e1 acts"
  shows "cache_le (answers_cache e) (answers_cache e1)"
    "\<And>t'. get_task e1 (x_task y) = Some t' \<Longrightarrow> \<exists>y'. same_asker t t' \<and>
       t_attempt t' = t_attempt t + 1 \<and> t_tx t' = Some (next_id e) \<and> get_tx e1 (next_id e) = Some y' \<and>
       x_deadline y' = now + SERVER_TIMEOUT \<and> next_id e < next_id e1"
proof -
  let ?r = "release x (x_task y) e"
  have r: "engine_ok (insert (x_task y) {}) ?r" "get_task ?r (x_task y) = Some (t\<lparr>t_tx := None\<rparr>)" "next_id ?r = next_id e"
    using release_ok(1) [OF ok y] t by (auto simp: release_fields)
  have "worked {} (x_task y) ?r e1 acts" using handled_worked [OF h r(1) _ r(2)] by simp
  then show "cache_le (answers_cache e) (answers_cache e1)" by (simp add: worked_def release_fields)
  fix t' assume t': "get_task e1 (x_task y) = Some t'"
  obtain e2 u n d payload server tcp where u: "keeps (t\<lparr>t_tx := None\<rparr>) u" "retry_at t e2 u server tcp"
    "t' = u\<lparr>t_attempt := t_attempt u + 1, t_tx := Some (next_id ?r)\<rparr>"
    "get_tx e1 (next_id ?r) = Some \<lparr>x_task = x_task y, x_dns_id = d, x_question = question_new n (t_type (t\<lparr>t_tx := None\<rparr>)),
       x_server = server, x_tcp = tcp, x_deadline = now + SERVER_TIMEOUT\<rparr>"
    by (rule handled_survives [OF h r(1) _ r(2) t']) auto
  have "next_id e < next_id e1"
  proof (rule live_below)
    show "engine_ok {} e1" using en by (simp add: ended_def)
    show "next_id e \<in> live e1" using u(4) r(3) in_live by metis
  qed
  then show "\<exists>y'. same_asker t t' \<and>
       t_attempt t' = t_attempt t + 1 \<and> t_tx t' = Some (next_id e) \<and> get_tx e1 (next_id e) = Some y' \<and>
       x_deadline y' = now + SERVER_TIMEOUT \<and> next_id e < next_id e1"
    using u r(3) by (auto simp: retry_at_def same_asker_def keeps_def)
qed

lemma expire_task:
  assumes ok: "engine_ok {} e" and y: "get_tx e x = Some y" and ex: "expire now x e = Some (e1, as)"
  shows "\<And>j. j \<noteq> x_task y \<Longrightarrow> get_task e1 j = get_task e j"
    "\<And>t'. get_task e1 (x_task y) = Some t' \<Longrightarrow> \<exists>t y'. get_task e (x_task y) = Some t \<and> same_asker t t' \<and>
       t_attempt t' = t_attempt t + 1 \<and> t_tx t' = Some (next_id e) \<and> get_tx e1 (next_id e) = Some y' \<and>
       x_deadline y' = now + SERVER_TIMEOUT \<and> next_id e < next_id e1"
    "\<And>x'. x' < next_id e \<Longrightarrow> x' \<noteq> x \<Longrightarrow> get_tx e1 x' = get_tx e x'"
    "cache_le (answers_cache e) (answers_cache e1)"
proof -
  obtain acts where f: "failed x now e = Some (e1, acts)" using ex by (auto simp: expire_def)
  have en: "ended x e e1 acts" using failed_ended [OF ok, of x now] f by simp
  obtain t where t: "get_task e (x_task y) = Some t" by (rule engine_ok_tx [OF ok y])
  have h: "handled (retry_at t) (x_task y) now (release x (x_task y) e) (e1, acts)"
    using failed_handles [OF ok y t, of now] f by simp
  note rt = retried_task [OF ok y t h en]
  show "cache_le (answers_cache e) (answers_cache e1)" by (rule rt(1))
  show "get_task e1 j = get_task e j" if "j \<noteq> x_task y" for j using en y that by (simp add: ended_def)
  show "get_tx e1 x' = get_tx e x'" if "x' < next_id e" "x' \<noteq> x" for x' using en that by (simp add: ended_def)
  fix t' assume "get_task e1 (x_task y) = Some t'"
  from rt(2) [OF this] t show "\<exists>t y'. get_task e (x_task y) = Some t \<and> same_asker t t' \<and>
       t_attempt t' = t_attempt t + 1 \<and> t_tx t' = Some (next_id e) \<and> get_tx e1 (next_id e) = Some y' \<and>
       x_deadline y' = now + SERVER_TIMEOUT \<and> next_id e < next_id e1" by blast
qed

lemma run_expire_tasks:
  assumes "engine_ok {} e" "distinct xs" "set xs \<subseteq> live e" "run_each (expire now) xs e = Some (e', acts)"
  shows "retried now (set xs) e e' \<and> (\<forall>x < next_id e. x \<notin> set xs \<longrightarrow> get_tx e' x = get_tx e x) \<and>
    cache_le (answers_cache e) (answers_cache e')"
  using assms
proof (induction xs arbitrary: e acts)
  case Nil
  have "retried now {} e e" unfolding retried_def by (auto split: option.splits)
  then show ?case using Nil by simp
next
  case (Cons x xs)
  obtain y where y: "get_tx e x = Some y" using Cons.prems(3) by (auto simp: in_live)
  obtain t where t: "get_task e (x_task y) = Some t" "t_tx t = Some x" "x < next_id e"
    by (rule engine_ok_tx [OF Cons.prems(1) y])
  obtain e1 as bs where e1: "expire now x e = Some (e1, as)" "run_each (expire now) xs e1 = Some (e', bs)"
    using Cons.prems(4) by (auto split: option.splits)
  note ex = expire_task [OF Cons.prems(1) y e1(1)]
  have sw: "swept e e1 as" using expire_swept [OF Cons.prems(1) t(3), of now] e1(1) by simp
  have below: "\<forall>x' \<in> set xs. x' < next_id e" using live_below [OF Cons.prems(1)] Cons.prems(3) by auto
  have le: "next_id e \<le> next_id e1" using sw by (simp add: swept_def wires_def)
  have keep: "get_tx e1 x' = get_tx e x'" if "x' \<in> set xs" for x' using ex(3) below that Cons.prems(2) by auto
  have "set xs \<subseteq> live e1" using keep Cons.prems(3) by (auto simp: in_live)
  from Cons.IH [OF _ _ this e1(2)] have IH: "retried now (set xs) e1 e'"
    "\<forall>x < next_id e1. x \<notin> set xs \<longrightarrow> get_tx e' x = get_tx e1 x" "cache_le (answers_cache e1) (answers_cache e')"
    using sw Cons.prems(2) by (auto simp: swept_def)
  have "retried now (set (x # xs)) e e'"
    unfolding retried_def
  proof (intro allI impI)
    fix j t' assume "get_task e' j = Some t'"
    then obtain t1 where t1: "get_task e1 j = Some t1" "same_asker t1 t'" "case t_tx t1 of None \<Rightarrow> t' = t1
         | Some x \<Rightarrow> if x \<in> set xs then t_attempt t' = t_attempt t1 + 1 \<and>
             (\<exists>x' y'. t_tx t' = Some x' \<and> get_tx e' x' = Some y' \<and> x_deadline y' = now + SERVER_TIMEOUT) else t' = t1"
      using IH(1) unfolding retried_def by blast
    show "\<exists>t. get_task e j = Some t \<and> same_asker t t' \<and> (case t_tx t of None \<Rightarrow> t' = t
         | Some z \<Rightarrow> if z \<in> set (x # xs) then t_attempt t' = t_attempt t + 1 \<and>
             (\<exists>x' y'. t_tx t' = Some x' \<and> get_tx e' x' = Some y' \<and> x_deadline y' = now + SERVER_TIMEOUT) else t' = t)"
    proof (cases "j = x_task y")
      case True
      then obtain y' where n: "same_asker t t1" "t_attempt t1 = t_attempt t + 1" "t_tx t1 = Some (next_id e)"
        "get_tx e1 (next_id e) = Some y'" "x_deadline y' = now + SERVER_TIMEOUT" "next_id e < next_id e1"
        using ex(2) t1(1) t(1) by fastforce
      have "next_id e \<notin> set xs" using below by auto
      then have "t' = t1" "get_tx e' (next_id e) = Some y'" using t1(3) n IH(2) by auto
      then show ?thesis using True t n by (auto intro: same_asker_trans)
    next
      case False
      then have "get_task e j = Some t1" using ex(1) t1(1) by simp
      moreover have "t_tx t1 \<noteq> Some x"
        using calculation False y linked_task [of "{}" e j t1] Cons.prems(1) by (auto simp: engine_ok_def)
      ultimately show ?thesis using t1 by (auto split: option.splits if_splits)
    qed
  qed
  moreover have "get_tx e' x' = get_tx e x'" if "x' < next_id e" "x' \<notin> set (x # xs)" for x'
    using that ex(3) IH(2) le by auto
  ultimately show ?case using cache_le_trans [OF ex(4) IH(3)] by auto
qed

lemma expired_live: "engine_ok act e \<Longrightarrow> set (expired now e) \<subseteq> live e"
  using expired_facts(3) by (auto simp: in_live)

lemma tick_tasks:
  assumes ok: "engine_ok {} e" and r: "tick now e = Some (e', acts)"
  shows "retried now (set (expired now e)) e e'" "cache_le (answers_cache e) (answers_cache e')"
  using run_expire_tasks [OF ok expired_facts(1) [OF ok] expired_live [OF ok], of now now] r
  by (auto simp: tick_def expired_def)

text \<open>
  \<open>spent k now e\<close>: every task has made at least \<open>k\<close> attempts and its transaction expires by \<open>now\<close>.
\<close>

definition spent :: "nat \<Rightarrow> instant \<Rightarrow> engine \<Rightarrow> bool" where
  "spent k now e \<longleftrightarrow>
     (\<forall>j t. get_task e j = Some t \<longrightarrow> k \<le> t_attempt t) \<and>
     (\<forall>x y. get_tx e x = Some y \<longrightarrow> x_deadline y \<le> now)"

lemma tick_spent:
  assumes ok: "engine_ok {} e" and sp: "spent k now e" and later: "now + SERVER_TIMEOUT \<le> now'"
    and r: "tick now e = Some (e', acts)"
  shows "engine_ok {} e'" "spent (k + 1) now' e'" "serves e e' acts"
proof -
  have sw: "swept e e' acts" using tick_swept [OF ok, of now] r by simp
  then show ok': "engine_ok {} e'" and "serves e e' acts" by (auto simp: swept_def)
  have link: "linked {} e" "linked {} e'" using ok ok' by (auto simp: engine_ok_def)
  have task: "k + 1 \<le> t_attempt t' \<and> (\<exists>x' y'. t_tx t' = Some x' \<and> get_tx e' x' = Some y' \<and> x_deadline y' = now + SERVER_TIMEOUT)"
    if j: "get_task e' j = Some t'" for j t'
  proof -
    obtain t where t: "get_task e j = Some t" "case t_tx t of None \<Rightarrow> t' = t
         | Some x \<Rightarrow> if x \<in> set (expired now e) then t_attempt t' = t_attempt t + 1 \<and>
             (\<exists>x' y'. t_tx t' = Some x' \<and> get_tx e' x' = Some y' \<and> x_deadline y' = now + SERVER_TIMEOUT) else t' = t"
      using tick_tasks(1) [OF ok r] j unfolding retried_def by blast
    then obtain x y where "t_tx t = Some x" "get_tx e x = Some y" using linked_task [OF link(1) t(1)] by auto
    moreover have "x \<in> set (expired now e)"
      using calculation sp expired_facts(3) [OF ok, of x now] by (auto simp: spent_def)
    ultimately show ?thesis using t sp by (auto simp: spent_def)
  qed
  have "x_deadline y \<le> now'" if y: "get_tx e' x = Some y" for x y
  proof -
    obtain t where "get_task e' (x_task y) = Some t" "t_tx t = Some x" using linked_tx [OF link(2) y] by blast
    then show ?thesis using task [of "x_task y" t] y later by auto
  qed
  with task show "spent (k + 1) now' e'" by (auto simp: spent_def)
qed

lemma spent_none: "engine_ok {} e \<Longrightarrow> spent 4 now e \<Longrightarrow> opens e = {} \<and> live e = {}"
proof -
  assume ok: "engine_ok {} e" and sp: "spent 4 now e"
  then have link: "linked {} e" by (simp add: engine_ok_def)
  have none: "get_task e j = None" for j
    using linked_task [OF link, of j] sp by (cases "get_task e j") (fastforce simp: spent_def task_ok_def MAX_ATTEMPTS_def)+
  then show ?thesis using linked_tx [OF link] by (fastforce simp: opens_def in_live set_eq_iff)
qed

lemma spent_one: "engine_ok {} e \<Longrightarrow> \<forall>x y. get_tx e x = Some y \<longrightarrow> x_deadline y \<le> now \<Longrightarrow> spent 1 now e"
proof -
  assume ok: "engine_ok {} e" and d: "\<forall>x y. get_tx e x = Some y \<longrightarrow> x_deadline y \<le> now"
  have "linked {} e" using ok by (simp add: engine_ok_def)
  then have "1 \<le> t_attempt t" if "get_task e j = Some t" for j t using linked_task [of "{}" e j t] that by auto
  with d show ?thesis by (simp add: spent_def)
qed

lemma ticks_drain:
  assumes ok: "engine_ok {} e" and d: "\<forall>x y. get_tx e x = Some y \<longrightarrow> x_deadline y \<le> t1"
    and later: "t1 + SERVER_TIMEOUT \<le> t2" "t2 + SERVER_TIMEOUT \<le> t3"
  shows "no_panic (run_each (\<lambda>now. tick now) [t1, t2, t3] e) (\<lambda>e' acts.
    opens e' = {} \<and> live e' = {} \<and> distinct (dones acts) \<and> set (dones acts) = opens e)"
proof -
  note s1 = spent_one [OF ok d]
  obtain e1 a1 where r1: "tick t1 e = Some (e1, a1)"
    using tick_swept [OF ok, of t1] by (auto simp: no_panic_def split: option.splits)
  note f1 = tick_spent [OF ok s1 later(1) r1]
  obtain e2 a2 where r2: "tick t2 e1 = Some (e2, a2)"
    using tick_swept [OF f1(1), of t2] by (auto simp: no_panic_def split: option.splits)
  note f2 = tick_spent [OF f1(1,2) later(2) r2]
  obtain e3 a3 where r3: "tick t3 e2 = Some (e3, a3)"
    using tick_swept [OF f2(1), of t3] by (auto simp: no_panic_def split: option.splits)
  note f3 = tick_spent [OF f2(1,2) order_refl r3]
  have none: "opens e3 = {} \<and> live e3 = {}" using spent_none [OF f3(1)] f3(2) by (simp add: eval_nat_numeral)
  have "serves e e3 (a1 @ a2 @ a3)" using f1(3) f2(3) f3(3) serves_trans by metis
  then show ?thesis using none r1 r2 r3 by (simp add: serves_def)
qed

text \<open>
  A transaction that could not be sent, or failed at once, is retried like one that expired: it
  takes nothing back of what the attempts have used up.
\<close>

lemma failed_spent:
  assumes ok: "engine_ok {} e" and sp: "spent k now' e" and later: "now + SERVER_TIMEOUT \<le> now'"
    and f: "failed x now e = Some (e', acts) \<or> local_failed x now e = Some (e', acts)"
  shows "spent k now' e'"
proof (cases "get_tx e x")
  case None
  then show ?thesis using f sp by (auto simp: failed_def local_failed_def)
next
  case (Some y)
  obtain t where t: "get_task e (x_task y) = Some t" by (rule engine_ok_tx [OF ok Some])
  have en: "ended x e e' acts" using f failed_ended [OF ok, of x now] local_failed_ended [OF ok, of x now] by auto
  have h: "handled (retry_at t) (x_task y) now (release x (x_task y) e) (e', acts)"
    using f failed_handles [OF ok Some t, of now] local_failed_handles [OF ok Some t, of now] by auto
  note rt = retried_task(2) [OF ok Some t h en]
  have link: "linked {} e" "linked {} e'" using ok en by (auto simp: engine_ok_def ended_def)
  have other: "get_task e' j = get_task e j" if "j \<noteq> x_task y" for j using en Some that by (simp add: ended_def)
  have "k \<le> t_attempt u" if "get_task e' j = Some u" for j u
    using that other [of j] rt [of u] sp t by (cases "j = x_task y") (fastforce simp: spent_def)+
  moreover have "x_deadline z \<le> now'" if z: "get_tx e' w = Some z" for w z
  proof -
    obtain u where u: "get_task e' (x_task z) = Some u" "t_tx u = Some w" using linked_tx [OF link(2) z] by blast
    show ?thesis
    proof (cases "x_task z = x_task y")
      case True
      then show ?thesis using rt [of u] u z later by auto
    next
      case False
      then have u': "get_task e (x_task z) = Some u" using u other by simp
      then obtain v where v: "get_tx e w = Some v" "x_task v = x_task z" using linked_task [OF link(1) u'] u(2) by auto
      moreover have "w < next_id e" using live_below [OF ok] v in_live by blast
      moreover have "w \<noteq> x" using v False Some by auto
      ultimately have "get_tx e' w = get_tx e w" using en by (simp add: ended_def)
      then show ?thesis using v z sp by (auto simp: spent_def)
    qed
  qed
  ultimately show ?thesis by (simp add: spent_def)
qed

section \<open>Energy\<close>

text \<open>How much is left to try, over all tasks: a transaction that fails takes some of it away.\<close>

definition weight :: "engine \<Rightarrow> task_id \<Rightarrow> nat" where
  "weight e i = (case get_task e i of None \<Rightarrow> 0 | Some t \<Rightarrow> Suc (potential t))"

definition energy :: "engine \<Rightarrow> nat" where
  "energy e = (\<Sum>i \<in> fst ` set (tasks e). weight e i)"

lemma failed_energy:
  assumes ok: "engine_ok {} e" and x: "x \<in> live e"
    and f: "failed x now e = Some (e', acts) \<or> local_failed x now e = Some (e', acts)"
  shows "energy e' < energy e"
proof -
  obtain y where y: "get_tx e x = Some y" using x by (auto simp: in_live)
  obtain t where t: "get_task e (x_task y) = Some t" by (rule engine_ok_tx [OF ok y])
  have en: "ended x e e' acts" using f failed_ended [OF ok, of x now] local_failed_ended [OF ok, of x now] by auto
  have other: "get_task e' j = get_task e j" if "j \<noteq> x_task y" for j using en y that by (simp add: ended_def)
  let ?K = "fst ` set (tasks e)"
  have key: "i \<in> fst ` set (tasks d) \<longleftrightarrow> get_task d i \<noteq> None" for i d using get_in_keys [of i "tasks d"] by simp
  have sub: "fst ` set (tasks e') \<subseteq> ?K" using key other t by (metis option.discI subsetI)
  have "weight e' (x_task y) < weight e (x_task y)"
    using failed_progress [OF ok y t f] t by (auto simp: weight_def split: option.splits)
  moreover have "weight e' j \<le> weight e j" for j
    using other [of j] calculation by (cases "j = x_task y") (auto simp: weight_def)
  moreover have "x_task y \<in> ?K" using key t by simp
  ultimately have "(\<Sum>i \<in> ?K. weight e' i) < energy e"
    unfolding energy_def by (intro sum_strict_mono_ex1) blast+
  moreover have "energy e' = (\<Sum>i \<in> ?K. weight e' i)"
    unfolding energy_def
    by (rule sum.mono_neutral_left) (use sub key in \<open>auto simp: weight_def split: option.splits\<close>)
  ultimately show ?thesis by simp
qed

section \<open>The cache\<close>

lemma received_cache:
  assumes ok: "engine_ok {} e" and y: "get_tx e x = Some y" and t: "get_task e (x_task y) = Some t"
    and m: "matching_response e x bs = Some msg" and r: "received x bs now e = Some (e', acts)"
  obtains c where "cached_from t (x_server y) msg now (answers_cache e) c" "cache_wf c" "cache_le c (answers_cache e')"
proof -
  obtain c where c: "cached_from t (x_server y) msg now (answers_cache e) c" "cache_wf c"
    "handles (progress_at t) (x_task y) now ((release x (x_task y) e)\<lparr>answers_cache := c\<rparr>) (received x bs now e)"
    by (rule received_handles [OF ok y t m])
  have "handled (progress_at t) (x_task y) now ((release x (x_task y) e)\<lparr>answers_cache := c\<rparr>) (e', acts)"
    using c(3) r by simp
  from handled_worked [OF this, of "{}"] released_ok [OF ok y c(2)] released_get [OF t, where c = c]
  have "worked {} (x_task y) ((release x (x_task y) e)\<lparr>answers_cache := c\<rparr>) e' acts" by simp
  then have "cache_le c (answers_cache e')" by (simp add: worked_def)
  with c(1,2) show thesis by (rule that)
qed

text \<open>
  An answer that was being fetched when its scope was invalidated is not cached.
\<close>

lemma received_invalidated:
  assumes ok: "engine_ok {} e" and y: "get_tx e x = Some y" and t: "get_task e (x_task y) = Some t"
    and inv: "t_cache_invalidated t" and r: "received x bs now e = Some (e', acts)"
  shows "cache_le (answers_cache e) (answers_cache e')"
proof (cases "matching_response e x bs")
  case None
  then show ?thesis using r y by (simp add: received_def)
next
  case (Some msg)
  obtain c where "cached_from t (x_server y) msg now (answers_cache e) c" "cache_le c (answers_cache e')"
    by (rule received_cache [OF ok y t Some r])
  with inv show ?thesis by (simp add: cached_from_def)
qed

lemma failed_cache:
  assumes ok: "engine_ok {} e" and r: "failed x now e = Some (e', acts) \<or> local_failed x now e = Some (e', acts)"
  shows "cache_le (answers_cache e) (answers_cache e')"
proof (cases "get_tx e x")
  case None
  then show ?thesis using r by (auto simp: failed_def local_failed_def)
next
  case (Some y)
  obtain t where t: "get_task e (x_task y) = Some t" by (rule engine_ok_tx [OF ok Some])
  have "handled (retry_at t) (x_task y) now (release x (x_task y) e) (e', acts)"
    using r failed_handles [OF ok Some t, of now] local_failed_handles [OF ok Some t, of now] by auto
  from handled_worked [OF this, of "{}"] release_ok(1) [OF ok Some] t
  have "worked {} (x_task y) (release x (x_task y) e) e' acts" by (simp add: release_fields)
  then show ?thesis by (simp add: worked_def release_fields)
qed

lemma step_cache:
  assumes ok: "engine_ok {} e" and ev: "event_ok ev e" and r: "engine_step now ev e = Some (e', acts)"
    and not_reply: "\<forall>x bs. ev \<noteq> EReceived x bs"
  shows "cache_le (answers_cache e) (answers_cache e')"
proof (cases ev)
  case (EResolve q s rtype nc)
  then show ?thesis using resolve_asked [OF ok, of q s rtype nc now] ev r by (simp add: asked_def)
next
  case (EQuestion q qu)
  then show ?thesis using resolve_question_asked [OF ok, of q qu now] ev r by (simp add: asked_def)
next
  case (ELookup q s fam)
  then show ?thesis using lookup_asked [OF ok, of q s fam now] ev r by (simp add: asked_def)
next
  case (EReverse q addr)
  then show ?thesis using reverse_asked [OF ok, of q addr now] ev r by (simp add: asked_def)
next
  case (EAbandon q)
  have "answers_cache (fst (abandon_tasks is e)) = answers_cache e" for "is" e
    by (induction "is" arbitrary: e) (auto simp: Let_def case_prod_unfold split: option.splits)
  then show ?thesis using EAbandon r by (auto simp: abandon_def Let_def case_prod_unfold)
next
  case (EReceived x bs)
  then show ?thesis using not_reply by simp
next
  case (EFailed x)
  then show ?thesis using failed_cache [OF ok] r by auto
next
  case (ELocalFailed x)
  then show ?thesis using failed_cache [OF ok] r by auto
next
  case ETick
  then show ?thesis using tick_tasks(2) [OF ok] r by simp
qed (use r reconfigured_step in \<open>auto simp: reconfigured_def\<close>)

section \<open>Runs\<close>

inductive runs :: "engine \<Rightarrow> engine \<Rightarrow> bool" for e where
  runs_refl: "runs e e"
| runs_step: "runs e e1 \<Longrightarrow> event_ok ev e1 \<Longrightarrow> engine_step now ev e1 = Some (e2, acts) \<Longrightarrow> runs e e2"
| runs_rehash: "runs e e1 \<Longrightarrow> rehashed e1 e2 \<Longrightarrow> runs e e2"

text \<open>A task is never created under an old identifier, and once invalidated stays invalidated.\<close>

definition tasks_follow :: "engine \<Rightarrow> engine \<Rightarrow> bool" where
  "tasks_follow e e' \<longleftrightarrow>
     (\<forall>j t'. j < next_id e \<longrightarrow> get_task e' j = Some t' \<longrightarrow>
        (\<exists>t. get_task e j = Some t \<and> (t_cache_invalidated t \<longrightarrow> t_cache_invalidated t')))"

lemma tasks_follow_same: "\<forall>j < next_id e. get_task e' j = get_task e j \<Longrightarrow> tasks_follow e e'"
  by (auto simp: tasks_follow_def)

lemma ended_follow:
  assumes "engine_ok {} e" "ended x e e' acts" "get_tx e x = Some y"
  shows "tasks_follow e e'"
proof -
  obtain t where t: "get_task e (x_task y) = Some t" by (rule engine_ok_tx [OF assms(1,3)])
  show ?thesis unfolding tasks_follow_def
  proof (intro allI impI)
    fix j t' assume "get_task e' j = Some t'"
    then show "\<exists>t. get_task e j = Some t \<and> (t_cache_invalidated t \<longrightarrow> t_cache_invalidated t')"
      using assms(2,3) t by (cases "j = x_task y") (auto simp: ended_def same_asker_def)
  qed
qed

lemma reconfigured_follow: "reconfigured e e' \<Longrightarrow> tasks_follow e e'"
  unfolding tasks_follow_def
proof (intro allI impI)
  fix j t' assume r: "reconfigured e e'" and t': "get_task e' j = Some t'"
  then obtain t where t: "get_task e j = Some t" using reconfigured_get [OF r, of j] by auto
  then obtain b where "t' = t\<lparr>t_cache_invalidated := b\<rparr>" "t_cache_invalidated t \<longrightarrow> b"
    using reconfigured_task [OF r t] t' by auto
  with t show "\<exists>t. get_task e j = Some t \<and> (t_cache_invalidated t \<longrightarrow> t_cache_invalidated t')" by auto
qed

lemma step_follow:
  assumes ok: "engine_ok {} e" and ev: "event_ok ev e" and r: "engine_step now ev e = Some (e', acts)"
  shows "tasks_follow e e'"
proof (cases ev)
  case (EResolve q s rtype nc)
  then show ?thesis using resolve_asked [OF ok, of q s rtype nc now] ev r by (simp add: asked_def tasks_follow_same)
next
  case (EQuestion q qu)
  then show ?thesis using resolve_question_asked [OF ok, of q qu now] ev r by (simp add: asked_def tasks_follow_same)
next
  case (ELookup q s fam)
  then show ?thesis using lookup_asked [OF ok, of q s fam now] ev r by (simp add: asked_def tasks_follow_same)
next
  case (EReverse q addr)
  then show ?thesis using reverse_asked [OF ok, of q addr now] ev r by (simp add: asked_def tasks_follow_same)
next
  case (EAbandon q)
  then show ?thesis using abandon_effect(7) [OF ok, where q = q] r
    by (auto simp: tasks_follow_def split: option.splits if_splits)
next
  case (EReceived x bs)
  then have rec: "received x bs now e = Some (e', acts)" using r by simp
  show ?thesis
  proof (cases "matching_response e x bs")
    case None
    then show ?thesis using received_ended [OF ok, of x bs now] rec
      by (simp add: response_matches_def tasks_follow_same)
  next
    case (Some msg)
    then obtain y where y: "get_tx e x = Some y" by (auto simp: matching_response_Some)
    have "ended x e e' acts" using received_ended [OF ok, of x bs now] rec Some by (simp add: response_matches_def)
    then show ?thesis using y by (rule ended_follow [OF ok])
  qed
next
  case (EFailed x)
  then show ?thesis using failed_ended [OF ok, of x now] r ended_follow [OF ok, of x e' acts]
    by (cases "get_tx e x") (simp_all add: failed_def tasks_follow_same)
next
  case (ELocalFailed x)
  then show ?thesis using local_failed_ended [OF ok, of x now] r ended_follow [OF ok, of x e' acts]
    by (cases "get_tx e x") (simp_all add: local_failed_def tasks_follow_same)
next
  case ETick
  then have "retried now (set (expired now e)) e e'" using tick_tasks(1) [OF ok] r by simp
  then show ?thesis unfolding tasks_follow_def retried_def same_asker_def by blast
next
  case (ESetScopes ss)
  then have "reconfigured e e'" using r reconfigured_step by auto
  then show ?thesis by (rule reconfigured_follow)
next
  case (ESetFallback sv ds)
  then have "reconfigured e e'" using r reconfigured_step by auto
  then show ?thesis by (rule reconfigured_follow)
next
  case (ESetHostname h)
  then have "reconfigured e e'" using r reconfigured_step by auto
  then show ?thesis by (rule reconfigured_follow)
next
  case (ESetHosts hs)
  then have "reconfigured e e'" using r reconfigured_step by auto
  then show ?thesis by (rule reconfigured_follow)
next
  case EFlush
  then have "reconfigured e e'" using r reconfigured_step by auto
  then show ?thesis by (rule reconfigured_follow)
qed

lemma rehashed_get:
  assumes r: "rehashed e e'" and ok: "engine_ok {} e"
  shows "get_task e' j = get_task e j" "next_id e' = next_id e"
proof -
  show "get_task e' j = get_task e j"
    using r ok get_mset [of "tasks e" "tasks e'"] by (simp add: rehashed_def engine_ok_def)
  show "next_id e' = next_id e"
    using r unfolding rehashed_def by (metis engine.select_convs engine.surjective engine.update_convs)
qed

lemma runs_follow:
  assumes "runs e e'" "engine_ok {} e"
  shows "engine_ok {} e' \<and> next_id e \<le> next_id e' \<and> tasks_follow e e'"
  using assms
proof (induction rule: runs.induct)
  case runs_refl
  then show ?case by (simp add: tasks_follow_same)
next
  case (runs_step e1 ev now e2 acts)
  then have ok1: "engine_ok {} e1" and le: "next_id e \<le> next_id e1" and f1: "tasks_follow e e1" by auto
  have ok2: "effect ev e1 e2 acts" using step_effect [OF ok1 runs_step(2), of now] runs_step(3) by simp
  have f2: "tasks_follow e1 e2" by (rule step_follow [OF ok1 runs_step(2,3)])
  have "tasks_follow e e2" unfolding tasks_follow_def
  proof (intro allI impI)
    fix j t' assume j: "j < next_id e" "get_task e2 j = Some t'"
    then have "j < next_id e1" using le by simp
    then obtain u where "get_task e1 j = Some u" "t_cache_invalidated u \<longrightarrow> t_cache_invalidated t'"
      using f2 j(2) unfolding tasks_follow_def by blast
    then show "\<exists>t. get_task e j = Some t \<and> (t_cache_invalidated t \<longrightarrow> t_cache_invalidated t')"
      using f1 j(1) unfolding tasks_follow_def by blast
  qed
  with ok2 le show ?case by (simp add: effect_def)
next
  case (runs_rehash e1 e2)
  then have "engine_ok {} e1" by blast
  with runs_rehash show ?case
    using rehashed_ok [OF runs_rehash(2)] rehashed_get [OF runs_rehash(2)] by (simp add: tasks_follow_def)
qed

section \<open>Changing the servers of a scope\<close>

text \<open>The servers that scope \<open>sid\<close> stands for.\<close>

definition servers_named :: "string \<Rightarrow> scope list \<Rightarrow> ip_addr list option" where
  "servers_named sid ss = map_option sc_servers (find (\<lambda>s. sc_id s = sid) ss)"

definition invalidated_ids :: "scope list \<Rightarrow> engine \<Rightarrow> string list" where
  "invalidated_ids ss e =
     map sc_id (filter (\<lambda>new. case find (\<lambda>s. sc_id s = sc_id new) (scopes e) of
        None \<Rightarrow> True | Some o1 \<Rightarrow> sc_servers o1 \<noteq> sc_servers new) ss) @
     map sc_id (filter (\<lambda>o1. \<not> list_ex (\<lambda>s. sc_id s = sc_id o1) ss) (scopes e))"

lemma set_scopes_alt: "set_scopes ss e = (fold invalidate_scope_cache (invalidated_ids ss e) e)\<lparr>scopes := ss\<rparr>"
  unfolding set_scopes_def invalidated_ids_def Let_def ..

lemma invalidated_changed:
  assumes "servers_named sid ss \<noteq> servers_named sid (scopes e)"
  shows "sid \<in> set (invalidated_ids ss e)"
proof (cases "find (\<lambda>s. sc_id s = sid) ss")
  case None
  then obtain o1 where "find (\<lambda>s. sc_id s = sid) (scopes e) = Some o1"
    using assms by (auto simp: servers_named_def)
  then have "o1 \<in> set (scopes e)" "sc_id o1 = sid" by (auto simp: find_Some_iff)
  moreover have "\<forall>s \<in> set ss. sc_id s \<noteq> sid" using None by (auto simp: find_None_iff)
  ultimately show ?thesis by (auto simp: invalidated_ids_def list_ex_iff)
next
  case (Some new)
  then have "new \<in> set ss" "sc_id new = sid" by (auto simp: find_Some_iff)
  with Some assms show ?thesis
    by (auto simp: invalidated_ids_def servers_named_def image_iff intro!: bexI [of _ new] split: option.splits)
qed

lemma hidden_mono: "hidden s c \<Longrightarrow> cache_le c c' \<Longrightarrow> hidden s c'"
  unfolding hidden_def cache_le_def by (metis not_None_eq)

lemma fold_invalidate:
  assumes "sid \<in> set sids"
  shows "hidden sid (answers_cache (fold invalidate_scope_cache sids e))"
    "get_task e i = Some t \<Longrightarrow> t_scope t = Some sid \<Longrightarrow>
     \<exists>t'. get_task (fold invalidate_scope_cache sids e) i = Some t' \<and> t_cache_invalidated t'"
proof -
  obtain xs ys where split: "sids = xs @ sid # ys" using assms by (auto simp: in_set_conv_decomp)
  define a where "a = fold invalidate_scope_cache xs e"
  define b where "b = invalidate_scope_cache sid a"
  have r: "reconfigured e a" "reconfigured b (fold invalidate_scope_cache ys b)"
    by (simp_all add: a_def reconfigured_fold)
  have all: "fold invalidate_scope_cache sids e = fold invalidate_scope_cache ys b"
    by (simp add: split a_def b_def)
  have "hidden sid (answers_cache b)" by (simp add: b_def invalidate_scope_cache_def hidden_flush_scope)
  then show "hidden sid (answers_cache (fold invalidate_scope_cache sids e))"
    unfolding all using r(2) by (auto simp: reconfigured_def intro: hidden_mono)
  assume t: "get_task e i = Some t" "t_scope t = Some sid"
  obtain u where "get_task a i = Some (t\<lparr>t_cache_invalidated := u\<rparr>)" using reconfigured_task [OF r(1) t(1)] by blast
  then have "get_task b i = Some (t\<lparr>t_cache_invalidated := True\<rparr>)"
    using t(2) by (simp add: b_def invalidate_scope_cache_def get_map_values)
  from reconfigured_task [OF r(2) this]
  show "\<exists>t'. get_task (fold invalidate_scope_cache sids e) i = Some t' \<and> t_cache_invalidated t'"
    unfolding all by auto
qed

lemma set_scopes_isolates:
  assumes ok: "engine_ok {} e" and changed: "servers_named sid ss \<noteq> servers_named sid (scopes e)"
    and t: "get_task e i = Some t" "t_scope t = Some sid"
    and runs: "runs (set_scopes ss e) e1" and x: "get_tx e1 x = Some y" "x_task y = i"
    and r: "received x bs now e1 = Some (e2, acts)"
  shows "cache_le (answers_cache e1) (answers_cache e2)"
proof -
  let ?e0 = "set_scopes ss e"
  have ok0: "engine_ok {} ?e0" using reconfigured_ok(1) [OF reconfigured_step(1) ok] .
  have inv: "\<exists>t'. get_task ?e0 i = Some t' \<and> t_cache_invalidated t'"
    using fold_invalidate(2) [OF invalidated_changed [OF changed] t] by (simp add: set_scopes_alt)
  then have i: "i < next_id ?e0" using linked_task [of "{}" ?e0 i] ok0 by (auto simp: engine_ok_def)
  have f: "engine_ok {} e1" "tasks_follow ?e0 e1" using runs_follow [OF runs ok0] by auto
  obtain u where u: "get_task e1 (x_task y) = Some u" by (rule engine_ok_tx [OF f(1) x(1)])
  have "t_cache_invalidated u" using f(2) inv i u x(2) unfolding tasks_follow_def by fastforce
  then show ?thesis by (rule received_invalidated [OF f(1) x(1) u _ r])
qed

section \<open>What is sent\<close>

lemma candidates_cong: "same_config e e' \<Longrightarrow> candidates e' n = candidates e n"
  by (simp add: candidates_alt search_domains_def exclusive_def up_scopes_def same_config_def cong: option.case_cong)

lemma interface_of_cong: "same_config e e' \<Longrightarrow> interface_of e' = interface_of e"
  by (auto simp: interface_of_def same_config_def)

lemma decode_query:
  assumes "wf_name n" "encode (message_query d (question_new n rtype)) = Inr payload"
  shows "decode payload = Inr (message_query d (question_new n rtype))"
  using assms decode_encode wf_query by (auto simp: question_new_def)

lemma advance_send:
  assumes ok: "engine_ok (insert i act) e" "i \<notin> act" and t: "get_task e i = Some (new_task ow n rtype nc)" "wf_name n"
    and r: "advance i now e = Some (e', acts)" and s: "Send x server iface tcp payload \<in> set acts"
  shows "\<exists>c sid d n'. c \<in> set (candidates e n) \<and> route e c = Some sid \<and> server \<in> set (scope_servers e sid) \<and>
    iface = interface_of e sid \<and> \<not> tcp \<and> synthetic e n rtype = None \<and>
    decode payload = Inr (message_query d (question_new n' rtype)) \<and> name_eq n' c"
proof -
  have "handled (routed_at e n rtype) i now e (e', acts)" using advance_handled [OF t, of now] r by simp
  then show ?thesis
  proof cases
    case (answered e1 ans)
    obtain u where u: "get_task e1 i = Some u" using answered(2) t(1) by (auto simp: quiet_def)
    have "sents acts = []"
      using settle_worked(3) [OF quiet_ok [OF answered(2) ok(1)] ok(2) u, of ans] answered(1)
      by (metis insertI1 snd_conv)
    moreover have "x \<in> set (sents acts)" using s by (induction acts) auto
    ultimately show ?thesis by simp
  next
    case (dispatched e1 u n' d p sv b)
    have u: "t_type u = rtype" "same_config e e1" "keeps (new_task ow n rtype nc) u"
      using dispatched(2,3) t(1) by (auto simp: quiet_def keeps_def new_task_def)
    have sent: "server = sv" "iface = Option.bind (t_scope u) (interface_of e1)" "tcp = b" "payload = p"
      using dispatched(1) s by (auto simp: transmit_def fresh_id_def)
    obtain c sid where c: "c \<in> set (candidates e n)" "t_current u = Some c" "t_scope u = Some sid"
      "route e c = Some sid" "sv \<in> set (scope_servers e sid)" "\<not> b" "synthetic e n rtype = None"
      using dispatched(8) by (auto simp: routed_at_def)
    have nc: "name_eq n' c" using dispatched(6) c(2) by (simp add: current_name_def unwrap_or_def)
    then have "wf_name n'" using wf_name_eq candidates_wf [OF t(2) c(1)] by blast
    then have "decode p = Inr (message_query d (question_new n' rtype))"
      using decode_query dispatched(7) u(1) by blast
    then show ?thesis using c nc sent interface_of_cong [OF u(2)] by auto
  qed
qed

lemma resolve_name_send:
  assumes ok: "engine_ok {} e" and wf: "wf_name n" and new: "q \<notin> opens e"
    and r: "resolve_name q n rtype nc now e = Some (e', acts)" and s: "Send x server iface tcp payload \<in> set acts"
  shows "\<exists>c sid d n'. c \<in> set (candidates e n) \<and> route e c = Some sid \<and> server \<in> set (scope_servers e sid) \<and>
    iface = interface_of e sid \<and> \<not> tcp \<and> synthetic e n rtype = None \<and>
    decode payload = Inr (message_query d (question_new n' rtype)) \<and> name_eq n' c"
proof -
  obtain i e1 where st: "start_task (OResolve q) n rtype nc e = (i, e1)" by fastforce
  note f = start_task_fields [OF st]
  have adv: "advance i now e1 = Some (e', acts)" using r st by (simp add: resolve_name_def)
  have t: "get_task e1 i = Some (new_task (OResolve q) n rtype nc)" using f by simp
  from advance_send [OF start_resolve_ok(1) [OF ok wf new st] _ t wf adv s]
  show ?thesis
    using candidates_cong [OF f(6)] route_cong [OF f(6)] scope_servers_cong [OF f(6)] interface_of_cong [OF f(6)]
      synthetic_cong [of e1 e n rtype] f(6)
    by (simp add: same_config_def)
qed

lemma resolve_name_synthetic:
  assumes "synthetic e n rtype = Some ans"
  shows "\<exists>e'. resolve_name q n rtype nc now e = Some (e', [Done q (CAnswer ans)]) \<and> txs e' = txs e"
proof -
  obtain i e1 where st: "start_task (OResolve q) n rtype nc e = (i, e1)" by fastforce
  note f = start_task_fields [OF st]
  have t: "get_task e1 i = Some (new_task (OResolve q) n rtype nc)" using f by simp
  have "synthetic e1 n rtype = Some ans"
    using assms synthetic_cong [of e1 e n rtype] f(6) by (simp add: same_config_def)
  then show ?thesis
    using st t f(3) by (simp add: resolve_name_def advance_def new_task_def settle_def)
qed

section \<open>What a reply contributes\<close>

lemma digest_NotFound: "dg_outcome (digest msg c rtype) = NotFound \<Longrightarrow> dg_records (digest msg c rtype) = []"
  by (auto simp: digest_def Let_def split: prod.splits if_splits)

lemma digest_ttl_empty: "dg_records (digest msg c rtype) = [] \<Longrightarrow> dg_ttl (digest msg c rtype) \<le> 300"
proof -
  assume e: "dg_records (digest msg c rtype) = []"
  obtain rel eff where rel: "relevant_records (answers msg) c rtype = (rel, eff)" by fastforce
  have "dg_ttl (digest msg c rtype) = min (negative_ttl (authority msg) eff)
      (unwrap_or (- 1) (min_ttl (filter (\<lambda>r. r_type r = RT_CNAME) rel)))"
    using e rel by (auto simp: digest_def Let_def)
  then show ?thesis using negative_ttl_le [of "authority msg" eff] by (simp add: min_le_iff_disj)
qed

lemma min_ttl_le: "r \<in> set rs \<Longrightarrow> unwrap_or 0 (min_ttl rs) \<le> r_ttl r"
  using min_ttl_Some [of rs] by (cases "min_ttl rs") (auto simp: unwrap_or_def)

lemma digest_ttl_records:
  assumes "r \<in> set (dg_records (digest msg c rtype))"
  shows "dg_ttl (digest msg c rtype) \<le> r_ttl r" "dg_ttl (digest msg c rtype) \<le> 86400"
proof -
  let ?rs = "dg_records (digest msg c rtype)"
  have "?rs \<noteq> []" using assms by auto
  moreover have "dg_outcome (digest msg c rtype) = Found"
    using digest_NotFound [of msg c rtype] assms
    by (cases "dg_outcome (digest msg c rtype)") (auto simp: digest_def Let_def split: prod.splits if_splits)
  ultimately have ttl: "dg_ttl (digest msg c rtype) = min (unwrap_or 0 (min_ttl ?rs)) MAX_POSITIVE_TTL"
    by (auto simp: digest_def Let_def split: prod.splits if_splits)
  show "dg_ttl (digest msg c rtype) \<le> r_ttl r"
    unfolding ttl using min_ttl_le [OF assms] by (rule min.coboundedI1)
  show "dg_ttl (digest msg c rtype) \<le> 86400"
    unfolding ttl MAX_POSITIVE_TTL_def by (rule min.cobounded2)
qed

text \<open>Every record of the answer comes from the reply: it has the type asked for, at the end of the alias path, or is on the path.\<close>

lemma digest_records:
  assumes "r \<in> set (dg_records (digest msg c rtype))"
  shows "\<exists>r0 \<in> set (answers msg). \<exists>eff. aliased (answers msg) c eff \<and>
    (wanted eff rtype r0 \<or> on_path (answers msg) c r0) \<and>
    r = r0\<lparr>r_name := r_name r\<rparr> \<and> name_eq (r_name r) (r_name r0)"
proof -
  obtain rel eff where rel: "relevant_records (answers msg) c rtype = (rel, eff)" by fastforce
  note sound = relevant_records_sound [OF rel]
  obtain r0 where r0: "r0 \<in> set rel" "r = (if name_eq (r_name r0) c then r0\<lparr>r_name := c\<rparr> else r0)"
    using assms rel by (auto simp: digest_def Let_def split: if_splits)
  have "set rel \<subseteq> set (answers msg)" using sound(1) by (induction rule: list_emb.induct) auto
  then have "r0 \<in> set (answers msg)" using r0(1) by blast
  moreover have "r = r0\<lparr>r_name := r_name r\<rparr>" "name_eq (r_name r) (r_name r0)"
    using r0(2) by (auto simp: name_eq_iff)
  ultimately show ?thesis using sound(2,3) r0(1) by blast
qed

end
