(* ===== verification/Std_Io.thy ===== *)
theory Std_Io
  imports Dns_Reverse
begin

text \<open>
  What the daemon's sockets can report: the error kinds of \<open>std::io\<close> that the sources tell apart,
  and a nonblocking stream as an interface. The operating system decides how much of a write it
  takes and when it refuses; a \<open>sock\<close> is a stream together with the results it is going to give,
  so a statement about every \<open>sock\<close> covers every behaviour of the system.
\<close>

text \<open>An I/O error: the kinds the sources look at, and any other error of the system by its number.\<close>

datatype io_error = WouldBlock | Interrupted | UnexpectedEof | WriteZero | TimedOut | InvalidInput | InvalidData | RawOs nat

fun raw_os_error :: "io_error \<Rightarrow> nat option" where
  "raw_os_error (RawOs n) = Some n"
| "raw_os_error _ = None"

text \<open>\<open>SocketAddr\<close>: address, port, and for IPv6 the flow information and the zone.\<close>

datatype socket_addr = SocketV4 u32 u16 | SocketV6 u128 u16 u32 u32

fun socket_ip :: "socket_addr \<Rightarrow> ip_addr" where
  "socket_ip (SocketV4 a p) = V4 a"
| "socket_ip (SocketV6 a p f z) = V6 a"

section \<open>Nonblocking streams\<close>

text \<open>
  The contract of \<open>Write::write\<close>: a successful call reports how many bytes of the buffer it took,
  at most all of them, and they are what the peer gets next; a failed call takes none.
\<close>

locale nonblocking_stream =
  fixes wr :: "'s \<Rightarrow> bytes \<Rightarrow> (io_error + nat) \<times> 's" and out :: "'s \<Rightarrow> bytes"
  assumes wr_ok: "wr s b = (Inr n, s') \<Longrightarrow> n \<le> length b \<and> out s' = out s @ take n b"
    and wr_err: "wr s b = (Inl e, s') \<Longrightarrow> out s' = out s"

record sock =
  sk_fd :: nat
  sk_writes :: "(io_error + nat) list"
  sk_out :: bytes

fun sock_write :: "sock \<Rightarrow> bytes \<Rightarrow> (io_error + nat) \<times> sock" where
  "sock_write s b =
     (case sk_writes s of
        [] \<Rightarrow> (Inl WouldBlock, s)
      | Inl e # ws \<Rightarrow> (Inl e, s\<lparr>sk_writes := ws\<rparr>)
      | Inr n # ws \<Rightarrow>
          let k = min n (length b) in (Inr k, s\<lparr>sk_writes := ws, sk_out := sk_out s @ take k b\<rparr>))"

interpretation sock: nonblocking_stream sock_write sk_out
  by unfold_locales (auto simp: Let_def split: list.splits sum.splits)

section \<open>Reading\<close>

text \<open>
  What has arrived on a stream, in the segments the system will return it in, with the errors a
  read gets in between. A read that finds nothing gets \<open>WouldBlock\<close>; an empty segment is the end.
\<close>

type_synonym arrivals = "(io_error + bytes) list"

text \<open>One \<open>read\<close> of at most \<open>n\<close> bytes: its result and the segments that are left.\<close>

fun read_segments :: "nat \<Rightarrow> arrivals \<Rightarrow> (io_error + bytes) \<times> arrivals" where
  "read_segments n [] = (Inl WouldBlock, [])"
| "read_segments n (Inl e # ss) = (Inl e, ss)"
| "read_segments n (Inr s # ss) = (Inr (take n s), if length s \<le> n then ss else Inr (drop n s) # ss)"

definition segments_size :: "arrivals \<Rightarrow> nat" where
  "segments_size ss = sum_list (map (\<lambda>s. case s of Inl _ \<Rightarrow> 1 | Inr b \<Rightarrow> Suc (length b)) ss)"

lemma read_segments_size:
  "ss \<noteq> [] \<Longrightarrow> fst (read_segments n ss) \<noteq> Inr [] \<Longrightarrow> segments_size (snd (read_segments n ss)) < segments_size ss"
  by (induction n ss rule: read_segments.induct) (auto simp: segments_size_def)

definition data_of :: "arrivals \<Rightarrow> bytes" where
  "data_of ss = concat (map (\<lambda>s. case s of Inl _ \<Rightarrow> [] | Inr b \<Rightarrow> b) ss)"

definition steady :: "arrivals \<Rightarrow> bool" where
  "steady ss = list_all (\<lambda>s. case s of Inl e \<Rightarrow> e = Interrupted | Inr b \<Rightarrow> b \<noteq> []) ss"

lemma read_steady:
  assumes "steady ss" "0 < n" "ss \<noteq> []"
  shows "(\<exists>c. fst (read_segments n ss) = Inr c \<and> c \<noteq> [] \<and> length c \<le> n \<and> data_of ss = c @ data_of (snd (read_segments n ss)))
    \<or> fst (read_segments n ss) = Inl Interrupted \<and> data_of (snd (read_segments n ss)) = data_of ss"
    and "steady (snd (read_segments n ss))"
  using assms
  by (induction n ss rule: read_segments.induct) (auto simp: steady_def data_of_def)

lemma read_segments_length: "fst (read_segments n ss) = Inr c \<Longrightarrow> length c \<le> n"
  by (induction n ss rule: read_segments.induct) auto

section \<open>Deadlines\<close>

text \<open>The earliest of some deadlines, \<open>Iterator::min\<close>.\<close>

definition min_opt :: "instant list \<Rightarrow> instant option" where
  "min_opt ts = (if ts = [] then None else Some (Min (set ts)))"

lemma min_opt_none: "min_opt ts = None \<longleftrightarrow> ts = []"
  by (simp add: min_opt_def)

lemma min_opt_some: "min_opt ts = Some t \<longleftrightarrow> t \<in> set ts \<and> (\<forall>u \<in> set ts. t \<le> u)"
  by (auto simp: min_opt_def Min_le_iff intro: antisym [OF Min_le] split: if_splits)

end
