(* ===== verification/Reply_Queue.thy ===== *)
theory Reply_Queue
  imports Std_Io
begin

text \<open>
  Replies whose peer is not draining them: \<open>resolvd/src/reply_queue.rs\<close>, and the pause of a
  listener after a failed accept, \<open>resolvd/src/accept_backoff.rs\<close>. The stream type \<open>S: Write\<close> is a
  type variable and its \<open>write\<close> the first argument of the operations. An operation that drops a
  stream, and so closes it, returns it beside its result. Indexing the frame past its end panics;
  that is \<open>None\<close>. The queue also keeps the trace \<open>rp_tried\<close> of the calls of \<open>enqueue\<close>: the stream
  and the frame it was given, and what it returned.
\<close>

section \<open>The queue\<close>

definition WRITE_TIMEOUT :: duration where
  "WRITE_TIMEOUT = from_secs 1"

definition MAX_PENDING_REPLIES :: nat where
  "MAX_PENDING_REPLIES = 256"

record 's pending =
  pd_stream :: 's
  pd_frame :: bytes
  pd_sent :: nat
  pd_deadline :: instant

record 's replies =
  rp_pending :: "(nat \<times> 's pending) list"
  rp_next_id :: nat
  rp_tried :: "('s \<times> bytes \<times> (io_error + unit)) list"

definition replies_new :: "'s replies" where
  "replies_new = \<lparr>rp_pending = [], rp_next_id = 0, rp_tried = []\<rparr>"

type_synonym 's writer = "'s \<Rightarrow> bytes \<Rightarrow> (io_error + nat) \<times> 's"

definition write_once :: "'s writer \<Rightarrow> 's \<Rightarrow> bytes \<Rightarrow> (io_error + nat) \<times> 's" where
  "write_once wr s b =
     (case wr s b of
        (Inr n, s') \<Rightarrow> (if n = 0 then Inl WriteZero else Inr n, s')
      | (Inl e, s') \<Rightarrow> (if e = WouldBlock \<or> e = Interrupted then Inr 0 else Inl e, s'))"

definition enqueue :: "'s writer \<Rightarrow> 's \<Rightarrow> bytes \<Rightarrow> instant \<Rightarrow> 's replies \<Rightarrow> (io_error + unit) \<times> 's option \<times> 's replies" where
  "enqueue wr stream frame now q =
     (let tried = (\<lambda>r. q\<lparr>rp_tried := rp_tried q @ [(stream, frame, r)]\<rparr>) in
      case write_once wr stream frame of
        (Inl e, s) \<Rightarrow> (Inl e, Some s, tried (Inl e))
      | (Inr sent, s) \<Rightarrow>
          if sent = length frame then (Inr (), Some s, tried (Inr ()))
          else if length (rp_pending q) \<ge> MAX_PENDING_REPLIES then (Inl WouldBlock, Some s, tried (Inl WouldBlock))
          else
            (Inr (), None,
             (tried (Inr ()))\<lparr>rp_next_id := rp_next_id q + 1,
               rp_pending := hm_insert (=) (rp_next_id q)
                 \<lparr>pd_stream = s, pd_frame = frame, pd_sent = sent, pd_deadline = now + WRITE_TIMEOUT\<rparr>
                 (rp_pending q)\<rparr>))"

definition reply_fds :: "('s \<Rightarrow> nat) \<Rightarrow> 's replies \<Rightarrow> (nat \<times> nat) list" where
  "reply_fds as_raw_fd q = map (\<lambda>(i, p). (i, as_raw_fd (pd_stream p))) (rp_pending q)"

definition service_reply :: "'s writer \<Rightarrow> nat \<Rightarrow> instant \<Rightarrow> 's replies \<Rightarrow> ((io_error + unit) \<times> 's option \<times> 's replies) option" where
  "service_reply wr i now q =
     (case hm_get (=) i (rp_pending q) of
        None \<Rightarrow> Some (Inr (), None, q)
      | Some p \<Rightarrow>
          let q' = q\<lparr>rp_pending := hm_remove (=) i (rp_pending q)\<rparr> in
          if pd_deadline p \<le> now then Some (Inl TimedOut, Some (pd_stream p), q')
          else if pd_sent p > length (pd_frame p) then None
          else
            case write_once wr (pd_stream p) (drop (pd_sent p) (pd_frame p)) of
              (Inl e, s) \<Rightarrow> Some (Inl e, Some s, q')
            | (Inr n, s) \<Rightarrow>
                let p' = p\<lparr>pd_stream := s, pd_sent := pd_sent p + n\<rparr> in
                if pd_sent p' < length (pd_frame p')
                then Some (Inr (), None, q'\<lparr>rp_pending := hm_insert (=) i p' (rp_pending q')\<rparr>)
                else Some (Inr (), Some s, q'))"

definition replies_deadline :: "'s replies \<Rightarrow> instant option" where
  "replies_deadline q = min_opt (map (\<lambda>(i, p). pd_deadline p) (rp_pending q))"

definition expire_replies :: "instant \<Rightarrow> 's replies \<Rightarrow> nat \<times> 's list \<times> 's replies" where
  "expire_replies now q =
     (let kept = filter (\<lambda>(i, p). pd_deadline p > now) (rp_pending q)
      in (length (rp_pending q) - length kept,
          map (\<lambda>(i, p). pd_stream p) (filter (\<lambda>(i, p). \<not> pd_deadline p > now) (rp_pending q)),
          q\<lparr>rp_pending := kept\<rparr>))"

section \<open>The pause after a failed accept\<close>

definition RETRY_DELAY :: duration where
  "RETRY_DELAY = 250000000"

record accept_backoff =
  ab_until :: "instant option"

definition backoff_new :: accept_backoff where
  "backoff_new = \<lparr>ab_until = None\<rparr>"

definition backoff_failed :: "instant \<Rightarrow> accept_backoff \<Rightarrow> accept_backoff" where
  "backoff_failed now b = b\<lparr>ab_until := Some (now + RETRY_DELAY)\<rparr>"

definition backoff_deadline :: "instant \<Rightarrow> accept_backoff \<Rightarrow> instant option" where
  "backoff_deadline now b = (case ab_until b of Some t \<Rightarrow> if t > now then Some t else None | None \<Rightarrow> None)"

definition backoff_poll_fd :: "int \<Rightarrow> instant \<Rightarrow> accept_backoff \<Rightarrow> int" where
  "backoff_poll_fd fd now b = (if backoff_deadline now b \<noteq> None then -1 else fd)"

section \<open>Runs of the queue\<close>

text \<open>
  A history of calls, with a log of the streams that were closed: the stream as it was left, the
  frame it was to carry, and the result of the call that closed it.
\<close>

datatype 's q_op = Enqueue 's bytes instant | Service nat instant | Expire instant

type_synonym 's q_log = "('s \<times> bytes \<times> (io_error + unit)) list"

fun q_step :: "'s writer \<Rightarrow> 's q_op \<Rightarrow> 's replies \<times> 's q_log \<Rightarrow> ('s replies \<times> 's q_log) option" where
  "q_step wr (Enqueue s frame now) (q, log) =
     (case enqueue wr s frame now q of
        (r, Some s', q') \<Rightarrow> Some (q', log @ [(s', frame, r)])
      | (r, None, q') \<Rightarrow> Some (q', log))"
| "q_step wr (Service i now) (q, log) =
     (case hm_get (=) i (rp_pending q) of
        None \<Rightarrow> Some (q, log)
      | Some p \<Rightarrow>
          (case service_reply wr i now q of
             None \<Rightarrow> None
           | Some (r, Some s', q') \<Rightarrow> Some (q', log @ [(s', pd_frame p, r)])
           | Some (r, None, q') \<Rightarrow> Some (q', log)))"
| "q_step wr (Expire now) (q, log) =
     (case expire_replies now q of
        (n, dropped, q') \<Rightarrow>
          Some (q', log @ map (\<lambda>(i, p). (pd_stream p, pd_frame p, Inl TimedOut))
            (filter (\<lambda>(i, p). \<not> pd_deadline p > now) (rp_pending q))))"

fun q_run :: "'s writer \<Rightarrow> 's q_op list \<Rightarrow> 's replies \<times> 's q_log \<Rightarrow> ('s replies \<times> 's q_log) option" where
  "q_run wr [] st = Some st"
| "q_run wr (op # ops) st = (case q_step wr op st of None \<Rightarrow> None | Some st' \<Rightarrow> q_run wr ops st')"

definition op_fresh :: "('s \<Rightarrow> bytes) \<Rightarrow> 's q_op \<Rightarrow> bool" where
  "op_fresh out op = (case op of Enqueue s frame now \<Rightarrow> out s = [] \<and> frame \<noteq> [] | _ \<Rightarrow> True)"

text \<open>A pending stream has carried exactly the part of its frame that is counted as sent.\<close>

definition pending_ok :: "('s \<Rightarrow> bytes) \<Rightarrow> 's pending \<Rightarrow> bool" where
  "pending_ok out p \<longleftrightarrow>
     pd_sent p < length (pd_frame p) \<and> out (pd_stream p) = take (pd_sent p) (pd_frame p)"

definition closed_ok :: "('s \<Rightarrow> bytes) \<Rightarrow> 's \<times> bytes \<times> (io_error + unit) \<Rightarrow> bool" where
  "closed_ok out = (\<lambda>(s, frame, r). (\<exists>n. out s = take n frame) \<and> (r = Inr () \<longrightarrow> out s = frame))"

definition queue_ok :: "('s \<Rightarrow> bytes) \<Rightarrow> 's replies \<times> 's q_log \<Rightarrow> bool" where
  "queue_ok out st \<longleftrightarrow>
     length (rp_pending (fst st)) \<le> MAX_PENDING_REPLIES
     \<and> hm_wf (=) (rp_pending (fst st))
     \<and> (\<forall>(i, p) \<in> set (rp_pending (fst st)). i < rp_next_id (fst st) \<and> pending_ok out p)
     \<and> (\<forall>c \<in> set (snd st). closed_ok out c)"

context nonblocking_stream
begin

lemma write_once_some:
  "write_once wr s b = (Inr n, s') \<Longrightarrow> n \<le> length b \<and> out s' = out s @ take n b"
  using wr_ok wr_err by (fastforce simp: write_once_def split: prod.splits sum.splits if_splits)

lemma write_once_fails:
  assumes "write_once wr s b = (Inl e, s')"
  shows "out s' = out s"
proof (cases "wr s b")
  case (Pair r s'')
  then show ?thesis
    using assms wr_ok [of s b _ s''] wr_err [of s b _ s'']
    by (cases r) (auto simp: write_once_def split: if_splits)
qed

lemma enqueue_ok:
  assumes ok: "queue_ok out (q, log)" and fresh: "out s = []"
  shows "\<exists>st. q_step wr (Enqueue s frame now) (q, log) = Some st \<and> queue_ok out st"
proof -
  obtain r s' where w: "write_once wr s frame = (r, s')" by force
  show ?thesis
  proof (cases r)
    case (Inl e)
    then have "out s' = take 0 frame" using write_once_fails w fresh by simp
    then have "closed_ok out (s', frame, Inl e)" unfolding closed_ok_def by blast
    then show ?thesis using ok w Inl by (auto simp: enqueue_def queue_ok_def)
  next
    case (Inr n)
    then have n: "n \<le> length frame" "out s' = take n frame" using write_once_some w fresh by simp_all
    have c: "closed_ok out (s', frame, Inl WouldBlock)" "n = length frame \<Longrightarrow> closed_ok out (s', frame, Inr ())"
      using n unfolding closed_ok_def by (auto intro: exI [of _ n])
    have new: "hm_get (=) (rp_next_id q) (rp_pending q) = None"
      using ok by (auto simp: ids.get_eq_None queue_ok_def)
    show ?thesis
      using ok w Inr n c new
      by (auto simp: enqueue_def queue_ok_def pending_ok_def ids.length_insert ids.wf_insert
          dest!: ids.insert_keys)
  qed
qed

lemma service_ok:
  assumes ok: "queue_ok out (q, log)"
  shows "\<exists>st. q_step wr (Service i now) (q, log) = Some st \<and> queue_ok out st"
proof (cases "hm_get (=) i (rp_pending q)")
  case None
  then show ?thesis using ok by simp
next
  case (Some p)
  have p: "pd_sent p < length (pd_frame p)" "out (pd_stream p) = take (pd_sent p) (pd_frame p)" "i < rp_next_id q"
    using ids.get_in_set [OF Some] ok by (auto simp: queue_ok_def pending_ok_def)
  have "rp_pending q \<noteq> []" using Some by auto
  then have few: "length (hm_remove (=) i (rp_pending q)) < MAX_PENDING_REPLIES"
    using ok Some ids.length_remove [of "rp_pending q" i] by (cases "rp_pending q") (auto simp: queue_ok_def)
  have gone: "hm_get (=) i (hm_remove (=) i (rp_pending q)) = None" by (simp add: ids.get_remove)
  have rest: "queue_ok out (q\<lparr>rp_pending := hm_remove (=) i (rp_pending q)\<rparr>, log)"
    using ok few by (auto simp: queue_ok_def ids.wf_remove) (auto simp: hm_remove_def)
  obtain r s' where w: "write_once wr (pd_stream p) (drop (pd_sent p) (pd_frame p)) = (r, s')" by force
  have late: "closed_ok out (pd_stream p, pd_frame p, Inl TimedOut)" using p by (auto simp: closed_ok_def)
  show ?thesis
  proof (cases r)
    case (Inl e)
    then have "closed_ok out (s', pd_frame p, Inl e)" using write_once_fails w p by (auto simp: closed_ok_def)
    then show ?thesis
      using Some rest late p w Inl by (auto simp: service_reply_def queue_ok_def Let_def)
  next
    case (Inr n)
    let ?p = "p\<lparr>pd_stream := s', pd_sent := pd_sent p + n\<rparr>"
    have n: "n \<le> length (pd_frame p) - pd_sent p" "out s' = take (pd_sent p + n) (pd_frame p)"
      using write_once_some [OF w [unfolded Inr]] p by (simp_all add: take_add)
    have full: "closed_ok out (s', pd_frame p, Inr ())" if "\<not> pd_sent p + n < length (pd_frame p)"
      using n that by (auto simp: closed_ok_def intro: exI [of _ "pd_sent p + n"])
    have part: "queue_ok out (q\<lparr>rp_pending := hm_insert (=) i ?p (hm_remove (=) i (rp_pending q))\<rparr>, log)"
      if "pd_sent p + n < length (pd_frame p)"
      using rest few gone n p that
      by (auto simp: queue_ok_def ids.wf_insert ids.length_insert pending_ok_def dest!: ids.insert_keys)
    show ?thesis
      using Some rest late p w Inr full part by (auto simp: service_reply_def queue_ok_def Let_def)
  qed
qed

lemma expire_ok:
  assumes "queue_ok out (q, log)"
  shows "\<exists>st. q_step wr (Expire now) (q, log) = Some st \<and> queue_ok out st"
proof -
  have "closed_ok out (pd_stream p, pd_frame p, Inl TimedOut)" if "(i, p) \<in> set (rp_pending q)" for i p
    using assms that by (auto simp: queue_ok_def pending_ok_def closed_ok_def)
  then show ?thesis
    using assms le_trans [OF length_filter_le]
    by (auto simp: expire_replies_def queue_ok_def ids.wf_filter Let_def)
qed

lemma step_ok:
  assumes "queue_ok out st" "op_fresh out op"
  shows "\<exists>st'. q_step wr op st = Some st' \<and> queue_ok out st'"
proof (cases op)
  case (Enqueue s frame now)
  then show ?thesis using enqueue_ok assms by (cases st) (auto simp: op_fresh_def)
next
  case (Service i now)
  then show ?thesis using service_ok assms by (cases st) simp
next
  case (Expire now)
  then show ?thesis using expire_ok assms by (cases st) simp
qed

lemma run_ok:
  "queue_ok out st \<Longrightarrow> list_all (op_fresh out) ops \<Longrightarrow> \<exists>st'. q_run wr ops st = Some st' \<and> queue_ok out st'"
proof (induction ops arbitrary: st)
  case (Cons op ops)
  obtain st' where "q_step wr op st = Some st'" "queue_ok out st'"
    using step_ok [OF Cons.prems(1), of op] Cons.prems(2) by (auto simp del: split_paired_Ex)
  then show ?case using Cons by auto
qed simp

end

lemma new_queue_ok: "queue_ok out (replies_new, [])"
  by (simp add: queue_ok_def replies_new_def)

text \<open>A reply is given up one write timeout after it was queued, and the deadline says when.\<close>

lemma deadline_expires:
  assumes "replies_deadline q = Some t"
  shows "fst (expire_replies t q) \<ge> 1" and "now < t \<Longrightarrow> fst (expire_replies now q) = 0"
proof -
  from assms have t: "\<exists>i p. (i, p) \<in> set (rp_pending q) \<and> pd_deadline p = t" "\<forall>(i, p) \<in> set (rp_pending q). t \<le> pd_deadline p"
    by (auto simp: replies_deadline_def min_opt_some)
  from t(1) obtain x where "x \<in> set (rp_pending q)" "\<not> (case x of (i, p) \<Rightarrow> pd_deadline p > t)" by auto
  from length_filter_less [where P = "\<lambda>(i, p). pd_deadline p > t", OF this] show "fst (expire_replies t q) \<ge> 1"
    by (simp add: expire_replies_def Let_def)
  assume "now < t"
  then have "filter (\<lambda>(i, p). pd_deadline p > now) (rp_pending q) = rp_pending q"
    using t(2) by (intro filter_True) fastforce
  then show "fst (expire_replies now q) = 0" by (simp add: expire_replies_def)
qed

text \<open>A failed accept pauses the listener for exactly the retry delay.\<close>

lemma backoff_pause:
  "backoff_poll_fd fd t (backoff_failed now b) = (if t < now + RETRY_DELAY then -1 else fd)"
  by (simp add: backoff_poll_fd_def backoff_deadline_def backoff_failed_def)

end
