(* ===== verification/Stub.thy ===== *)
theory Stub
  imports Engine_State Reply_Queue
begin

text \<open>
  The stub listener on \<open>127.0.0.53:53\<close>: \<open>resolvd/src/stub.rs\<close>. What the sockets deliver is an input
  of the operations, as the list of results that successive calls return; a list that has run out
  stands for \<open>WouldBlock\<close>. Datagrams that are sent are an output. Streams are the type variable of
  \<open>Reply_Queue\<close>, and \<open>Instant::now()\<close> inside an operation is the argument \<open>clock\<close>.
\<close>

section \<open>Data\<close>

definition TCP_TIMEOUT :: duration where
  "TCP_TIMEOUT = from_secs 10"

definition IO_BATCH_LIMIT :: nat where
  "IO_BATCH_LIMIT = 64"

record 's tcp_client =
  tc_stream :: 's
  tc_buf :: bytes
  tc_since :: instant

datatype 's origin = OUdp socket_addr message | OTcp 's message

datatype 's incoming = IQuery "'s origin" | INothing

record 's stub =
  sb_clients :: "(nat \<times> 's tcp_client) list"
  sb_next_client :: nat
  sb_replies :: "'s replies"
  sb_backoff :: accept_backoff

type_synonym datagrams = "(bytes \<times> socket_addr) list"

definition stub_open :: "'s stub" where
  "stub_open = \<lparr>sb_clients = [], sb_next_client = 1, sb_replies = replies_new, sb_backoff = backoff_new\<rparr>"

section \<open>Queries and replies\<close>

definition formerr_reply :: "u16 \<Rightarrow> message" where
  "formerr_reply i =
     default_message\<lparr>header := default_header\<lparr>hdr_id := i, response := True, hdr_rcode := FORMERR\<rparr>\<rparr>"

definition with_class :: "u16 \<Rightarrow> rr \<Rightarrow> rr" where
  "with_class c r = r\<lparr>r_class := c\<rparr>"

definition error_reply :: "message \<Rightarrow> u8 \<Rightarrow> message" where
  "error_reply query code =
     (let r = reply_to query; r = r\<lparr>header := (header r)\<lparr>hdr_rcode := code\<rparr>\<rparr>
      in case message_opt query of
           Some opt \<Rightarrow> r\<lparr>additional := additional r @ [with_class (r_class opt) (record_opt EDNS_UDP_SIZE False)]\<rparr>
         | None \<Rightarrow> r)"

definition parse_query :: "bytes \<Rightarrow> bytes option + message" where
  "parse_query b =
     (case decode b of
        Inl _ \<Rightarrow> Inl (if length b \<ge> 12 then ok (encode (formerr_reply (from_be [b ! 0, b ! 1]))) else None)
      | Inr m \<Rightarrow>
          if response (header m) then Inl None
          else if opcode (header m) \<noteq> 0 then Inl (ok (encode (error_reply m NOTIMP)))
          else case message_question m of
              None \<Rightarrow> Inl (ok (encode (error_reply m FORMERR)))
            | Some q \<Rightarrow>
                if q_class q \<noteq> CLASS_IN then Inl (ok (encode (error_reply m NOTIMP)))
                else Inr m)"

definition reply_ttl :: "rr list \<Rightarrow> u32 \<Rightarrow> u32" where
  "reply_ttl rs d = (if rs = [] then d else Min (set (map r_ttl rs)))"

definition build_reply :: "message \<Rightarrow> answer \<Rightarrow> message" where
  "build_reply query ans =
     (let reply = reply_to query;
          reply =
            (case a_outcome ans of
               Found \<Rightarrow>
                 let chain = (case (message_question query, a_resolved_name ans) of
                                (Some q, Some resolved) \<Rightarrow>
                                  if \<not> name_eq (q_name q) resolved
                                  then [record_new (q_name q) (reply_ttl (a_records ans) (a_negative_ttl ans)) (Cname resolved)]
                                  else []
                              | _ \<Rightarrow> [])
                 in reply\<lparr>header := (header reply)\<lparr>hdr_rcode := NOERROR\<rparr>,
                          answers := answers reply @ chain @ a_records ans\<rparr>
             | NotFound \<Rightarrow> reply\<lparr>header := (header reply)\<lparr>hdr_rcode := NXDOMAIN\<rparr>\<rparr>
             | Unavailable \<Rightarrow> reply\<lparr>header := (header reply)\<lparr>hdr_rcode := SERVFAIL\<rparr>\<rparr>)
      in if message_opt query \<noteq> None
         then reply\<lparr>additional := additional reply @ [record_opt EDNS_UDP_SIZE False]\<rparr>
         else reply)"

section \<open>The operations\<close>

fun receive_loop :: "nat \<Rightarrow> (io_error + (bytes \<times> socket_addr)) list \<Rightarrow> 's incoming list \<times> datagrams" where
  "receive_loop 0 inputs = ([], [])"
| "receive_loop (Suc n) [] = ([], [])"
| "receive_loop (Suc n) (Inl e # inputs) = (if e = Interrupted then receive_loop n inputs else ([], []))"
| "receive_loop (Suc n) (Inr (b, peer) # inputs) =
     (let (out, sent) = receive_loop n inputs in
      if \<not> is_loopback (socket_ip peer) then (out, sent)
      else case parse_query (take 4096 b) of
          Inr query \<Rightarrow> (IQuery (OUdp peer query) # out, sent)
        | Inl (Some reply) \<Rightarrow> (out, (reply, peer) # sent)
        | Inl None \<Rightarrow> (out, sent))"

definition receive_udp :: "(io_error + (bytes \<times> socket_addr)) list \<Rightarrow> 's incoming list \<times> datagrams" where
  "receive_udp inputs = receive_loop IO_BATCH_LIMIT inputs"

text \<open>An accepted stream comes with its peer and whether it could be made nonblocking.\<close>

fun accept_loop ::
  "nat \<Rightarrow> instant \<Rightarrow> instant \<Rightarrow> nat \<Rightarrow> (io_error + ('s \<times> socket_addr \<times> bool)) list \<Rightarrow> 's stub \<Rightarrow> 's stub" where
  "accept_loop 0 clock now limit inputs st = st"
| "accept_loop (Suc n) clock now limit [] st = st"
| "accept_loop (Suc n) clock now limit (Inl e # inputs) st =
     (if e = WouldBlock then st
      else if e = Interrupted then accept_loop n clock now limit inputs st
      else st\<lparr>sb_backoff := backoff_failed clock (sb_backoff st)\<rparr>)"
| "accept_loop (Suc n) clock now limit (Inr (stream, peer, nonblocking) # inputs) st =
     (if length (sb_clients st) \<ge> limit \<or> \<not> is_loopback (socket_ip peer) \<or> \<not> nonblocking
      then accept_loop n clock now limit inputs st
      else
        accept_loop n clock now limit inputs
          (st\<lparr>sb_next_client := sb_next_client st + 1,
              sb_clients := hm_insert (=) (sb_next_client st)
                \<lparr>tc_stream = stream, tc_buf = [], tc_since = now\<rparr> (sb_clients st)\<rparr>))"

definition stub_accept :: "instant \<Rightarrow> instant \<Rightarrow> nat \<Rightarrow> (io_error + ('s \<times> socket_addr \<times> bool)) list \<Rightarrow> 's stub \<Rightarrow> 's stub" where
  "stub_accept clock now limit inputs st = accept_loop IO_BATCH_LIMIT clock now limit inputs st"

definition client_fds :: "('s \<Rightarrow> nat) \<Rightarrow> 's stub \<Rightarrow> (nat \<times> nat) list" where
  "client_fds as_raw_fd st = map (\<lambda>(i, c). (i, as_raw_fd (tc_stream c))) (sb_clients st)"

definition send_tcp :: "'s writer \<Rightarrow> instant \<Rightarrow> 's \<Rightarrow> bytes \<Rightarrow> 's stub \<Rightarrow> 's stub" where
  "send_tcp wr clock stream message st =
     (let frame = be_bytes 2 (word_of_nat (length message) :: u16) @ message
      in st\<lparr>sb_replies := snd (snd (enqueue wr stream frame clock (sb_replies st)))\<rparr>)"

text \<open>Reading: the buffer and whether the peer has closed, or \<open>None\<close> when the client is dropped.\<close>

fun tcp_read_loop :: "(io_error + bytes) list \<Rightarrow> bytes \<Rightarrow> (bytes \<times> bool) option" where
  "tcp_read_loop [] buf = Some (buf, False)"
| "tcp_read_loop (Inl e # reads) buf =
     (if e = WouldBlock then Some (buf, False)
      else if e = Interrupted then tcp_read_loop reads buf
      else None)"
| "tcp_read_loop (Inr chunk # reads) buf =
     (if chunk = [] then Some (buf, True)
      else let buf' = buf @ chunk in
        if length buf' > 2 + MAX_MESSAGE_SIZE then None else tcp_read_loop reads buf')"

definition service_client ::
  "'s writer \<Rightarrow> instant \<Rightarrow> (io_error + bytes) list \<Rightarrow> nat \<Rightarrow> 's stub \<Rightarrow> 's incoming option \<times> 's stub" where
  "service_client wr clock reads i st =
     (case hm_get (=) i (sb_clients st) of
        None \<Rightarrow> (None, st)
      | Some c \<Rightarrow>
          let gone = st\<lparr>sb_clients := hm_remove (=) i (sb_clients st)\<rparr> in
          case tcp_read_loop reads (tc_buf c) of
            None \<Rightarrow> (Some INothing, gone)
          | Some (buf, eof) \<Rightarrow>
              let kept = st\<lparr>sb_clients := hm_insert (=) i (c\<lparr>tc_buf := buf\<rparr>) (sb_clients st)\<rparr> in
              if length buf < 2 then (if eof then (Some INothing, gone) else (None, kept))
              else
                let len = unat (from_be [buf ! 0, buf ! 1] :: u16) in
                if length buf < 2 + len then (if eof then (Some INothing, gone) else (None, kept))
                else case parse_query (take len (drop 2 buf)) of
                    Inr query \<Rightarrow> (Some (IQuery (OTcp (tc_stream c) query)), gone)
                  | Inl (Some reply) \<Rightarrow> (Some INothing, send_tcp wr clock (tc_stream c) reply gone)
                  | Inl None \<Rightarrow> (Some INothing, gone))"

definition expire_stub :: "instant \<Rightarrow> 's stub \<Rightarrow> 's stub" where
  "expire_stub now st =
     st\<lparr>sb_clients := filter (\<lambda>(i, c). now - tc_since c < TCP_TIMEOUT) (sb_clients st),
        sb_replies := snd (snd (expire_replies now (sb_replies st)))\<rparr>"

definition listener_fd :: "int \<Rightarrow> instant \<Rightarrow> 's stub \<Rightarrow> int" where
  "listener_fd fd now st = backoff_poll_fd fd now (sb_backoff st)"

definition stub_deadline :: "instant \<Rightarrow> 's stub \<Rightarrow> instant option" where
  "stub_deadline now st =
     min_opt (map (\<lambda>(i, c). tc_since c + TCP_TIMEOUT) (sb_clients st)
       @ (case replies_deadline (sb_replies st) of Some t \<Rightarrow> [t] | None \<Rightarrow> [])
       @ (case backoff_deadline now (sb_backoff st) of Some t \<Rightarrow> [t] | None \<Rightarrow> []))"

definition stub_answer :: "'s writer \<Rightarrow> instant \<Rightarrow> 's origin \<Rightarrow> answer \<Rightarrow> 's stub \<Rightarrow> datagrams \<times> 's stub" where
  "stub_answer wr clock orig ans st =
     (case orig of
        OUdp peer query \<Rightarrow>
          (case encode_udp (build_reply query ans) (udp_size query) of
             Inr b \<Rightarrow> ([(b, peer)], st)
           | Inl _ \<Rightarrow> ([], st))
      | OTcp stream query \<Rightarrow>
          (case encode (build_reply query ans) of
             Inr b \<Rightarrow> ([], send_tcp wr clock stream b st)
           | Inl _ \<Rightarrow> ([], st)))"

definition stub_service_reply :: "'s writer \<Rightarrow> nat \<Rightarrow> instant \<Rightarrow> 's stub \<Rightarrow> 's stub option" where
  "stub_service_reply wr i now st =
     map_option (\<lambda>(r, closed, q). st\<lparr>sb_replies := q\<rparr>) (service_reply wr i now (sb_replies st))"

section \<open>What is answered\<close>

text \<open>The queries that are resolved, and the shape of every error reply.\<close>

definition resolvable :: "message \<Rightarrow> bool" where
  "resolvable m \<longleftrightarrow>
     \<not> response (header m) \<and> opcode (header m) = 0 \<and> (\<exists>q. questions m = [q] \<and> q_class q = CLASS_IN)"

lemma parse_query_accepts: "parse_query b = Inr m \<longleftrightarrow> decode b = Inr m \<and> resolvable m"
  by (auto simp: parse_query_def resolvable_def message_question_def split: sum.splits option.splits list.splits if_splits)

lemma wf_reply_to: "wf_message m \<Longrightarrow> wf_message (reply_to m)"
  by (auto simp: wf_message_def reply_to_def default_message_def default_header_def wf_header_def)

lemma wf_formerr: "wf_message (formerr_reply i)"
  by (simp add: wf_message_def formerr_reply_def default_message_def default_header_def wf_header_def)

lemma wf_error_reply: "wf_message m \<Longrightarrow> code < 16 \<Longrightarrow> wf_message (error_reply m code)"
  using wf_reply_to [of m] wf_record_opt [of EDNS_UDP_SIZE False]
  by (auto simp: error_reply_def wf_message_def wf_header_def with_class_def wf_record_def Let_def split: option.splits)

lemma error_reply_fields:
  "hdr_id (header (error_reply m code)) = hdr_id (header m)" "response (header (error_reply m code))"
  "hdr_rcode (header (error_reply m code)) = code" "questions (error_reply m code) = questions m"
  by (auto simp: error_reply_def reply_to_def default_message_def Let_def split: option.splits)

lemma decode_id: "decode b = Inr m \<Longrightarrow> hdr_id (header m) = from_be [b ! 0, b ! 1]"
  by (auto simp: decode_def from_flags_def Let_def rust_simps split: if_splits prod.splits)

lemma parse_query_error:
  assumes "parse_query b = Inl (Some r)"
  shows "\<exists>m. decode r = Inr m \<and> response (header m) \<and> hdr_id (header m) = from_be [b ! 0, b ! 1]
    \<and> hdr_rcode (header m) \<in> {FORMERR, NOTIMP}"
proof (cases "decode b")
  case (Inl e)
  then have "encode (formerr_reply (from_be [b ! 0, b ! 1])) = Inr r"
    using assms by (auto simp: parse_query_def rust_simps split: if_splits)
  from decode_encode [OF wf_formerr this] show ?thesis
    by (simp add: formerr_reply_def default_message_def)
next
  case (Inr m)
  then obtain code where c: "code \<in> {FORMERR, NOTIMP}" "encode (error_reply m code) = Inr r"
    using assms by (auto simp: parse_query_def rust_simps split: if_splits option.splits)
  have "wf_message (error_reply m code)" using decode_sound [OF Inr] c by (intro wf_error_reply) auto
  from decode_encode [OF this c(2)] c(1) decode_id [OF Inr] show ?thesis
    by (auto simp: error_reply_fields)
qed
definition wf_answer :: "answer \<Rightarrow> bool" where
  "wf_answer a \<longleftrightarrow>
     list_all wf_record (a_records a) \<and> (case a_resolved_name a of Some n \<Rightarrow> wf_name n | None \<Rightarrow> True)"

lemma build_reply_fields:
  "hdr_id (header (build_reply query ans)) = hdr_id (header query)"
  "response (header (build_reply query ans))"
  "questions (build_reply query ans) = questions query"
  "hdr_rcode (header (build_reply query ans)) =
     (case a_outcome ans of Found \<Rightarrow> NOERROR | NotFound \<Rightarrow> NXDOMAIN | Unavailable \<Rightarrow> SERVFAIL)"
  by (auto simp: build_reply_def reply_to_def default_message_def Let_def split: outcome.splits)

lemma build_reply_answers:
  "answers (build_reply query ans) =
     (if a_outcome ans = Found then
        (case (message_question query, a_resolved_name ans) of
           (Some q, Some resolved) \<Rightarrow>
             if \<not> name_eq (q_name q) resolved
             then [record_new (q_name q) (reply_ttl (a_records ans) (a_negative_ttl ans)) (Cname resolved)]
             else []
         | _ \<Rightarrow> []) @ a_records ans
      else [])"
  by (auto simp: build_reply_def reply_to_def default_message_def Let_def split: outcome.splits option.splits)

lemma build_reply_opt:
  "message_opt (build_reply query ans) =
     (if message_opt query = None then None else Some (record_opt EDNS_UDP_SIZE False))"
  by (auto simp: message_opt_def build_reply_def reply_to_def default_message_def record_opt_def Let_def
      split: outcome.splits)

lemma wf_build_reply:
  assumes "wf_message query" "wf_answer ans"
  shows "wf_message (build_reply query ans)"
proof -
  have q: "wf_name (q_name q)" if "message_question query = Some q" for q
    using that assms(1) by (auto simp: message_question_def wf_message_def split: list.splits)
  have "list_all wf_record (answers (build_reply query ans))"
    unfolding build_reply_answers using assms(2) q
    by (auto simp: wf_answer_def wf_record_def record_new_def split: option.splits)
  moreover have "wf_header (header (build_reply query ans))"
    using wf_reply_to [OF assms(1)]
    by (auto simp: wf_message_def wf_header_def build_reply_def Let_def split: outcome.splits)
  moreover have "authority (build_reply query ans) = []" "list_all wf_record (additional (build_reply query ans))"
    using wf_record_opt [of EDNS_UDP_SIZE False]
    by (auto simp: build_reply_def reply_to_def default_message_def Let_def split: outcome.splits)
  ultimately show ?thesis using assms(1) by (simp add: wf_message_def build_reply_fields(3))
qed

text \<open>A datagram that answers a query fits what the client announced and decodes to the reply.\<close>

lemma stub_udp_answer:
  assumes q: "wf_message query" "length (questions query) \<le> 1" and a: "wf_answer ans"
    and s: "stub_answer wr clock (OUdp peer query) ans st = (sent, st')" and d: "(b, to) \<in> set sent"
  shows "st' = st \<and> to = peer \<and> length b \<le> unat (udp_size query)
    \<and> (decode b = Inr (build_reply query ans) \<or> decode b = Inr (truncated_form (build_reply query ans)))"
proof -
  let ?m = "build_reply query ans"
  note wf = wf_build_reply [OF q(1) a]
  from s d have e: "encode_udp ?m (udp_size query) = Inr b" "to = peer" "st' = st"
    by (auto simp: stub_answer_def split: sum.splits)
  have size: "512 \<le> unat (udp_size query)"
    by (auto simp: udp_size_def CLASSIC_UDP_SIZE_def word_le_nat_alt max_def split: option.splits)
  from e(1) obtain full where f: "encode ?m = Inr full"
    "(if length full \<le> unat (udp_size query) then Inr full else encode (truncated_form ?m)) = Inr b"
    by (auto simp: encode_udp_alt rust_simps)
  show ?thesis
  proof (cases "length full \<le> unat (udp_size query)")
    case True
    then show ?thesis using f e decode_encode [OF wf f(1)] by simp
  next
    case False
    then have t: "encode (truncated_form ?m) = Inr b" using f(2) by simp
    have "length b \<le> 282"
      by (rule length_truncated_form [OF t wf]) (use q(2) in \<open>auto simp: build_reply_fields build_reply_opt split: if_splits\<close>)
    then show ?thesis using e size decode_encode [OF wf_truncated_form [OF wf] t] by simp
  qed
qed

section \<open>TCP clients\<close>

text \<open>How the query is cut into reads makes no difference.\<close>

lemma insert_again: "hm_insert (=) i b (hm_insert (=) i a xs) = hm_insert (=) i b xs"
  by (induction xs) auto

lemma remove_inserted: "hm_remove (=) i (hm_insert (=) i a xs) = hm_remove (=) i xs"
  by (induction xs) (auto simp: hm_remove_def)

lemma tcp_read_append:
  assumes "list_all (\<lambda>c. c \<noteq> []) chunks"
  shows "tcp_read_loop (map Inr chunks @ reads) buf =
    (case tcp_read_loop (map Inr chunks) buf of None \<Rightarrow> None | Some (buf', eof) \<Rightarrow> tcp_read_loop reads buf')"
  using assms by (induction chunks arbitrary: buf) (auto simp: Let_def)

lemma segmentation:
  assumes c: "list_all (\<lambda>c. c \<noteq> []) chunks"
    and first: "service_client wr clock (map Inr chunks) i st = (None, st1)"
  shows "service_client wr clock' reads i st1 = service_client wr clock' (map Inr chunks @ reads) i st"
proof (cases "hm_get (=) i (sb_clients st)")
  case None
  then show ?thesis using first by (simp add: service_client_def)
next
  case (Some cl)
  obtain buf eof where r: "tcp_read_loop (map Inr chunks) (tc_buf cl) = Some (buf, eof)"
    using first Some by (cases "tcp_read_loop (map Inr chunks) (tc_buf cl)") (auto simp: service_client_def)
  have st1: "st1 = st\<lparr>sb_clients := hm_insert (=) i (cl\<lparr>tc_buf := buf\<rparr>) (sb_clients st)\<rparr>"
    using first Some r by (auto simp: service_client_def Let_def split: if_splits sum.splits option.splits)
  have g: "hm_get (=) i (sb_clients st1) = Some (cl\<lparr>tc_buf := buf\<rparr>)"
    by (simp add: st1 ids.get_insert)
  have "tcp_read_loop (map Inr chunks @ reads) (tc_buf cl) = tcp_read_loop reads buf"
    using tcp_read_append [OF c] r by simp
  then show ?thesis
    unfolding service_client_def g Some
    by (cases "tcp_read_loop reads buf")
       (auto simp: st1 insert_again remove_inserted Let_def split: sum.splits option.splits)
qed

text \<open>A whole query, however many reads it takes, is handed on with its stream.\<close>

lemma tcp_read_all:
  "list_all (\<lambda>c. c \<noteq> []) chunks \<Longrightarrow> length (buf @ concat chunks) \<le> 2 + MAX_MESSAGE_SIZE \<Longrightarrow>
   tcp_read_loop (map Inr chunks) buf = Some (buf @ concat chunks, False)"
  by (induction chunks arbitrary: buf) (auto simp: Let_def)

lemma whole_query:
  assumes "list_all (\<lambda>c. c \<noteq> []) chunks" "hm_get (=) i (sb_clients st) = Some cl"
    and "tc_buf cl @ concat chunks = be_bytes 2 (word_of_nat (length b) :: u16) @ b" "length b \<le> MAX_MESSAGE_SIZE"
    and "parse_query b = Inr m"
  shows "service_client wr clock (map Inr chunks) i st =
    (Some (IQuery (OTcp (tc_stream cl) m)), st\<lparr>sb_clients := hm_remove (=) i (sb_clients st)\<rparr>)"
proof -
  let ?buf = "be_bytes 2 (word_of_nat (length b) :: u16) @ b"
  have r: "tcp_read_loop (map Inr chunks) (tc_buf cl) = Some (?buf, False)"
    using tcp_read_all [OF assms(1), of "tc_buf cl"] assms(3,4) by simp
  have "[?buf ! 0, ?buf ! 1] = be_bytes 2 (word_of_nat (length b) :: u16)"
    by (simp add: be_bytes_def upt_rec)
  then have "unat (from_be [?buf ! 0, ?buf ! 1] :: u16) = length b"
    using assms(4) by (simp only: from_be_be_bytes) (simp add: MAX_MESSAGE_SIZE_def unat_count from_be_be_bytes)
  then show ?thesis using assms(2,5) r by (simp add: service_client_def Let_def)
qed

section \<open>Admission\<close>

lemma accept_bounded:
  assumes "\<forall>(i, c) \<in> set (sb_clients st). i < sb_next_client st"
  shows "length (sb_clients (accept_loop n clock now limit inputs st)) \<le> max limit (length (sb_clients st))
    \<and> (\<forall>(i, c) \<in> set (sb_clients (accept_loop n clock now limit inputs st)). i < sb_next_client (accept_loop n clock now limit inputs st))"
  using assms
proof (induction n clock now limit inputs st rule: accept_loop.induct)
  case (4 n clock now limit stream peer nonblocking inputs st)
  show ?case
  proof (cases "length (sb_clients st) \<ge> limit \<or> \<not> is_loopback (socket_ip peer) \<or> \<not> nonblocking")
    case True
    then show ?thesis using 4 by auto
  next
    case False
    let ?c = "\<lparr>tc_stream = stream, tc_buf = [], tc_since = now\<rparr>"
    let ?st = "st\<lparr>sb_next_client := sb_next_client st + 1,
      sb_clients := hm_insert (=) (sb_next_client st) ?c (sb_clients st)\<rparr>"
    have new: "hm_get (=) (sb_next_client st) (sb_clients st) = None"
      using "4.prems" by (auto simp: ids.get_eq_None)
    have "\<forall>(i, c) \<in> set (sb_clients ?st). i < sb_next_client ?st"
      using "4.prems" by (auto dest!: ids.insert_keys intro: less_SucI)
    from "4.IH"(2) [OF False this] show ?thesis
      using False new by (auto simp: ids.length_insert)
  qed
qed auto

text \<open>A datagram from elsewhere is neither resolved nor answered.\<close>

lemma receive_loopback_only:
  fixes out :: "'s incoming list"
  assumes "receive_loop n inputs = (out, sent)"
  shows "(\<forall>x \<in> set out. \<exists>peer query b. x = IQuery (OUdp peer query) \<and> is_loopback (socket_ip peer)
      \<and> Inr (b, peer) \<in> set inputs \<and> parse_query (take 4096 b) = Inr query)
    \<and> (\<forall>(r, peer) \<in> set sent. is_loopback (socket_ip peer)) \<and> length out + length sent \<le> n"
  using assms
proof (induction n inputs arbitrary: out sent rule: receive_loop.induct)
  case (4 n b peer inputs)
  obtain out' :: "'s incoming list" and sent' where r: "receive_loop n inputs = (out', sent')" by force
  note IH = "4.IH" [OF r]
  show ?case
  proof (cases "is_loopback (socket_ip peer)")
    case False
    then show ?thesis using IH "4.prems" r by fastforce
  next
    case True
    then show ?thesis using IH "4.prems" r
      by (cases "parse_query (take 4096 b)") (fastforce split: option.splits)+
  qed
qed (auto split: if_splits)

end
