(* ===== verification/Std_Text.thy ===== *)
theory Std_Text
  imports Dns_Reverse
begin

text \<open>
  The text operations of the Rust standard library that the other components use:
  validity of UTF-8 (\<open>str::from_utf8\<close>) and the presentation of IP addresses
  (\<open>Display\<close> and \<open>FromStr\<close> of \<open>IpAddr\<close>). A parser takes the remaining bytes and returns the value
  and the bytes it left, \<open>None\<close> leaving the input untouched (\<open>read_atomically\<close>).
\<close>

section \<open>UTF-8\<close>

definition utf8_cont :: "u8 \<Rightarrow> bool" where
  "utf8_cont b \<longleftrightarrow> 0x80 \<le> b \<and> b \<le> 0xBF"

text \<open>The first bytes of the characters of two, three and four bytes, and what may follow them.\<close>

definition utf8_lead2 :: "u8 \<Rightarrow> bool" where
  "utf8_lead2 a \<longleftrightarrow> 0xC2 \<le> a \<and> a \<le> 0xDF"

definition utf8_lead3 :: "u8 \<Rightarrow> bool" where
  "utf8_lead3 a \<longleftrightarrow> 0xE0 \<le> a \<and> a \<le> 0xEF"

definition utf8_lead4 :: "u8 \<Rightarrow> bool" where
  "utf8_lead4 a \<longleftrightarrow> 0xF0 \<le> a \<and> a \<le> 0xF4"

definition utf8_second :: "u8 \<Rightarrow> u8 \<Rightarrow> bool" where
  "utf8_second a b \<longleftrightarrow>
     utf8_cont b \<and> (a = 0xE0 \<longrightarrow> 0xA0 \<le> b) \<and> (a = 0xED \<longrightarrow> b \<le> 0x9F) \<and>
     (a = 0xF0 \<longrightarrow> 0x90 \<le> b) \<and> (a = 0xF4 \<longrightarrow> b \<le> 0x8F)"

fun valid_utf8 :: "bytes \<Rightarrow> bool" where
  "valid_utf8 [] = True"
| "valid_utf8 (a # s) =
     (if a < 0x80 then valid_utf8 s
      else if utf8_lead2 a then (case s of b # s' \<Rightarrow> utf8_cont b \<and> valid_utf8 s' | _ \<Rightarrow> False)
      else if utf8_lead3 a then
        (case s of b # c # s' \<Rightarrow> utf8_second a b \<and> utf8_cont c \<and> valid_utf8 s' | _ \<Rightarrow> False)
      else if utf8_lead4 a then
        (case s of b # c # d # s' \<Rightarrow> utf8_second a b \<and> utf8_cont c \<and> utf8_cont d \<and> valid_utf8 s' | _ \<Rightarrow> False)
      else False)"

definition ascii :: "bytes \<Rightarrow> bool" where
  "ascii s \<longleftrightarrow> list_all (\<lambda>b. b < 0x80) s"

lemma valid_utf8_ascii: "ascii s \<Longrightarrow> valid_utf8 s"
  by (induction s) (auto simp: ascii_def)

section \<open>Printing addresses\<close>

definition v4_display :: "u32 \<Rightarrow> bytes" where
  "v4_display a = dotted (map dec_u8 (be_bytes 4 a))"

definition segments :: "u128 \<Rightarrow> u16 list" where
  "segments a = map (\<lambda>i. ucast (drop_bit (16 * i) a)) (rev [0..<8])"

definition from_segments :: "u16 list \<Rightarrow> u128" where
  "from_segments ws = foldl (\<lambda>acc w. push_bit 16 acc OR ucast w) 0 ws"

definition hex_u16 :: "u16 \<Rightarrow> bytes" where
  "hex_u16 w =
     (let ds = dropWhile (\<lambda>d. d = 0) (map (\<lambda>i. ucast (drop_bit (4 * i) w AND 15)) (rev [0..<4]))
      in map hex_digit (if ds = [] then [0] else ds))"

fun colon_sep :: "u16 list \<Rightarrow> bytes" where
  "colon_sep [] = []"
| "colon_sep (w # ws) = hex_u16 w @ concat (map (\<lambda>w. 58 # hex_u16 w) ws)"

text \<open>The first longest run of zero segments, as start and length.\<close>

fun zero_run :: "nat \<Rightarrow> u16 list \<Rightarrow> nat \<times> nat \<Rightarrow> nat \<times> nat \<Rightarrow> nat \<times> nat" where
  "zero_run i [] current longest = longest"
| "zero_run i (w # ws) current longest =
     (if w = 0 then
        (let current' = (if snd current = 0 then i else fst current, snd current + 1)
         in zero_run (i + 1) ws current' (if snd current' > snd longest then current' else longest))
      else zero_run (i + 1) ws (0, 0) longest)"

definition v6_display :: "u128 \<Rightarrow> bytes" where
  "v6_display a =
     (let ws = segments a in
      if take 6 ws = [0, 0, 0, 0, 0, 0xffff] then byte_str ''::ffff:'' @ v4_display (ucast a)
      else
        let (start, len) = zero_run 0 ws (0, 0) (0, 0) in
        if len > 1 then colon_sep (take start ws) @ [58, 58] @ colon_sep (drop (start + len) ws)
        else colon_sep ws)"

fun ip_display :: "ip_addr \<Rightarrow> bytes" where
  "ip_display (V4 a) = v4_display a"
| "ip_display (V6 a) = v6_display a"

section \<open>Parsing addresses\<close>

definition to_digit10 :: "u8 \<Rightarrow> u8 option" where
  "to_digit10 b = (if 48 \<le> b \<and> b \<le> 57 then Some (b - 48) else None)"

definition read_number ::
  "(u8 \<Rightarrow> u8 option) \<Rightarrow> nat \<Rightarrow> nat \<Rightarrow> bool \<Rightarrow> nat \<Rightarrow> bytes \<Rightarrow> (nat \<times> bytes) option" where
  "read_number to_digit radix max_digits zero_prefix limit s =
     (let ds = takeWhile (\<lambda>b. to_digit b \<noteq> None) s;
          v = foldl (\<lambda>acc b. acc * radix + unat (the (to_digit b))) 0 ds
      in if ds = [] \<or> length ds > max_digits \<or> (\<not> zero_prefix \<and> hd ds = 48 \<and> length ds > 1) \<or> v > limit
         then None else Some (v, drop (length ds) s))"

abbreviation read_dec :: "bytes \<Rightarrow> (nat \<times> bytes) option" where
  "read_dec \<equiv> read_number to_digit10 10 3 False 255"

abbreviation read_hex :: "bytes \<Rightarrow> (nat \<times> bytes) option" where
  "read_hex \<equiv> read_number to_digit16 16 4 True 65535"

definition read_given_char :: "u8 \<Rightarrow> bytes \<Rightarrow> bytes option" where
  "read_given_char c s = (case s of b # s' \<Rightarrow> if b = c then Some s' else None | [] \<Rightarrow> None)"

definition read_separator :: "u8 \<Rightarrow> nat \<Rightarrow> (bytes \<Rightarrow> ('a \<times> bytes) option) \<Rightarrow> bytes \<Rightarrow> ('a \<times> bytes) option" where
  "read_separator sep i inner s =
     (if i > 0 then Option.bind (read_given_char sep s) inner else inner s)"

fun read_octets :: "nat \<Rightarrow> nat \<Rightarrow> bytes \<Rightarrow> (bytes \<times> bytes) option" where
  "read_octets i 0 s = Some ([], s)"
| "read_octets i (Suc k) s =
     (case read_separator 46 i read_dec s of
        None \<Rightarrow> None
      | Some (v, s1) \<Rightarrow>
          map_option (\<lambda>(vs, s2). (word_of_nat v # vs, s2)) (read_octets (i + 1) k s1))"

definition read_ipv4_addr :: "bytes \<Rightarrow> (u32 \<times> bytes) option" where
  "read_ipv4_addr s = map_option (\<lambda>(vs, s'). (from_be vs, s')) (read_octets 0 4 s)"

text \<open>\<open>read_groups i k\<close>: from group \<open>i\<close> on, at most \<open>k\<close> more groups.\<close>

fun read_groups :: "nat \<Rightarrow> nat \<Rightarrow> bytes \<Rightarrow> u16 list \<times> bool \<times> bytes" where
  "read_groups i 0 s = ([], False, s)"
| "read_groups i (Suc k) s =
     (case (if k > 0 then read_separator 58 i read_ipv4_addr s else None) of
        Some (a, s1) \<Rightarrow> ([ucast (drop_bit 16 a), ucast a], True, s1)
      | None \<Rightarrow>
     (case read_separator 58 i read_hex s of
        None \<Rightarrow> ([], False, s)
      | Some (g, s1) \<Rightarrow>
          (let (gs, v4, s2) = read_groups (i + 1) k s1 in (word_of_nat g # gs, v4, s2))))"

definition read_ipv6_addr :: "bytes \<Rightarrow> (u128 \<times> bytes) option" where
  "read_ipv6_addr s =
     (let (head, head_ipv4, s1) = read_groups 0 8 s in
      if length head = 8 then Some (from_segments head, s1)
      else if head_ipv4 then None
      else
        Option.bind (read_given_char 58 s1) (\<lambda>s2.
        Option.bind (read_given_char 58 s2) (\<lambda>s3.
          let (tail, _, s4) = read_groups 0 (7 - length head) s3 in
          Some (from_segments (head @ replicate (8 - length head - length tail) 0 @ tail), s4))))"

definition parse_ip :: "bytes \<Rightarrow> ip_addr option" where
  "parse_ip s =
     (case (case read_ipv4_addr s of
              Some (a, r) \<Rightarrow> Some (V4 a, r)
            | None \<Rightarrow> map_option (\<lambda>(a, r). (V6 a, r)) (read_ipv6_addr s)) of
        Some (a, []) \<Rightarrow> Some a
      | _ \<Rightarrow> None)"

section \<open>Printed addresses parse\<close>

lemma parse_digits_value:
  "parse_digits acc ds = Some v \<Longrightarrow>
   foldl (\<lambda>acc b. acc * 10 + unat (the (to_digit10 b))) acc ds = v \<and> (\<forall>b \<in> set ds. to_digit10 b \<noteq> None)"
proof (induction ds arbitrary: acc)
  case (Cons b ds)
  have b: "to_digit10 b = Some (b - 48)" using Cons.prems by (auto simp: to_digit10_def split: if_splits)
  have "parse_digits (acc * 10 + unat (b - 48)) ds = Some v"
    using Cons.prems by (auto simp: Let_def split: if_splits)
  from Cons.IH [OF this] show ?case using b by simp
qed simp

lemma takeWhile_stop:
  "\<forall>x \<in> set xs. P x \<Longrightarrow> ys = [] \<or> \<not> P (hd ys) \<Longrightarrow> takeWhile P (xs @ ys) = xs"
  by (cases ys) (auto simp: takeWhile_append)

lemma dec_u8_zero: "length (dec_u8 b) > 1 \<Longrightarrow> hd (dec_u8 b) \<noteq> 48"
proof -
  assume "length (dec_u8 b) > 1"
  then have n: "unat b \<ge> 10" by (auto simp: dec_u8_def Let_def split: if_splits)
  have small: "digit d \<noteq> 48" if "0 < d" "d < 10" for d
  proof
    assume "digit d = 48"
    then have "unat (digit d - 48) = 0" by simp
    then show False using digit_facts(3) [OF that(2)] that(1) by simp
  qed
  have "unat b < 256" by (rule unat_u8_lt)
  then show ?thesis using n small [of "unat b div 100"] small [of "unat b div 10"]
    by (auto simp: dec_u8_def Let_def)
qed

lemma read_dec_dec:
  assumes "rest = [] \<or> to_digit10 (hd rest) = None"
  shows "read_dec (dec_u8 b @ rest) = Some (unat b, rest)"
proof -
  note v = parse_digits_value [OF parse_digits_dec [of b]]
  have tw: "takeWhile (\<lambda>b. to_digit10 b \<noteq> None) (dec_u8 b @ rest) = dec_u8 b"
    using v assms by (intro takeWhile_stop) auto
  have "dec_u8 b \<noteq> []" using dec_u8_label(1) [of b] by (auto simp: wf_label_def)
  moreover have "unat b \<le> 255" using unat_u8_lt [of b] by simp
  ultimately show ?thesis
    using v dec_u8_label(3) [of b] dec_u8_zero [of b] unfolding read_number_def tw by (auto simp: Let_def)
qed

definition octets_text :: "nat \<Rightarrow> bytes \<Rightarrow> bytes" where
  "octets_text i bs = (if i = 0 then dotted (map dec_u8 bs) else concat (map (\<lambda>b. 46 # dec_u8 b) bs))"

lemma dotted_Cons: "dotted (l # ls) = l @ concat (map (\<lambda>l. 46 # l) ls)"
  by (induction ls arbitrary: l) auto

lemma octets_text_Cons:
  "octets_text i (b # bs) = (if i = 0 then [] else [46]) @ dec_u8 b @ octets_text (i + 1) bs"
  by (simp add: octets_text_def dotted_Cons comp_def)

lemma read_octets_text:
  assumes "rest = [] \<or> to_digit10 (hd rest) = None"
  shows "read_octets i (length bs) (octets_text i bs @ rest) = Some (bs, rest)"
proof (induction bs arbitrary: i)
  case Nil
  then show ?case by (simp add: octets_text_def)
next
  case (Cons b bs)
  have next_ok: "octets_text (Suc i) bs @ rest = [] \<or> to_digit10 (hd (octets_text (Suc i) bs @ rest)) = None"
    using assms by (cases bs) (auto simp: octets_text_def to_digit10_def)
  have "read_separator 46 i read_dec (octets_text i (b # bs) @ rest) = Some (unat b, octets_text (Suc i) bs @ rest)"
    using read_dec_dec [OF next_ok, of b]
    by (cases "i = 0") (simp_all add: read_separator_def octets_text_Cons read_given_char_def)
  then show ?case using Cons.IH [of "Suc i"] by simp
qed

lemma read_v4_display:
  assumes "rest = [] \<or> to_digit10 (hd rest) = None"
  shows "read_ipv4_addr (v4_display a @ rest) = Some (a, rest)"
  using read_octets_text [OF assms, of 0 "be_bytes 4 a"]
  by (simp add: read_ipv4_addr_def v4_display_def octets_text_def from_be_be_bytes)
lemma unat_u16_le: "unat (w :: u16) \<le> 65535"
proof -
  have "unat w < 2 ^ LENGTH(16)" by (rule unsigned_less)
  then show ?thesis by simp
qed

definition nibble_list :: "u16 \<Rightarrow> u8 list" where
  "nibble_list w = map (\<lambda>i. ucast (drop_bit (4 * i) w AND 15)) (rev [0..<4])"

lemma nibbles_list: "nibble_list w =
    [ucast (drop_bit 12 w AND 15), ucast (drop_bit 8 w AND 15), ucast (drop_bit 4 w AND 15), ucast (w AND 15)]"
  by (simp add: nibble_list_def upt_rec)

lemma unat_nibble: "unat (ucast (drop_bit k w AND 15) :: u8) = unat (w :: u16) div 2 ^ k mod 16"
proof -
  have "(15 :: u16) = mask 4" by (simp add: mask_eq_exp_minus_1)
  then have "drop_bit k w AND 15 = take_bit 4 (drop_bit k w)" by (simp add: take_bit_eq_mask)
  moreover have "take_bit 16 (unat w) = unat w" using unat_u16_le [of w] by (simp add: take_bit_nat_eq_self)
  ultimately have "unat (drop_bit k w AND 15) = take_bit 4 (drop_bit k (unat w))"
    by (simp add: unsigned_take_bit_eq unsigned_drop_bit_eq)
  then have "unat (drop_bit k w AND 15) = unat w div 2 ^ k mod 16"
    by (simp only: drop_bit_eq_div take_bit_eq_mod) simp
  moreover have "unat (ucast (drop_bit k w AND 15) :: u8) = unat (drop_bit k w AND 15) mod 256"
    by (simp add: unsigned_ucast_eq take_bit_eq_mod)
  ultimately show ?thesis by simp
qed

lemma nibbles_small: "d \<in> set (nibble_list w) \<Longrightarrow> d < 16"
proof -
  assume "d \<in> set (nibble_list w)"
  then obtain k where d: "d = ucast (drop_bit k w AND 15)" unfolding nibble_list_def by auto
  have "unat d < 16" unfolding d unat_nibble by simp
  then show ?thesis by (simp add: word_less_nat_alt)
qed

lemma nibbles_value: "foldl (\<lambda>acc d. acc * 16 + unat d) 0 (nibble_list w) = unat w"
proof -
  define n where "n = unat w"
  have 1: "n div 4096 mod 16 = n div 4096" using unat_u16_le [of w] by (simp add: n_def)
  have 2: "n div 4096 * 16 + n div 256 mod 16 = n div 256" using div_mult2_eq [of n 256 16] by simp
  have 3: "n div 256 * 16 + n div 16 mod 16 = n div 16" using div_mult2_eq [of n 16 16] by simp
  have "foldl (\<lambda>acc d. acc * 16 + unat d) 0 (nibble_list w) =
      ((n div 4096 mod 16 * 16 + n div 256 mod 16) * 16 + n div 16 mod 16) * 16 + n mod 16"
    using unat_nibble [of 0 w] by (simp add: nibbles_list unat_nibble n_def)
  also have "\<dots> = n" unfolding 1 2 3 by simp
  finally show ?thesis by (simp add: n_def)
qed

lemma foldl_drop_zeros:
  "foldl (\<lambda>acc d. acc * 16 + unat d) 0 (dropWhile (\<lambda>d. d = 0) ds) = foldl (\<lambda>acc d. acc * 16 + unat d) 0 (ds :: u8 list)"
  by (induction ds) auto

definition hex_nibbles :: "u16 \<Rightarrow> u8 list" where
  "hex_nibbles w = (let ds = dropWhile (\<lambda>d. d = 0) (nibble_list w) in if ds = [] then [0] else ds)"

lemma hex_u16_alt: "hex_u16 w = map hex_digit (hex_nibbles w)"
  by (simp add: hex_u16_def hex_nibbles_def nibble_list_def Let_def)

lemma hex_nibbles_facts:
  "hex_nibbles w \<noteq> []" "length (hex_nibbles w) \<le> 4" "\<forall>d \<in> set (hex_nibbles w). d < 16"
  "foldl (\<lambda>acc d. acc * 16 + unat d) 0 (hex_nibbles w) = unat w"
proof -
  have len: "length (dropWhile (\<lambda>d. d = 0) (nibble_list w)) \<le> 4"
    using length_dropWhile_le [of "\<lambda>d. d = 0" "nibble_list w"] by (simp add: nibble_list_def)
  show "hex_nibbles w \<noteq> []" "length (hex_nibbles w) \<le> 4" using len by (simp_all add: hex_nibbles_def Let_def)
  show "\<forall>d \<in> set (hex_nibbles w). d < 16"
    by (auto simp: hex_nibbles_def Let_def dest: nibbles_small set_dropWhileD)
  show "foldl (\<lambda>acc d. acc * 16 + unat d) 0 (hex_nibbles w) = unat w"
    using foldl_drop_zeros [of "nibble_list w"] nibbles_value [of w]
    by (cases "dropWhile (\<lambda>d. d = 0) (nibble_list w) = []") (simp_all add: hex_nibbles_def Let_def del: dropWhile_eq_Nil_conv)
qed

lemma read_hex_hex:
  assumes "rest = [] \<or> to_digit16 (hd rest) = None"
  shows "read_hex (hex_u16 w @ rest) = Some (unat w, rest)"
proof -
  have dig: "to_digit16 (hex_digit d) = Some d" if "d \<in> set (hex_nibbles w)" for d
    using that hex_nibbles_facts(3) [of w] by (intro hex_digit_facts(1)) auto
  have tw: "takeWhile (\<lambda>b. to_digit16 b \<noteq> None) (hex_u16 w @ rest) = hex_u16 w"
    using dig assms by (intro takeWhile_stop) (auto simp: hex_u16_alt)
  have "foldl (\<lambda>acc b. acc * 16 + unat (the (to_digit16 b))) acc (map hex_digit ds) =
      foldl (\<lambda>acc d. acc * 16 + unat d) acc ds" if "set ds \<subseteq> set (hex_nibbles w)" for ds acc
    using that by (induction ds arbitrary: acc) (auto simp: dig)
  from this [OF subset_refl] have v: "foldl (\<lambda>acc b. acc * 16 + unat (the (to_digit16 b))) 0 (hex_u16 w) = unat w"
    by (simp add: hex_u16_alt hex_nibbles_facts)
  show ?thesis
    using unat_u16_le [of w] v hex_nibbles_facts(1,2) [of w] unfolding read_number_def tw by (auto simp: Let_def hex_u16_alt)
qed

lemma hex_u16_chars: "b \<in> set (hex_u16 w) \<Longrightarrow> b \<noteq> 46 \<and> b \<noteq> 58 \<and> b < 0x80"
proof -
  have ok: "hex_digit d \<noteq> 46 \<and> hex_digit d \<noteq> 58 \<and> hex_digit d < 0x80" if "d < 16" for d
  proof -
    have "unat d < 16" using that by (simp add: word_less_nat_alt)
    then have "d \<in> word_of_nat ` set [0..<16]" by (intro image_eqI [of _ _ "unat d"]) simp_all
    then show ?thesis by (auto simp: upt_rec hex_digit_def)
  qed
  assume "b \<in> set (hex_u16 w)"
  then show ?thesis using ok hex_nibbles_facts(3) [of w] by (auto simp: hex_u16_alt)
qed

text \<open>No prefix of hexadecimal groups looks like a dotted address.\<close>

lemma read_octets_dot:
  assumes "read_octets 0 (Suc (Suc k)) s \<noteq> None"
  shows "\<exists>t. dropWhile (\<lambda>b. to_digit10 b \<noteq> None) s = 46 # t"
proof -
  let ?P = "\<lambda>b. to_digit10 b \<noteq> None"
  obtain v s1 where d: "read_dec s = Some (v, s1)" and m: "read_octets 1 (Suc k) s1 \<noteq> None"
    using assms by (cases "read_dec s") (auto simp: read_separator_def simp del: read_octets.simps(2) [of 1])
  have s1: "s1 = dropWhile ?P s"
    using d by (auto simp: read_number_def Let_def dropWhile_eq_drop split: if_splits)
  from m show ?thesis
    unfolding s1 by (auto simp: read_separator_def read_given_char_def split: option.splits list.splits if_splits)
qed

lemma read_ipv4_dot:
  assumes "read_ipv4_addr s = Some r"
  shows "\<exists>t. dropWhile (\<lambda>b. to_digit10 b \<noteq> None) s = 46 # t"
  using assms read_octets_dot [of 2 s] by (auto simp: read_ipv4_addr_def)

lemma read_ipv4_hex:
  assumes "rest = [] \<or> hd rest = 58"
  shows "read_ipv4_addr (hex_u16 w @ rest) = None"
proof (rule ccontr)
  let ?P = "\<lambda>b. to_digit10 b \<noteq> None"
  assume "read_ipv4_addr (hex_u16 w @ rest) \<noteq> None"
  then obtain t where t: "dropWhile ?P (hex_u16 w @ rest) = 46 # t" using read_ipv4_dot by blast
  show False
  proof (cases "\<forall>b \<in> set (hex_u16 w). ?P b")
    case True
    then have "dropWhile ?P rest = 46 # t" using t by (simp add: dropWhile_append)
    then show False using assms by (cases rest) (auto simp: to_digit10_def)
  next
    case False
    then have "dropWhile ?P (hex_u16 w @ rest) = dropWhile ?P (hex_u16 w) @ rest" "dropWhile ?P (hex_u16 w) \<noteq> []"
      by (auto simp: dropWhile_append)
    then have "46 \<in> set (dropWhile ?P (hex_u16 w))" using t by (cases "dropWhile ?P (hex_u16 w)") auto
    then show False using hex_u16_chars [of 46 w] set_dropWhileD [of 46 ?P "hex_u16 w"] by auto
  qed
qed
definition groups_text :: "nat \<Rightarrow> u16 list \<Rightarrow> bytes" where
  "groups_text i ws = (if i = 0 then colon_sep ws else concat (map (\<lambda>w. 58 # hex_u16 w) ws))"

lemma groups_text_Cons:
  "groups_text i (w # ws) = (if i = 0 then [] else [58]) @ hex_u16 w @ groups_text (i + 1) ws"
  by (simp add: groups_text_def)

definition groups_end :: "bytes \<Rightarrow> bool" where
  "groups_end rest \<longleftrightarrow> rest = [] \<or> (\<exists>r. rest = 58 # 58 # r)"

lemma read_no_group:
  "read_ipv4_addr [] = None" "read_ipv4_addr (58 # r) = None" "read_hex [] = None" "read_hex (58 # r) = None"
proof -
  show "read_ipv4_addr [] = None" using read_ipv4_dot [of "[]"] by (cases "read_ipv4_addr []") auto
  show "read_ipv4_addr (58 # r) = None"
    using read_ipv4_dot [of "58 # r"] by (cases "read_ipv4_addr (58 # r)") (auto simp: to_digit10_def)
qed (simp_all add: read_number_def to_digit16_def)

lemma read_groups_text:
  assumes "groups_end rest" "length ws \<le> k"
  shows "read_groups i k (groups_text i ws @ rest) = (ws, False, rest)"
  using assms(2)
proof (induction ws arbitrary: i k)
  case Nil
  have "read_separator 58 i read_ipv4_addr rest = None" "read_separator 58 i read_hex rest = None"
    using assms(1) by (auto simp: groups_end_def read_separator_def read_given_char_def read_no_group)
  moreover have "groups_text i [] = []" by (simp add: groups_text_def)
  ultimately show ?case by (cases k) simp_all
next
  case (Cons w ws)
  then obtain k' where k: "k = Suc k'" "length ws \<le> k'" by (cases k) auto
  let ?rest = "groups_text (Suc i) ws @ rest"
  have colon: "?rest = [] \<or> hd ?rest = 58" using assms(1) by (cases ws) (auto simp: groups_text_def groups_end_def)
  then have digit: "?rest = [] \<or> to_digit16 (hd ?rest) = None" by (auto simp: to_digit16_def)
  have "read_separator 58 i read_ipv4_addr (groups_text i (w # ws) @ rest) = None"
    using read_ipv4_hex [OF colon, of w]
    by (cases "i = 0") (simp_all add: read_separator_def groups_text_Cons read_given_char_def)
  moreover have "read_separator 58 i read_hex (groups_text i (w # ws) @ rest) = Some (unat w, ?rest)"
    using read_hex_hex [OF digit, of w]
    by (cases "i = 0") (simp_all add: read_separator_def groups_text_Cons read_given_char_def)
  moreover have "groups_text (Suc i) [] = []" by (simp add: groups_text_def)
  ultimately show ?case using Cons.IH [OF k(2), of "Suc i"] k by (cases "k' = 0") simp_all
qed

text \<open>The run that is cut out consists of zeros.\<close>

definition zero_span :: "u16 list \<Rightarrow> nat \<times> nat \<Rightarrow> bool" where
  "zero_span us p \<longleftrightarrow> fst p + snd p \<le> length us \<and> (\<forall>j. fst p \<le> j \<and> j < fst p + snd p \<longrightarrow> us ! j = 0)"

lemma zero_run_span:
  assumes "drop i us = ws" "i \<le> length us" "zero_span us longest" "zero_span us current"
    and "snd current > 0 \<longrightarrow> fst current + snd current = i"
  shows "zero_span us (zero_run i ws current longest)"
  using assms
proof (induction i ws current longest rule: zero_run.induct)
  case (2 i w ws current longest)
  have lt: "i < length us" using "2.prems"(1) by (cases "i < length us") auto
  then have i: "i < length us" "us ! i = w" "drop (i + 1) us = ws"
    using "2.prems"(1) Cons_nth_drop_Suc [OF lt] by simp_all
  show ?case
  proof (cases "w = 0")
    case True
    let ?c = "(if snd current = 0 then i else fst current, snd current + 1)"
    have c: "zero_span us ?c" "fst ?c + snd ?c = i + 1"
      using "2.prems"(4,5) i True by (auto simp: zero_span_def less_Suc_eq)
    have l: "zero_span us (if snd ?c > snd longest then ?c else longest)" using c "2.prems"(3) by simp
    have "zero_span us (zero_run (i + 1) ws ?c (if snd ?c > snd longest then ?c else longest))"
      by (rule "2.IH"(1) [OF True refl i(3) _ l c(1)]) (use i c(2) in auto)
    then show ?thesis by (simp only: zero_run.simps(2) True if_True Let_def simp_thms)
  next
    case False
    show ?thesis
      using "2.IH"(2) [OF False] i "2.prems"(3) False by (simp add: zero_span_def)
  qed
qed simp

lemma zero_span_split:
  assumes "zero_span us (s, l)"
  shows "us = take s us @ replicate l 0 @ drop (s + l) us"
proof -
  have "take l (drop s us) = replicate l 0"
    using assms by (intro nth_equalityI) (auto simp: zero_span_def)
  then have "drop s us = replicate l 0 @ drop (s + l) us"
    by (metis append_take_drop_id drop_drop add.commute)
  then show ?thesis by (metis append_take_drop_id)
qed

section \<open>Segments\<close>

lemma from_segments_snoc: "from_segments (ws @ [w]) = push_bit 16 (from_segments ws) OR ucast w"
  by (simp add: from_segments_def)

lemma from_segments_take:
  "from_segments (map (\<lambda>i. ucast (drop_bit (16 * i) a)) (rev [0..<n])) = take_bit (16 * n) (a :: u128)"
proof (induction n arbitrary: a)
  case (Suc n)
  have "[0..<Suc n] = 0 # map Suc [0..<n]" by (simp add: map_Suc_upt upt_conv_Cons del: upt_Suc)
  then have "rev [0..<Suc n] = map Suc (rev [0..<n]) @ [0]" by (simp add: rev_map del: upt_Suc)
  then have "from_segments (map (\<lambda>i. ucast (drop_bit (16 * i) a)) (rev [0..<Suc n])) =
      push_bit 16 (from_segments (map (\<lambda>i. ucast (drop_bit (16 * i) (drop_bit 16 a))) (rev [0..<n]))) OR
      ucast (ucast a :: u16)"
    by (simp add: from_segments_snoc comp_def drop_bit_drop_bit algebra_simps del: upt_Suc)
  then show ?case unfolding Suc.IH by (auto intro!: bit_word_eqI simp: bit_simps)
qed (simp add: from_segments_def)

lemma from_segments_segments: "from_segments (segments a) = a"
  unfolding segments_def from_segments_take by (simp add: take_bit_word_eq_self)

lemma length_segments: "length (segments a) = 8"
  by (simp add: segments_def)

lemma segments_tail: "drop 6 (segments a) = [ucast (drop_bit 16 (ucast a :: u32)), ucast (ucast a :: u32)]"
proof -
  have "drop 6 (segments a) = [ucast (drop_bit 16 a), ucast a]" by (simp add: segments_def upt_rec)
  moreover have "ucast (drop_bit 16 a) = (ucast (drop_bit 16 (ucast a :: u32)) :: u16)"
    "ucast a = (ucast (ucast a :: u32) :: u16)"
    by (auto intro!: bit_word_eqI simp: bit_simps)
  ultimately show ?thesis by simp
qed

section \<open>Round trip\<close>

lemma v6_not_v4: "read_ipv4_addr (v6_display a) = None"
proof -
  have none: "read_ipv4_addr (colon_sep ws @ rest) = None" if "groups_end rest" for ws rest
  proof (cases ws)
    case Nil
    then show ?thesis using that by (auto simp: groups_end_def read_no_group)
  next
    case (Cons w vs)
    have "concat (map (\<lambda>w. 58 # hex_u16 w) vs) @ rest = [] \<or> hd (concat (map (\<lambda>w. 58 # hex_u16 w) vs) @ rest) = 58"
      using that by (cases vs) (auto simp: groups_end_def)
    from read_ipv4_hex [OF this] show ?thesis using Cons by simp
  qed
  have "byte_str ''::ffff:'' @ x = 58 # 58 # byte_str ''ffff:'' @ x" for x by (simp add: byte_str_def)
  then show ?thesis
    using none [of "[]"] none [of "58 # 58 # r" for r]
    by (auto simp: v6_display_def Let_def read_no_group groups_end_def split: prod.splits)
qed

lemma read_v6_groups:
  assumes "length hs + length ts \<le> 7"
  shows "read_ipv6_addr (colon_sep hs @ [58, 58] @ colon_sep ts) =
    Some (from_segments (hs @ replicate (8 - length hs - length ts) 0 @ ts), [])"
proof -
  have h: "read_groups 0 8 (colon_sep hs @ 58 # 58 # colon_sep ts) = (hs, False, 58 # 58 # colon_sep ts)"
    using read_groups_text [of "58 # 58 # colon_sep ts" hs 8 0] assms by (simp add: groups_text_def groups_end_def)
  have t: "read_groups 0 (7 - length hs) (colon_sep ts) = (ts, False, [])"
    using read_groups_text [of "[]" ts "7 - length hs" 0] assms by (simp add: groups_text_def groups_end_def)
  show ?thesis using h t assms by (simp add: read_ipv6_addr_def read_given_char_def)
qed

lemma read_v6_mapped:
  "read_ipv6_addr (byte_str ''::ffff:'' @ v4_display b) =
   Some (from_segments ([0, 0, 0, 0, 0, 0xffff, ucast (drop_bit 16 b), ucast b]), [])"
proof -
  have shape: "byte_str ''::ffff:'' @ v4_display b = 58 # 58 # hex_u16 0xffff @ 58 # v4_display b"
    by (simp add: byte_str_def hex_u16_def upt_rec hex_digit_def)
  have h: "read_groups 0 8 (58 # 58 # s) = ([], False, 58 # 58 # s)" for s
    using read_groups_text [of "58 # 58 # s" "[]" 8 0] by (simp add: groups_text_def groups_end_def)
  have v4: "read_separator 58 1 read_ipv4_addr (58 # v4_display b) = Some (b, [])"
    using read_v4_display [of "[]" b] by (simp add: read_separator_def read_given_char_def)
  have none: "read_separator 58 0 read_ipv4_addr (hex_u16 0xffff @ 58 # v4_display b) = None"
    using read_ipv4_hex [of "58 # v4_display b" "0xffff"] by (simp add: read_separator_def)
  have ffff: "read_separator 58 0 read_hex (hex_u16 0xffff @ 58 # v4_display b) = Some (65535, 58 # v4_display b)"
    using read_hex_hex [of "58 # v4_display b" "0xffff"] by (simp add: read_separator_def to_digit16_def)
  have "read_groups 0 (Suc (Suc k)) (hex_u16 0xffff @ 58 # v4_display b) =
      ([0xffff, ucast (drop_bit 16 b), ucast b], True, [])" if "k > 0" for k
    using none ffff v4 that by simp
  from this [of 5] have "read_groups 0 7 (hex_u16 0xffff @ 58 # v4_display b) = ([0xffff, ucast (drop_bit 16 b), ucast b], True, [])"
    by simp
  moreover have "replicate 5 (0 :: u16) = [0, 0, 0, 0, 0]" by (simp add: numeral_eq_Suc)
  ultimately show ?thesis unfolding shape by (simp add: read_ipv6_addr_def h read_given_char_def)
qed

lemma read_v6_display: "read_ipv6_addr (v6_display a) = Some (a, [])"
proof -
  obtain s l where run: "zero_run 0 (segments a) (0, 0) (0, 0) = (s, l)" by fastforce
  have span: "zero_span (segments a) (s, l)"
    using zero_run_span [of 0 "segments a" "segments a" "(0, 0)" "(0, 0)"] run by (simp add: zero_span_def)
  consider "take 6 (segments a) = [0, 0, 0, 0, 0, 0xffff]"
    | "take 6 (segments a) \<noteq> [0, 0, 0, 0, 0, 0xffff]" "l > 1"
    | "take 6 (segments a) \<noteq> [0, 0, 0, 0, 0, 0xffff]" "l \<le> 1" by linarith
  then show ?thesis
  proof cases
    case 1
    have "segments a = take 6 (segments a) @ drop 6 (segments a)" by simp
    then have "segments a = [0, 0, 0, 0, 0, 0xffff, ucast (drop_bit 16 (ucast a :: u32)), ucast (ucast a :: u32)]"
      unfolding 1 segments_tail by simp
    then have "from_segments [0, 0, 0, 0, 0, 0xffff, ucast (drop_bit 16 (ucast a :: u32)), ucast (ucast a :: u32)] = a"
      using from_segments_segments [of a] by simp
    then show ?thesis using 1 read_v6_mapped [of "ucast a"] by (simp add: v6_display_def)
  next
    case 2
    have le: "s + l \<le> 8" using span by (simp add: zero_span_def length_segments)
    have parts: "segments a = take s (segments a) @ replicate l 0 @ drop (s + l) (segments a)"
      using zero_span_split [OF span] .
    have len: "8 - length (take s (segments a)) - length (drop (s + l) (segments a)) = l"
      "length (take s (segments a)) + length (drop (s + l) (segments a)) \<le> 7"
      using le 2 by (simp_all add: length_segments)
    have "from_segments (take s (segments a) @ replicate l 0 @ drop (s + l) (segments a)) = a"
      using from_segments_segments [of a] unfolding parts [symmetric] .
    moreover have "v6_display a = colon_sep (take s (segments a)) @ [58, 58] @ colon_sep (drop (s + l) (segments a))"
      using 2 run by (simp add: v6_display_def Let_def)
    ultimately show ?thesis using read_v6_groups [OF len(2)] unfolding len(1) by simp
  next
    case 3
    have "read_groups 0 8 (colon_sep (segments a)) = (segments a, False, [])"
      using read_groups_text [of "[]" "segments a" 8 0] by (simp add: groups_text_def groups_end_def length_segments)
    then show ?thesis using 3 run
      by (simp add: v6_display_def read_ipv6_addr_def length_segments from_segments_segments)
  qed
qed

lemma parse_ip_display: "parse_ip (ip_display a) = Some a"
proof (cases a)
  case (V4 b)
  then show ?thesis using read_v4_display [of "[]" b] by (simp add: parse_ip_def)
next
  case (V6 b)
  then show ?thesis by (simp add: parse_ip_def v6_not_v4 read_v6_display)
qed

lemma ascii_append [simp]: "ascii (s @ t) \<longleftrightarrow> ascii s \<and> ascii t"
  by (simp add: ascii_def)

lemma ascii_Cons [simp]: "ascii (b # s) \<longleftrightarrow> b < 0x80 \<and> ascii s"
  by (simp add: ascii_def)

lemma ascii_Nil [simp]: "ascii []"
  by (simp add: ascii_def)

lemma ascii_concat: "(\<And>s. s \<in> set ss \<Longrightarrow> ascii s) \<Longrightarrow> ascii (concat ss)"
  by (auto simp: ascii_def list_all_iff)

lemma ascii_dec_u8: "ascii (dec_u8 b)"
proof -
  obtain d ds where d: "dec_u8 b = digit d # ds" "d < 10" "set ds \<subseteq> digit ` {..<10}" by (rule dec_u8_cases)
  have "digit k < 0x80" if "k < 10" for k
    using digit_facts(2) [OF that] by (rule order.strict_trans1) simp
  with d show ?thesis by (auto simp: ascii_def list_all_iff)
qed

lemma ascii_ip_display: "ascii (ip_display a)"
proof -
  have hex: "ascii (hex_u16 w)" for w using hex_u16_chars by (auto simp: ascii_def list_all_iff)
  then have colon: "ascii (colon_sep ws)" for ws by (cases ws) (auto intro!: ascii_concat)
  have v4: "ascii (v4_display b)" for b
    by (auto simp: v4_display_def be_bytes_def upt_rec ascii_dec_u8)
  have lit: "ascii (byte_str ''::ffff:'')" by (simp add: byte_str_def)
  show ?thesis
    by (cases a) (auto simp: v4 v6_display_def Let_def colon lit split: prod.splits)
qed

lemma dec_u8_length: "1 \<le> length (dec_u8 b)" "length (dec_u8 b) \<le> 3"
  by (auto simp: dec_u8_def Let_def)

section \<open>Decimal numbers\<close>

text \<open>\<open>Display\<close> of an unsigned integer.\<close>

fun dec_nat :: "nat \<Rightarrow> bytes" where
  "dec_nat n = (if n < 10 then [digit n] else dec_nat (n div 10) @ [digit (n mod 10)])"

declare dec_nat.simps [simp del]

text \<open>\<open>str::parse\<close> for the unsigned integers up to a bound: an optional plus sign and decimal digits.\<close>

fun parse_digits10 :: "nat \<Rightarrow> nat \<Rightarrow> bytes \<Rightarrow> nat option" where
  "parse_digits10 bound acc [] = Some acc"
| "parse_digits10 bound acc (b # s) =
     (case to_digit10 b of
        None \<Rightarrow> None
      | Some d \<Rightarrow>
          let acc' = acc * 10 + unat d in
          if acc' > bound then None else parse_digits10 bound acc' s)"

definition parse_unsigned :: "nat \<Rightarrow> bytes \<Rightarrow> nat option" where
  "parse_unsigned bound s =
     (let digits = (if s \<noteq> [] \<and> hd s = 43 then tl s else s)
      in if digits = [] then None else parse_digits10 bound 0 digits)"

lemma to_digit10_digit: "d < 10 \<Longrightarrow> to_digit10 (digit d) = Some (digit d - 48)"
  by (simp add: to_digit10_def digit_facts)

lemma parse_digits10_append:
  "parse_digits10 bound acc s = Some v \<Longrightarrow> parse_digits10 bound acc (s @ t) = parse_digits10 bound v t"
  by (induction s arbitrary: acc) (auto simp: Let_def split: option.splits if_splits)

lemma dec_nat_digits: "set (dec_nat n) \<subseteq> digit ` {..<10} \<and> dec_nat n \<noteq> []"
proof (induction n rule: dec_nat.induct)
  case (1 n)
  then show ?case by (subst (1 2) dec_nat.simps) auto
qed

lemma parse_digits10_dec: "n \<le> bound \<Longrightarrow> parse_digits10 bound 0 (dec_nat n) = Some n"
proof (induction n rule: dec_nat.induct)
  case (1 n)
  show ?case
  proof (cases "n < 10")
    case True
    then show ?thesis using 1(2) by (simp add: dec_nat.simps to_digit10_digit digit_facts)
  next
    case False
    then have "parse_digits10 bound 0 (dec_nat (n div 10)) = Some (n div 10)" using 1 by simp
    from parse_digits10_append [OF this, of "[digit (n mod 10)]"] show ?thesis
      using False 1(2) by (simp add: dec_nat.simps [of n] to_digit10_digit digit_facts)
  qed
qed

lemma parse_dec_nat: "n \<le> bound \<Longrightarrow> parse_unsigned bound (dec_nat n) = Some n"
proof -
  assume n: "n \<le> bound"
  have "hd (dec_nat n) \<in> digit ` {..<10}" using dec_nat_digits [of n] by (cases "dec_nat n") auto
  then have "hd (dec_nat n) \<noteq> 43" using digit_facts(4) by auto
  then show ?thesis using dec_nat_digits [of n] parse_digits10_dec [OF n] by (simp add: parse_unsigned_def Let_def)
qed

lemma ascii_dec_nat: "ascii (dec_nat n)"
proof -
  have "digit d < 0x80" if "d < 10" for d using digit_facts(2) [OF that] by (rule le_less_trans) simp
  then show ?thesis using dec_nat_digits [of n] by (auto simp: ascii_def list_all_iff)
qed

section \<open>Lossy decoding\<close>

text \<open>
  \<open>String::from_utf8_lossy\<close>: the first character of a byte string, or the longest beginning of one,
  which is replaced by U+FFFD. Past the end of the string a byte reads as zero.
\<close>

definition safe_get :: "bytes \<Rightarrow> nat \<Rightarrow> u8" where
  "safe_get s i = (if i < length s then s ! i else 0)"

definition utf8_head :: "bytes \<Rightarrow> bool \<times> nat" where
  "utf8_head s =
     (let a = hd s; b = safe_get s 1; c = safe_get s 2; d = safe_get s 3 in
      if a < 0x80 then (True, 1)
      else if utf8_lead2 a then (if utf8_cont b then (True, 2) else (False, 1))
      else if utf8_lead3 a then
        (if \<not> utf8_second a b then (False, 1) else if utf8_cont c then (True, 3) else (False, 2))
      else if utf8_lead4 a then
        (if \<not> utf8_second a b then (False, 1)
         else if \<not> utf8_cont c then (False, 2)
         else if utf8_cont d then (True, 4) else (False, 3))
      else (False, 1))"

lemma utf8_head_pos: "0 < snd (utf8_head s)"
  by (simp add: utf8_head_def Let_def)

function utf8_lossy :: "bytes \<Rightarrow> bytes" where
  "utf8_lossy s =
     (if s = [] then []
      else let (whole, n) = utf8_head s
           in (if whole then take n s else [0xEF, 0xBF, 0xBD]) @ utf8_lossy (drop n s))"
  by pat_completeness auto
termination
proof (relation "measure length", goal_cases)
  case (2 s x whole n)
  then have "0 < n" using utf8_head_pos [of s] by (metis snd_conv)
  with 2 show ?case by (cases s) auto
qed simp

declare utf8_lossy.simps [simp del]

text \<open>One whole character at the front, and the rest.\<close>

definition utf8_char :: "bytes \<Rightarrow> bool" where
  "utf8_char s \<longleftrightarrow>
     (case s of
        [a] \<Rightarrow> a < 0x80
      | [a, b] \<Rightarrow> \<not> a < 0x80 \<and> utf8_lead2 a \<and> utf8_cont b
      | [a, b, c] \<Rightarrow> \<not> a < 0x80 \<and> \<not> utf8_lead2 a \<and> utf8_lead3 a \<and> utf8_second a b \<and> utf8_cont c
      | [a, b, c, d] \<Rightarrow>
          \<not> a < 0x80 \<and> \<not> utf8_lead2 a \<and> \<not> utf8_lead3 a \<and> utf8_lead4 a \<and> utf8_second a b \<and> utf8_cont c \<and> utf8_cont d
      | _ \<Rightarrow> False)"

lemma utf8_charE:
  assumes "utf8_char c"
  obtains a where "c = [a]" "a < 0x80"
  | a b where "c = [a, b]" "\<not> a < 0x80" "utf8_lead2 a" "utf8_cont b"
  | a b c' where "c = [a, b, c']" "\<not> a < 0x80" "\<not> utf8_lead2 a" "utf8_lead3 a" "utf8_second a b" "utf8_cont c'"
  | a b c' d where "c = [a, b, c', d]" "\<not> a < 0x80" "\<not> utf8_lead2 a" "\<not> utf8_lead3 a" "utf8_lead4 a"
      "utf8_second a b" "utf8_cont c'" "utf8_cont d"
  using assms unfolding utf8_char_def by (simp split: list.splits)

lemma valid_utf8_char: "utf8_char c \<Longrightarrow> valid_utf8 (c @ s) \<longleftrightarrow> valid_utf8 s"
  by (erule utf8_charE) simp_all

lemma valid_utf8_cases:
  assumes "valid_utf8 s" "s \<noteq> []"
  obtains c t where "s = c @ t" "utf8_char c" "valid_utf8 t"
proof -
  obtain a u where s: "s = a # u" using assms(2) by (cases s) auto
  note v = assms(1) [unfolded s valid_utf8.simps]
  consider "a < 0x80" | "\<not> a < 0x80" "utf8_lead2 a" | "\<not> a < 0x80" "\<not> utf8_lead2 a" "utf8_lead3 a"
    | "\<not> a < 0x80" "\<not> utf8_lead2 a" "\<not> utf8_lead3 a"
    by blast
  then show thesis
  proof cases
    case 1
    then show thesis using v s by (intro that [of "[a]" u]) (simp_all add: utf8_char_def)
  next
    case 2
    then obtain b t where "u = b # t" using v by (cases u) simp_all
    then show thesis using 2 v s by (intro that [of "[a, b]" t]) (simp_all add: utf8_char_def)
  next
    case 3
    then obtain b c t where "u = b # c # t" using v by (cases u; cases "tl u") simp_all
    then show thesis using 3 v s by (intro that [of "[a, b, c]" t]) (simp_all add: utf8_char_def)
  next
    case 4
    then have l: "utf8_lead4 a" using v by (simp split: if_splits)
    with 4 obtain b c d t where "u = b # c # d # t"
      using v by (cases u; cases "tl u"; cases "tl (tl u)") simp_all
    then show thesis using 4 l v s by (intro that [of "[a, b, c, d]" t]) (simp_all add: utf8_char_def)
  qed
qed

lemma valid_utf8_induct [consumes 1, case_names Nil char]:
  assumes "valid_utf8 s" "P []" "\<And>c t. utf8_char c \<Longrightarrow> valid_utf8 t \<Longrightarrow> P t \<Longrightarrow> P (c @ t)"
  shows "P s"
  using assms(1)
proof (induction "length s" arbitrary: s rule: less_induct)
  case less
  show ?case
  proof (cases "s = []")
    case False
    obtain c t where t: "s = c @ t" "utf8_char c" "valid_utf8 t" by (rule valid_utf8_cases [OF less.prems False])
    then have "c \<noteq> []" by (auto simp: utf8_char_def)
    then show ?thesis using t less.hyps [of t] assms(3) by simp
  qed (simp add: assms(2))
qed

lemma valid_utf8_append: "valid_utf8 s \<Longrightarrow> valid_utf8 (s @ t) \<longleftrightarrow> valid_utf8 t"
  by (induction s rule: valid_utf8_induct) (simp_all add: valid_utf8_char)

lemma utf8_head_whole:
  assumes "s \<noteq> []" "utf8_head s = (True, n)"
  shows "utf8_char (take n s)"
proof -
  have at: "i < length s" if "utf8_cont (safe_get s i)" for i
    using that by (auto simp: utf8_cont_def safe_get_def split: if_splits)
  obtain a u where s: "s = a # u" using assms(1) by (cases s) auto
  consider "a < 0x80" "n = 1"
    | "\<not> a < 0x80" "utf8_lead2 a" "utf8_cont (safe_get s 1)" "n = 2"
    | "\<not> a < 0x80" "\<not> utf8_lead2 a" "utf8_lead3 a" "utf8_second a (safe_get s 1)" "utf8_cont (safe_get s 2)" "n = 3"
    | "\<not> a < 0x80" "\<not> utf8_lead2 a" "\<not> utf8_lead3 a" "utf8_lead4 a" "utf8_second a (safe_get s 1)"
      "utf8_cont (safe_get s 2)" "utf8_cont (safe_get s 3)" "n = 4"
    using assms(2) unfolding utf8_head_def Let_def s list.sel by (simp split: if_splits)
  then show ?thesis
  proof cases
    case 1
    then show ?thesis by (simp add: s utf8_char_def)
  next
    case 2
    then obtain b t where "u = b # t" using at [of 1] s by (cases u) simp_all
    then show ?thesis using 2 s by (simp add: utf8_char_def safe_get_def)
  next
    case 3
    then obtain b c t where "u = b # c # t" using at [of 2] s by (cases u; cases "tl u") simp_all
    then show ?thesis using 3 s by (simp add: utf8_char_def safe_get_def)
  next
    case 4
    then obtain b c d t where "u = b # c # d # t"
      using at [of 3] s by (cases u; cases "tl u"; cases "tl (tl u)") simp_all
    then show ?thesis using 4 s by (simp add: utf8_char_def safe_get_def)
  qed
qed

lemma valid_utf8_lossy: "valid_utf8 (utf8_lossy s)"
proof (induction s rule: utf8_lossy.induct)
  case (1 s)
  show ?case
  proof (cases "s = []")
    case False
    obtain w n where wn: "utf8_head s = (w, n)" by fastforce
    have "utf8_char (if w then take n s else [0xEF, 0xBF, 0xBD])"
      using utf8_head_whole [OF False, of n] wn by (auto simp: utf8_cont_def utf8_char_def utf8_lead2_def utf8_lead3_def utf8_second_def)
    moreover have "utf8_lossy s = (if w then take n s else [0xEF, 0xBF, 0xBD]) @ utf8_lossy (drop n s)"
      using False wn by (subst utf8_lossy.simps) simp
    ultimately show ?thesis using valid_utf8_char 1 [OF False wn [symmetric]] by (metis refl)
  qed (simp add: utf8_lossy.simps)
qed

text \<open>\<open>str::replace\<close> of a quote by a backslash and a quote, byte by byte.\<close>

definition escape_quotes :: "bytes \<Rightarrow> bytes" where
  "escape_quotes s = concat (map (\<lambda>b. if b = 34 then [92, 34] else [b]) s)"

lemma escape_char:
  assumes "utf8_char c" "c \<noteq> [34]"
  shows "escape_quotes c = c"
proof -
  have none: "escape_quotes c = c" if "34 \<notin> set c" for c using that by (induction c) (auto simp: escape_quotes_def)
  have b: "b \<noteq> 34" if "utf8_cont b" for b using that by (auto simp: utf8_cont_def)
  have a: "a \<noteq> 34" if "\<not> a < 0x80" for a :: u8 using that by auto
  have s: "utf8_cont b" if "utf8_second a b" for a b using that by (simp add: utf8_second_def)
  from assms(1) have "34 \<notin> set c"
  proof (cases rule: utf8_charE)
    case (3 x y z)
    then show ?thesis using a [of x] b [of y] b [of z] s [of x y] by simp
  next
    case (4 x y z w)
    then show ?thesis using a [of x] b [of y] b [of z] b [of w] s [of x y] by simp
  qed (use assms(2) a b in simp_all)
  then show ?thesis by (rule none)
qed

lemma valid_utf8_escape: "valid_utf8 s \<Longrightarrow> valid_utf8 (escape_quotes s)"
proof (induction s rule: valid_utf8_induct)
  case (char c t)
  have "escape_quotes (c @ t) = escape_quotes c @ escape_quotes t" by (simp add: escape_quotes_def)
  moreover have "valid_utf8 (escape_quotes [34])" by (simp add: escape_quotes_def)
  ultimately show ?case
    using char escape_char [of c] valid_utf8_char [of c] valid_utf8_append by (cases "c = [34]") simp_all
qed (simp add: escape_quotes_def)

end
