(* ===== verification/Upstream.thy ===== *)
theory Upstream
  imports Engine_State Reply_Queue Std_Text
begin

text \<open>
  Sockets to upstream servers, one per transaction: \<open>resolvd/src/upstream.rs\<close>. The calls into the
  operating system are arguments: the interface table, how a socket is opened, and what a receive,
  a write or a read returns. A UDP socket is of the type \<open>'u\<close> and a TCP stream of the type \<open>'s\<close>.
\<close>

section \<open>Addresses\<close>

definition DNS_PORT :: u16 where
  "DNS_PORT = 53"

abbreviation EPERM :: nat where "EPERM \<equiv> 1"
abbreviation ENOMEM :: nat where "ENOMEM \<equiv> 12"
abbreviation EACCES :: nat where "EACCES \<equiv> 13"
abbreviation ENODEV :: nat where "ENODEV \<equiv> 19"
abbreviation ENFILE :: nat where "ENFILE \<equiv> 23"
abbreviation EMFILE :: nat where "EMFILE \<equiv> 24"
abbreviation EADDRINUSE :: nat where "EADDRINUSE \<equiv> 98"
abbreviation EADDRNOTAVAIL :: nat where "EADDRNOTAVAIL \<equiv> 99"
abbreviation ENOBUFS :: nat where "ENOBUFS \<equiv> 105"
abbreviation EINPROGRESS :: nat where "EINPROGRESS \<equiv> 115"

definition is_local_failure :: "io_error \<Rightarrow> bool" where
  "is_local_failure e =
     (case raw_os_error e of
        Some n \<Rightarrow> n \<in> set [EMFILE, ENFILE, ENOMEM, ENOBUFS, ENODEV, EADDRNOTAVAIL, EADDRINUSE, EACCES, EPERM]
      | None \<Rightarrow> False)"

definition split_once :: "u8 \<Rightarrow> bytes \<Rightarrow> (bytes \<times> bytes) option" where
  "split_once c s =
     (if c \<in> set s then Some (takeWhile (\<lambda>b. b \<noteq> c) s, tl (dropWhile (\<lambda>b. b \<noteq> c) s)) else None)"

definition interface_index :: "(bytes \<Rightarrow> u32) \<Rightarrow> bytes \<Rightarrow> io_error + u32" where
  "interface_index nametoindex interface =
     (if 0 \<in> set interface then Inl InvalidInput
      else if nametoindex interface = 0 then Inl (RawOs ENODEV)
      else Inr (nametoindex interface))"

definition scope_server :: "(bytes \<Rightarrow> u32) \<Rightarrow> bytes \<Rightarrow> bytes \<Rightarrow> io_error + ip_addr" where
  "scope_server nametoindex s interface =
     (let (address, zone) = (case split_once 37 s of Some (a, z) \<Rightarrow> (a, Some z) | None \<Rightarrow> (s, None))
      in and_then (ok_or InvalidInput (parse_ip address)) (\<lambda>address.
         case zone of
           None \<Rightarrow> Inr address
         | Some z \<Rightarrow>
             if \<not> (case address of V6 ip \<Rightarrow> is_unicast_link_local ip | V4 _ \<Rightarrow> False) \<or> z = [] then Inl InvalidInput
             else if z = interface then Inr address
             else
               and_then (interface_index nametoindex interface) (\<lambda>index.
                 if (case parse_unsigned 4294967295 z of Some n \<Rightarrow> n \<noteq> 0 \<and> n = unat index | None \<Rightarrow> False)
                 then Inr address else Inl InvalidInput)))"

definition server_address :: "(bytes \<Rightarrow> u32) \<Rightarrow> ip_addr \<Rightarrow> bytes option \<Rightarrow> io_error + socket_addr" where
  "server_address nametoindex server interface =
     (case server of
        V4 ip \<Rightarrow> Inr (SocketV4 ip DNS_PORT)
      | V6 ip \<Rightarrow>
          if is_unicast_link_local ip then
            and_then (ok_or (RawOs EADDRNOTAVAIL) interface) (\<lambda>interface.
            and_then (interface_index nametoindex interface) (\<lambda>index.
            Inr (SocketV6 ip DNS_PORT 0 index)))
          else Inr (SocketV6 ip DNS_PORT 0 0))"

text \<open>The address structure handed to \<open>connect(2)\<close>: family, port and address in network order, zone.\<close>

datatype sockaddr = Sin bytes bytes | Sin6 bytes u32 bytes u32

fun sockaddr_of :: "socket_addr \<Rightarrow> sockaddr" where
  "sockaddr_of (SocketV4 ip port) = Sin (be_bytes 2 port) (be_bytes 4 ip)"
| "sockaddr_of (SocketV6 ip port flow zone) = Sin6 (be_bytes 2 port) 0 (be_bytes 16 ip) zone"

definition connect_nonblocking ::
  "(socket_addr \<Rightarrow> io_error + 's) \<Rightarrow> ('s \<Rightarrow> sockaddr \<Rightarrow> io_error option) \<Rightarrow> socket_addr \<Rightarrow> io_error + 's" where
  "connect_nonblocking socket connect addr =
     and_then (socket addr) (\<lambda>fd.
       case connect fd (sockaddr_of addr) of
         None \<Rightarrow> Inr fd
       | Some e \<Rightarrow> if raw_os_error e \<noteq> Some EINPROGRESS then Inl e else Inr fd)"

section \<open>Transactions\<close>

datatype tcp_state = Connecting | Sending bytes nat | Receiving bytes

record 's up_tcp =
  ut_stream :: 's
  ut_state :: tcp_state

datatype up_event = Received bytes | Failed

record ('u, 's) upstream =
  up_udp :: "(txid \<times> 'u) list"
  up_tcp :: "(txid \<times> 's up_tcp) list"

definition upstream_new :: "('u, 's) upstream" where
  "upstream_new = \<lparr>up_udp = [], up_tcp = []\<rparr>"

text \<open>
  \<open>tcp_open\<close> is \<open>connect_nonblocking\<close> and \<open>udp_open\<close> the four calls on a fresh UDP socket: bind,
  connect, make nonblocking, send.
\<close>

definition upstream_send ::
  "(bytes \<Rightarrow> u32) \<Rightarrow> (socket_addr \<Rightarrow> io_error + 's) \<Rightarrow> (socket_addr \<Rightarrow> socket_addr \<Rightarrow> bytes \<Rightarrow> io_error + 'u) \<Rightarrow>
   txid \<Rightarrow> ip_addr \<Rightarrow> bytes option \<Rightarrow> bool \<Rightarrow> bytes \<Rightarrow> ('u, 's) upstream \<Rightarrow> (io_error + unit) \<times> ('u, 's) upstream" where
  "upstream_send nametoindex tcp_open udp_open tx server interface tcp payload up =
     (case server_address nametoindex server interface of
        Inl e \<Rightarrow> (Inl e, up)
      | Inr addr \<Rightarrow>
          if tcp then
            (case tcp_open addr of
               Inl e \<Rightarrow> (Inl e, up)
             | Inr stream \<Rightarrow>
                 let frame = be_bytes 2 (word_of_nat (length payload) :: u16) @ payload
                 in (Inr (), up\<lparr>up_tcp := hm_insert (=) tx \<lparr>ut_stream = stream, ut_state = Sending frame 0\<rparr> (up_tcp up)\<rparr>))
          else
            let bind = (case server of V4 _ \<Rightarrow> SocketV4 0 0 | V6 _ \<Rightarrow> SocketV6 0 0 0 0) in
            (case udp_open bind addr payload of
               Inl e \<Rightarrow> (Inl e, up)
             | Inr socket \<Rightarrow> (Inr (), up\<lparr>up_udp := hm_insert (=) tx socket (up_udp up)\<rparr>)))"

definition upstream_cancel :: "txid \<Rightarrow> ('u, 's) upstream \<Rightarrow> ('u, 's) upstream" where
  "upstream_cancel tx up =
     up\<lparr>up_udp := hm_remove (=) tx (up_udp up), up_tcp := hm_remove (=) tx (up_tcp up)\<rparr>"

abbreviation POLLIN :: u16 where "POLLIN \<equiv> 1"
abbreviation POLLOUT :: u16 where "POLLOUT \<equiv> 4"
abbreviation POLLERR :: u16 where "POLLERR \<equiv> 8"
abbreviation POLLHUP :: u16 where "POLLHUP \<equiv> 16"
abbreviation POLLNVAL :: u16 where "POLLNVAL \<equiv> 32"

definition upstream_fds :: "('u \<Rightarrow> nat) \<Rightarrow> ('s \<Rightarrow> nat) \<Rightarrow> ('u, 's) upstream \<Rightarrow> (txid \<times> nat \<times> u16) list" where
  "upstream_fds udp_fd tcp_fd up =
     map (\<lambda>(tx, s). (tx, udp_fd s, POLLIN)) (up_udp up)
     @ map (\<lambda>(tx, t). (tx, tcp_fd (ut_stream t), (case ut_state t of Receiving _ \<Rightarrow> POLLIN | _ \<Rightarrow> POLLOUT))) (up_tcp up)"

text \<open>
  The frames at the front of the receive buffer, up to the first that is accepted: that message, or
  the bytes of an incomplete frame.
\<close>

function drain_frames :: "(bytes \<Rightarrow> bool) \<Rightarrow> bytes \<Rightarrow> bytes + bytes" where
  "drain_frames accepts buf =
     (if length buf \<ge> 2 then
        let len = unat (from_be [buf ! 0, buf ! 1] :: u16) in
        if length buf \<ge> 2 + len then
          let message = take len (drop 2 buf) in
          if accepts message then Inl message else drain_frames accepts (drop (2 + len) buf)
        else Inr buf
      else Inr buf)"
  by pat_completeness auto
termination by (relation "measure (\<lambda>(accepts, buf). length buf)") auto

declare drain_frames.simps [simp del]

definition receive_step :: "(bytes \<Rightarrow> bool) \<Rightarrow> io_error + bytes \<Rightarrow> bytes \<Rightarrow> up_event option \<times> bytes" where
  "receive_step accepts rd buf =
     (case drain_frames accepts buf of
        Inl message \<Rightarrow> (Some (Received message), [])
      | Inr buf \<Rightarrow>
          (case rd of
             Inr chunk \<Rightarrow>
               if chunk = [] then (Some Failed, buf)
               else (case drain_frames accepts (buf @ chunk) of
                       Inl message \<Rightarrow> (Some (Received message), [])
                     | Inr buf \<Rightarrow> (None, buf))
           | Inl e \<Rightarrow> if e = WouldBlock \<or> e = Interrupted then (None, buf) else (Some Failed, buf)))"

text \<open>\<open>take_error\<close> is an error of its own or the pending error of the socket; here, whether either is there.\<close>

definition upstream_service ::
  "'s writer \<Rightarrow> bool \<Rightarrow> io_error + bytes \<Rightarrow> io_error + bytes \<Rightarrow> txid \<Rightarrow> u16 \<Rightarrow> (bytes \<Rightarrow> bool) \<Rightarrow>
   ('u, 's) upstream \<Rightarrow> (up_event option \<times> ('u, 's) upstream) option" where
  "upstream_service wr take_error recv rd tx revents accepts up =
     (case hm_get (=) tx (up_udp up) of
        Some socket \<Rightarrow>
          let gone = up\<lparr>up_udp := hm_remove (=) tx (up_udp up)\<rparr> in
          (case recv of
             Inr b \<Rightarrow>
               let buf = take 4096 b in
               if \<not> accepts buf then Some (None, up) else Some (Some (Received buf), gone)
           | Inl e \<Rightarrow> if e = WouldBlock then Some (None, up) else Some (Some Failed, gone))
      | None \<Rightarrow>
        (case hm_get (=) tx (up_tcp up) of
           None \<Rightarrow> Some (None, up)
         | Some t \<Rightarrow>
             let gone = up\<lparr>up_tcp := hm_remove (=) tx (up_tcp up)\<rparr>;
                 keep = (\<lambda>t. up\<lparr>up_tcp := hm_insert (=) tx t (up_tcp up)\<rparr>)
             in (case ut_state t of
                   Receiving buf \<Rightarrow>
                     (case receive_step accepts rd buf of
                        (None, buf') \<Rightarrow> Some (None, keep (t\<lparr>ut_state := Receiving buf'\<rparr>))
                      | (Some ev, buf') \<Rightarrow> Some (Some ev, gone))
                 | Connecting \<Rightarrow>
                     if revents AND (POLLERR OR POLLHUP) \<noteq> 0 then Some (Some Failed, gone) else Some (None, up)
                 | Sending frame sent \<Rightarrow>
                     if revents AND (POLLERR OR POLLHUP) \<noteq> 0 then Some (Some Failed, gone)
                     else if sent = 0 \<and> take_error then Some (Some Failed, gone)
                     else if sent > length frame then None
                     else (case wr (ut_stream t) (drop sent frame) of
                         (Inr n, s) \<Rightarrow>
                           Some (None, keep (t\<lparr>ut_stream := s,
                             ut_state := if sent + n = length frame then Receiving [] else Sending frame (sent + n)\<rparr>))
                       | (Inl e, s) \<Rightarrow>
                           if e = WouldBlock then Some (None, keep (t\<lparr>ut_stream := s\<rparr>)) else Some (Some Failed, gone)))))"

section \<open>Reassembly\<close>

text \<open>What a server sends over TCP: messages, each behind its length.\<close>

definition tcp_frame :: "bytes \<Rightarrow> bytes" where
  "tcp_frame m = be_bytes 2 (word_of_nat (length m) :: u16) @ m"

lemma frame_length_read:
  assumes "length m \<le> 65535"
  shows "unat (from_be [(tcp_frame m @ rest) ! 0, (tcp_frame m @ rest) ! 1] :: u16) = length m"
proof -
  have "[(tcp_frame m @ rest) ! 0, (tcp_frame m @ rest) ! 1] = be_bytes 2 (word_of_nat (length m) :: u16)"
    by (simp add: tcp_frame_def be_bytes_def upt_rec)
  then show ?thesis using assms by (simp only: from_be_be_bytes) (simp add: from_be_be_bytes unat_count)
qed

lemma drain_frame:
  assumes "length m \<le> 65535"
  shows "drain_frames accepts (tcp_frame m @ rest) = (if accepts m then Inl m else drain_frames accepts rest)"
proof -
  have l: "length (tcp_frame m @ rest) \<ge> 2 + length m" "take (length m) (drop 2 (tcp_frame m @ rest)) = m"
    "drop (2 + length m) (tcp_frame m @ rest) = rest"
    by (simp_all add: tcp_frame_def)
  show ?thesis
    by (subst drain_frames.simps, unfold frame_length_read [OF assms] Let_def) (use l in simp)
qed

lemma drain_split:
  "drain_frames accepts (buf @ rest) =
     (case drain_frames accepts buf of Inl m \<Rightarrow> Inl m | Inr b \<Rightarrow> drain_frames accepts (b @ rest))"
proof (induction accepts buf rule: drain_frames.induct)
  case (1 accepts buf)
  let ?len = "unat (from_be [buf ! 0, buf ! 1] :: u16)"
  show ?case
  proof (cases "length buf \<ge> 2 \<and> length buf \<ge> 2 + ?len")
    case False
    then have "drain_frames accepts buf = Inr buf" by (subst drain_frames.simps) (auto simp: Let_def)
    then show ?thesis by simp
  next
    case True
    then have n: "(buf @ rest) ! 0 = buf ! 0" "(buf @ rest) ! 1 = buf ! 1" by (auto simp: nth_append)
    have d: "drain_frames accepts buf = (if accepts (take ?len (drop 2 buf)) then Inl (take ?len (drop 2 buf))
        else drain_frames accepts (drop (2 + ?len) buf))"
      using True by (subst drain_frames.simps) (simp add: Let_def)
    have "drain_frames accepts (buf @ rest) =
        (if accepts (take ?len (drop 2 buf)) then Inl (take ?len (drop 2 buf))
         else drain_frames accepts (drop (2 + ?len) buf @ rest))"
      by (subst drain_frames.simps, unfold n Let_def) (use True in simp)
    then show ?thesis using d 1 True by simp
  qed
qed

lemma drain_stable: "drain_frames accepts buf = Inr b \<Longrightarrow> drain_frames accepts b = Inr b"
proof (induction accepts buf rule: drain_frames.induct)
  case (1 accepts buf)
  let ?len = "unat (from_be [buf ! 0, buf ! 1] :: u16)"
  show ?case
  proof (cases "length buf \<ge> 2 \<and> length buf \<ge> 2 + ?len")
    case False
    then have "drain_frames accepts buf = Inr buf" by (subst drain_frames.simps) (auto simp: Let_def)
    then show ?thesis using 1 by simp
  next
    case True
    then have "drain_frames accepts buf = (if accepts (take ?len (drop 2 buf)) then Inl (take ?len (drop 2 buf))
        else drain_frames accepts (drop (2 + ?len) buf))"
      by (subst drain_frames.simps) (simp add: Let_def)
    then show ?thesis using 1 True by (auto split: if_splits)
  qed
qed

text \<open>Successive ready events, each with one successful read.\<close>

fun receive_run :: "(bytes \<Rightarrow> bool) \<Rightarrow> bytes list \<Rightarrow> bytes \<Rightarrow> up_event option \<times> bytes" where
  "receive_run accepts [] buf = (None, buf)"
| "receive_run accepts (c # cs) buf =
     (case receive_step accepts (Inr c) buf of
        (None, buf') \<Rightarrow> receive_run accepts cs buf'
      | (Some ev, buf') \<Rightarrow> (Some ev, buf'))"

lemma receive_run_drain:
  assumes "drain_frames accepts buf = Inr buf" "list_all (\<lambda>c. c \<noteq> []) chunks"
  shows "receive_run accepts chunks buf =
    (case drain_frames accepts (buf @ concat chunks) of
       Inl m \<Rightarrow> (Some (Received m), []) | Inr b \<Rightarrow> (None, b))"
  using assms
proof (induction chunks arbitrary: buf)
  case Nil
  then show ?case by simp
next
  case (Cons c cs)
  show ?case
  proof (cases "drain_frames accepts (buf @ c)")
    case (Inl m)
    then have "drain_frames accepts ((buf @ c) @ concat cs) = Inl m" by (subst drain_split) simp
    then show ?thesis using Cons.prems Inl by (simp add: receive_step_def)
  next
    case (Inr b)
    then have "drain_frames accepts ((buf @ c) @ concat cs) = drain_frames accepts (b @ concat cs)"
      by (subst drain_split) simp
    then show ?thesis
      using Cons.prems Cons.IH [OF drain_stable [OF Inr]] Inr by (simp add: receive_step_def)
  qed
qed

lemma drain_messages:
  assumes "list_all (\<lambda>m. length m \<le> 65535) ms"
  shows "drain_frames accepts (concat (map tcp_frame ms)) = (case find accepts ms of Some m \<Rightarrow> Inl m | None \<Rightarrow> Inr [])"
  using assms
proof (induction ms)
  case Nil
  then show ?case by (simp add: drain_frames.simps)
next
  case (Cons m ms)
  then show ?case by (simp add: drain_frame)
qed

lemma reassembly:
  assumes "list_all (\<lambda>m. length m \<le> 65535) ms" "list_all (\<lambda>c. c \<noteq> []) chunks"
    and "concat chunks = concat (map tcp_frame ms)"
  shows "receive_run accepts chunks [] =
    (case find accepts ms of Some m \<Rightarrow> (Some (Received m), []) | None \<Rightarrow> (None, []))"
proof -
  have "drain_frames accepts [] = Inr []" by (simp add: drain_frames.simps)
  from receive_run_drain [OF this assms(2)] drain_messages [OF assms(1), of accepts] assms(3)
  show ?thesis by (simp split: option.splits)
qed

section \<open>Sending and scopes\<close>

text \<open>A TCP query is on the wire in full when the transaction starts to receive.\<close>

definition up_tcp_ok :: "('s \<Rightarrow> bytes) \<Rightarrow> 's up_tcp \<Rightarrow> bool" where
  "up_tcp_ok out t \<longleftrightarrow>
     (case ut_state t of
        Sending frame sent \<Rightarrow> sent \<le> length frame \<and> out (ut_stream t) = take sent frame
      | _ \<Rightarrow> True)"

definition upstream_ok :: "('s \<Rightarrow> bytes) \<Rightarrow> ('u, 's) upstream \<Rightarrow> bool" where
  "upstream_ok out up \<longleftrightarrow> (\<forall>(tx, t) \<in> set (up_tcp up). up_tcp_ok out t)"

context nonblocking_stream
begin

lemma service_keeps:
  assumes "upstream_ok out up"
  shows "\<exists>ev up'. upstream_service wr err recv rd tx revents accepts up = Some (ev, up') \<and> upstream_ok out up'"
proof -
  have rm: "upstream_ok out (up\<lparr>up_tcp := hm_remove (=) tx (up_tcp up)\<rparr>)" "upstream_ok out (up\<lparr>up_udp := u\<rparr>)" for u
    using assms by (auto simp: upstream_ok_def hm_remove_def)
  have ins: "upstream_ok out (up\<lparr>up_tcp := hm_insert (=) tx t (up_tcp up)\<rparr>)" if "up_tcp_ok out t" for t
    using assms that by (auto simp: upstream_ok_def dest!: ids.insert_keys)
  show ?thesis
  proof (cases "hm_get (=) tx (up_udp up)")
    case (Some socket)
    then show ?thesis using assms rm by (auto simp: upstream_service_def Let_def split: sum.splits)
  next
    case None
    show ?thesis
    proof (cases "hm_get (=) tx (up_tcp up)")
      case None': None
      then show ?thesis using None assms by (simp add: upstream_service_def)
    next
      case (Some t)
      then have t: "up_tcp_ok out t" using assms ids.get_in_set [OF Some] by (auto simp: upstream_ok_def)
      show ?thesis
      proof (cases "ut_state t")
        case Connecting
        then show ?thesis using None Some assms rm by (simp add: upstream_service_def)
      next
        case (Receiving buf)
        have "up_tcp_ok out (t\<lparr>ut_state := Receiving b\<rparr>)" for b by (simp add: up_tcp_ok_def)
        then show ?thesis
          using None Some Receiving rm ins by (auto simp: upstream_service_def Let_def split: prod.splits option.splits)
      next
        case (Sending frame sent)
        then have s: "sent \<le> length frame" "out (ut_stream t) = take sent frame" using t by (simp_all add: up_tcp_ok_def)
        have w: "up_tcp_ok out (t\<lparr>ut_stream := s', ut_state := if sent + n = length frame then Receiving [] else Sending frame (sent + n)\<rparr>)"
          if "wr (ut_stream t) (drop sent frame) = (Inr n, s')" for n s'
          using wr_ok [OF that] s by (auto simp: up_tcp_ok_def take_add)
        have w': "up_tcp_ok out (t\<lparr>ut_stream := s'\<rparr>)" if "wr (ut_stream t) (drop sent frame) = (Inl e, s')" for e s'
          using wr_err [OF that] s Sending by (simp add: up_tcp_ok_def)
        show ?thesis
          using None Some Sending rm ins w w' s
          by (auto simp: upstream_service_def Let_def split: prod.splits sum.splits)
      qed
    qed
  qed
qed

lemma received_after_sent:
  assumes "upstream_ok out up" "hm_get (=) tx (up_udp up) = None" "hm_get (=) tx (up_tcp up) = Some t"
    and "ut_state t = Sending frame sent"
    and "upstream_service wr err recv rd tx revents accepts up = Some (None, up')"
    and "hm_get (=) tx (up_tcp up') = Some t'" "ut_state t' = Receiving buf"
  shows "out (ut_stream t') = frame \<and> buf = []"
proof -
  have t: "sent \<le> length frame" "out (ut_stream t) = take sent frame"
    using assms(1,4) ids.get_in_set [OF assms(3)] by (auto simp: upstream_ok_def up_tcp_ok_def)
  obtain r s where w: "wr (ut_stream t) (drop sent frame) = (r, s)" by force
  show ?thesis
    using assms(2-) t w
    by (cases r) (auto simp: upstream_service_def Let_def ids.get_insert take_add dest!: wr_ok split: if_splits)
qed

end

text \<open>A link-local server is only ever reached through the interface of its scope.\<close>

lemma link_local_scoped:
  assumes "server_address nametoindex (V6 ip) interface = Inr addr" "is_unicast_link_local ip"
  shows "\<exists>i. interface = Some i \<and> nametoindex i \<noteq> 0 \<and> addr = SocketV6 ip DNS_PORT 0 (nametoindex i)"
  using assms by (auto simp: server_address_def interface_index_def rust_simps split: if_splits)

lemma scope_server_zone:
  assumes "scope_server nametoindex s interface = Inr server" "split_once 37 s = Some (a, z)"
  shows "parse_ip a = Some server \<and> (\<exists>ip. server = V6 ip \<and> is_unicast_link_local ip)
    \<and> (z = interface \<or> parse_unsigned 4294967295 z = Some (unat (nametoindex interface)) \<and> nametoindex interface \<noteq> 0)"
  using assms
  by (auto simp: scope_server_def interface_index_def rust_simps Let_def split: if_splits ip_addr.splits option.splits)

end
