(* ===== verification/Msgpack.thy ===== *)
theory Msgpack
  imports Std_Text
begin

text \<open>
  The MessagePack codec of the native wire: \<open>resolvd-core/src/msgpack.rs\<close>. A \<open>Writer\<close> call is the
  bytes it appends to the buffer. A \<open>Reader\<close> operation takes the reader and returns a value and
  the advanced reader, or an error; every caller gives up on an error, so the reader left behind
  by one is not represented. A length (\<open>usize\<close>, 64 bits) is a \<open>nat\<close>: the positions and counts that
  occur are below \<open>2 ^ 34\<close> plus the size of the buffer.
\<close>

section \<open>Data\<close>

datatype mp_error = MpTruncated | MpType | MpUnsupported | MpUtf8 | MpDepth

datatype mp_type = TNil | TBool | TInt | TStr | TBin | TArray | TMap | TOther

type_synonym i64 = "64 word"

record reader =
  rd_buf :: bytes
  rd_pos :: nat
  rd_depth :: nat

definition MAX_DEPTH :: nat where
  "MAX_DEPTH = 32"

section \<open>Writing\<close>

definition write_nil :: bytes where
  "write_nil = [0xc0]"

definition write_bool :: "bool \<Rightarrow> bytes" where
  "write_bool v = [if v then 0xc3 else 0xc2]"

definition write_uint :: "u64 \<Rightarrow> bytes" where
  "write_uint v =
     (if v < 0x80 then [ucast v]
      else if v \<le> 0xff then [0xcc, ucast v]
      else if v \<le> 0xffff then 0xcd # be_bytes 2 (ucast v :: u16)
      else if v \<le> 0xffffffff then 0xce # be_bytes 4 (ucast v :: u32)
      else 0xcf # be_bytes 8 v)"

definition write_int :: "i64 \<Rightarrow> bytes" where
  "write_int v =
     (if sint v \<ge> 0 then write_uint v
      else if sint v \<ge> -32 then [ucast v]
      else if sint v \<ge> -128 then [0xd0, ucast v]
      else if sint v \<ge> -32768 then 0xd1 # be_bytes 2 (ucast v :: u16)
      else if sint v \<ge> -2147483648 then 0xd2 # be_bytes 4 (ucast v :: u32)
      else 0xd3 # be_bytes 8 v)"

definition write_str :: "bytes \<Rightarrow> bytes" where
  "write_str s =
     (let n = length s in
      (if n < 32 then [0xa0 OR word_of_nat n]
       else if n \<le> 0xff then [0xd9, word_of_nat n]
       else if n \<le> 0xffff then 0xda # be_bytes 2 (word_of_nat n :: u16)
       else 0xdb # be_bytes 4 (word_of_nat n :: u32)) @ s)"

definition write_bin :: "bytes \<Rightarrow> bytes" where
  "write_bin b =
     (let n = length b in
      (if n \<le> 0xff then [0xc4, word_of_nat n]
       else if n \<le> 0xffff then 0xc5 # be_bytes 2 (word_of_nat n :: u16)
       else 0xc6 # be_bytes 4 (word_of_nat n :: u32)) @ b)"

definition write_array :: "u32 \<Rightarrow> bytes" where
  "write_array c =
     (if c < 16 then [0x90 OR ucast c]
      else if c \<le> 0xffff then 0xdc # be_bytes 2 (ucast c :: u16)
      else 0xdd # be_bytes 4 c)"

definition write_map :: "u32 \<Rightarrow> bytes" where
  "write_map c =
     (if c < 16 then [0x80 OR ucast c]
      else if c \<le> 0xffff then 0xde # be_bytes 2 (ucast c :: u16)
      else 0xdf # be_bytes 4 c)"

section \<open>Reading\<close>

text \<open>Sequencing of reader operations, the \<open>?\<close> of the source.\<close>

definition r_bind :: "(reader \<Rightarrow> 'e + ('a \<times> reader)) \<Rightarrow> ('a \<Rightarrow> reader \<Rightarrow> 'e + ('b \<times> reader)) \<Rightarrow> reader \<Rightarrow> 'e + ('b \<times> reader)" where
  "r_bind f g r = and_then (f r) (\<lambda>(x, r'). g x r')"

definition r_return :: "'a \<Rightarrow> reader \<Rightarrow> 'e + ('a \<times> reader)" where
  "r_return x r = Inr (x, r)"

definition r_fail :: "'e \<Rightarrow> reader \<Rightarrow> 'e + ('a \<times> reader)" where
  "r_fail e r = Inl e"

definition reader_new :: "bytes \<Rightarrow> reader" where
  "reader_new buf = \<lparr>rd_buf = buf, rd_pos = 0, rd_depth = 0\<rparr>"

definition remaining :: "reader \<Rightarrow> nat" where
  "remaining r = length (rd_buf r) - rd_pos r"

definition r_byte :: "reader \<Rightarrow> mp_error + (u8 \<times> reader)" where
  "r_byte r =
     and_then (ok_or MpTruncated (get_at (rd_buf r) (rd_pos r))) (\<lambda>b. Inr (b, r\<lparr>rd_pos := rd_pos r + 1\<rparr>))"

definition r_take :: "nat \<Rightarrow> reader \<Rightarrow> mp_error + (bytes \<times> reader)" where
  "r_take n r =
     and_then (ok_or MpTruncated (get_range (rd_buf r) (rd_pos r) (rd_pos r + n)))
       (\<lambda>s. Inr (s, r\<lparr>rd_pos := rd_pos r + n\<rparr>))"

definition be_u :: "nat \<Rightarrow> reader \<Rightarrow> mp_error + (u64 \<times> reader)" where
  "be_u n = r_bind (r_take n) (\<lambda>s. r_return (from_be s))"

definition be_len :: "nat \<Rightarrow> reader \<Rightarrow> mp_error + (nat \<times> reader)" where
  "be_len n = r_bind (be_u n) (\<lambda>v. r_return (unat v))"

definition peek :: "reader \<Rightarrow> mp_type option" where
  "peek r =
     map_option (\<lambda>b.
       if b = 0xc0 then TNil
       else if b = 0xc2 \<or> b = 0xc3 then TBool
       else if b \<le> 0x7f \<or> 0xe0 \<le> b \<or> (0xcc \<le> b \<and> b \<le> 0xd3) then TInt
       else if (0xa0 \<le> b \<and> b \<le> 0xbf) \<or> (0xd9 \<le> b \<and> b \<le> 0xdb) then TStr
       else if 0xc4 \<le> b \<and> b \<le> 0xc6 then TBin
       else if (0x90 \<le> b \<and> b \<le> 0x9f) \<or> b = 0xdc \<or> b = 0xdd then TArray
       else if (0x80 \<le> b \<and> b \<le> 0x8f) \<or> b = 0xde \<or> b = 0xdf then TMap
       else TOther) (get_at (rd_buf r) (rd_pos r))"

definition read_nil :: "reader \<Rightarrow> mp_error + (unit \<times> reader)" where
  "read_nil = r_bind r_byte (\<lambda>b. if b = 0xc0 then r_return () else r_fail MpType)"

definition read_bool :: "reader \<Rightarrow> mp_error + (bool \<times> reader)" where
  "read_bool =
     r_bind r_byte (\<lambda>b.
       if b = 0xc2 then r_return False else if b = 0xc3 then r_return True else r_fail MpType)"

definition read_int :: "reader \<Rightarrow> mp_error + (i64 \<times> reader)" where
  "read_int =
     r_bind r_byte (\<lambda>b.
       if b \<le> 0x7f then r_return (ucast b)
       else if 0xe0 \<le> b then r_return (scast b)
       else if b = 0xcc then be_u 1
       else if b = 0xcd then be_u 2
       else if b = 0xce then be_u 4
       else if b = 0xcf then r_bind (be_u 8) (\<lambda>v. if sint v \<ge> 0 then r_return v else r_fail MpType)
       else if b = 0xd0 then r_bind (be_u 1) (\<lambda>v. r_return (scast (ucast v :: u8)))
       else if b = 0xd1 then r_bind (be_u 2) (\<lambda>v. r_return (scast (ucast v :: u16)))
       else if b = 0xd2 then r_bind (be_u 4) (\<lambda>v. r_return (scast (ucast v :: u32)))
       else if b = 0xd3 then be_u 8
       else r_fail MpType)"

definition read_uint :: "reader \<Rightarrow> mp_error + (u64 \<times> reader)" where
  "read_uint = r_bind read_int (\<lambda>v. if sint v \<ge> 0 then r_return v else r_fail MpType)"

definition str_len :: "u8 \<Rightarrow> reader \<Rightarrow> mp_error + (nat \<times> reader)" where
  "str_len b =
     (if 0xa0 \<le> b \<and> b \<le> 0xbf then r_return (unat (b AND 0x1f))
      else if b = 0xd9 then be_len 1
      else if b = 0xda then be_len 2
      else if b = 0xdb then be_len 4
      else r_fail MpType)"

definition read_str :: "reader \<Rightarrow> mp_error + (bytes \<times> reader)" where
  "read_str =
     r_bind r_byte (\<lambda>b.
     r_bind (str_len b) (\<lambda>n.
     r_bind (r_take n) (\<lambda>s. if valid_utf8 s then r_return s else r_fail MpUtf8)))"

definition bin_len :: "u8 \<Rightarrow> reader \<Rightarrow> mp_error + (nat \<times> reader)" where
  "bin_len b =
     (if b = 0xc4 then be_len 1
      else if b = 0xc5 then be_len 2
      else if b = 0xc6 then be_len 4
      else r_fail MpType)"

definition read_bin :: "reader \<Rightarrow> mp_error + (bytes \<times> reader)" where
  "read_bin =
     r_bind r_byte (\<lambda>b.
     r_bind (bin_len b) r_take)"

definition array_len :: "u8 \<Rightarrow> reader \<Rightarrow> mp_error + (nat \<times> reader)" where
  "array_len b =
     (if 0x90 \<le> b \<and> b \<le> 0x9f then r_return (unat (b AND 0x0f))
      else if b = 0xdc then be_len 2
      else if b = 0xdd then be_len 4
      else r_fail MpType)"

definition read_array :: "reader \<Rightarrow> mp_error + (nat \<times> reader)" where
  "read_array =
     r_bind r_byte (\<lambda>b.
     r_bind (array_len b) (\<lambda>n r.
       if n > remaining r then Inl MpTruncated else Inr (n, r)))"

definition map_len :: "u8 \<Rightarrow> reader \<Rightarrow> mp_error + (nat \<times> reader)" where
  "map_len b =
     (if 0x80 \<le> b \<and> b \<le> 0x8f then r_return (unat (b AND 0x0f))
      else if b = 0xde then be_len 2
      else if b = 0xdf then be_len 4
      else r_fail MpType)"

definition read_map :: "reader \<Rightarrow> mp_error + (nat \<times> reader)" where
  "read_map =
     r_bind r_byte (\<lambda>b.
     r_bind (map_len b) (\<lambda>n r.
       if n * 2 > remaining r then Inl MpTruncated else Inr (n, r)))"

text \<open>
  \<open>skip\<close>. The recursion of the source is \<open>skip_nested\<close>: the first argument is the number of
  containers that may still be entered, \<open>MAX_DEPTH - depth\<close>; it repeats \<open>skip\<close> for the values
  of one container. A map holds twice its count. The depth is the same after a value as before.
\<close>

fun try_times :: "nat \<Rightarrow> (reader \<Rightarrow> 'e + (unit \<times> reader)) \<Rightarrow> reader \<Rightarrow> 'e + (unit \<times> reader)" where
  "try_times 0 f = r_return ()"
| "try_times (Suc n) f = r_bind f (\<lambda>_. try_times n f)"

definition skip_width :: "u8 \<Rightarrow> nat" where
  "skip_width b =
     (if b = 0xcc \<or> b = 0xd0 then 1
      else if b = 0xcd \<or> b = 0xd1 \<or> b = 0xd4 then 2
      else if b = 0xd5 then 3
      else if b = 0xca \<or> b = 0xce \<or> b = 0xd2 then 4
      else if b = 0xd6 then 5
      else if b = 0xcb \<or> b = 0xcf \<or> b = 0xd3 then 8
      else if b = 0xd7 then 9
      else 17)"

definition skip_as :: "(nat \<Rightarrow> reader \<Rightarrow> mp_error + (unit \<times> reader)) \<Rightarrow> u8 \<Rightarrow> reader \<Rightarrow> mp_error + (unit \<times> reader)" where
  "skip_as nested b =
     (if b \<le> 0x7f \<or> 0xe0 \<le> b \<or> b = 0xc0 \<or> b = 0xc2 \<or> b = 0xc3 then r_bind r_byte (\<lambda>_. r_return ())
      else if 0xca \<le> b \<and> b \<le> 0xd8 then
        r_bind r_byte (\<lambda>b. r_bind (r_take (skip_width b)) (\<lambda>_. r_return ()))
      else if 0xc7 \<le> b \<and> b \<le> 0xc9 then
        r_bind r_byte (\<lambda>b. r_bind (be_len (if b = 0xc7 then 1 else if b = 0xc8 then 2 else 4)) (\<lambda>n.
        r_bind r_byte (\<lambda>_. r_bind (r_take n) (\<lambda>_. r_return ()))))
      else if (0xa0 \<le> b \<and> b \<le> 0xbf) \<or> (0xd9 \<le> b \<and> b \<le> 0xdb) then r_bind read_str (\<lambda>_. r_return ())
      else if 0xc4 \<le> b \<and> b \<le> 0xc6 then r_bind read_bin (\<lambda>_. r_return ())
      else if (0x90 \<le> b \<and> b \<le> 0x9f) \<or> b = 0xdc \<or> b = 0xdd then r_bind read_array nested
      else if (0x80 \<le> b \<and> b \<le> 0x8f) \<or> b = 0xde \<or> b = 0xdf then r_bind read_map (\<lambda>n. nested (2 * n))
      else r_fail MpUnsupported)"

definition skip_value :: "(nat \<Rightarrow> reader \<Rightarrow> mp_error + (unit \<times> reader)) \<Rightarrow> reader \<Rightarrow> mp_error + (unit \<times> reader)" where
  "skip_value nested r =
     and_then (ok_or MpTruncated (get_at (rd_buf r) (rd_pos r))) (\<lambda>b. skip_as nested b r)"

fun skip_nested :: "nat \<Rightarrow> nat \<Rightarrow> reader \<Rightarrow> mp_error + (unit \<times> reader)" where
  "skip_nested 0 n = r_fail MpDepth"
| "skip_nested (Suc left) n = try_times n (skip_value (skip_nested left))"

definition skip :: "reader \<Rightarrow> mp_error + (unit \<times> reader)" where
  "skip r = skip_value (skip_nested (MAX_DEPTH - rd_depth r)) r"

section \<open>Reading back what was written\<close>

text \<open>
  \<open>reads k f w v\<close>: wherever the bytes \<open>w\<close> stand in a buffer, with at least \<open>k\<close> bytes after them,
  the operation \<open>f\<close> returns \<open>v\<close> and stops right behind them. The \<open>k\<close> bytes are what the count
  checks of the containers ask for.
\<close>

definition reads :: "nat \<Rightarrow> (reader \<Rightarrow> 'e + ('a \<times> reader)) \<Rightarrow> bytes \<Rightarrow> 'a \<Rightarrow> bool" where
  "reads k f w v \<longleftrightarrow>
     (\<forall>pre post. k \<le> length post \<longrightarrow>
        f \<lparr>rd_buf = pre @ w @ post, rd_pos = length pre, rd_depth = 0\<rparr> =
        Inr (v, \<lparr>rd_buf = pre @ w @ post, rd_pos = length pre + length w, rd_depth = 0\<rparr>))"

lemma readsI:
  assumes "\<And>pre post. k \<le> length post \<Longrightarrow>
     f \<lparr>rd_buf = pre @ w @ post, rd_pos = length pre, rd_depth = 0\<rparr> =
     Inr (v, \<lparr>rd_buf = pre @ w @ post, rd_pos = length pre + length w, rd_depth = 0\<rparr>)"
  shows "reads k f w v"
  using assms by (simp add: reads_def)

lemma readsD:
  "reads k f w v \<Longrightarrow> k \<le> length post \<Longrightarrow> p = length pre \<Longrightarrow> q = p + length w \<Longrightarrow> buf = pre @ w @ post \<Longrightarrow>
   f \<lparr>rd_buf = buf, rd_pos = p, rd_depth = 0\<rparr> = Inr (v, \<lparr>rd_buf = buf, rd_pos = q, rd_depth = 0\<rparr>)"
  by (simp add: reads_def)

lemma reads_whole:
  assumes "reads 0 f w v"
  shows "f (reader_new w) = Inr (v, \<lparr>rd_buf = w, rd_pos = length w, rd_depth = 0\<rparr>)"
  unfolding reader_new_def by (rule readsD [OF assms, where pre = "[]" and post = "[]"]) simp_all

lemma reads_mono: "reads k f w v \<Longrightarrow> k \<le> m \<Longrightarrow> reads m f w v"
  by (simp add: reads_def)

lemma reads_return [intro, simp]: "reads k (r_return x) [] x"
  by (simp add: reads_def r_return_def)

lemma reads_bind:
  assumes f: "reads k f w1 x" and g: "reads m (g x) w2 y" and k: "k \<le> length w2 + m"
  shows "reads m (r_bind f g) (w1 @ w2) y"
proof (rule readsI)
  fix pre post :: bytes
  assume m: "m \<le> length post"
  have "f \<lparr>rd_buf = pre @ (w1 @ w2) @ post, rd_pos = length pre, rd_depth = 0\<rparr> =
      Inr (x, \<lparr>rd_buf = pre @ (w1 @ w2) @ post, rd_pos = length pre + length w1, rd_depth = 0\<rparr>)"
    by (rule readsD [OF f, where pre = pre and post = "w2 @ post"]) (use k m in simp_all)
  moreover have "g x \<lparr>rd_buf = pre @ (w1 @ w2) @ post, rd_pos = length pre + length w1, rd_depth = 0\<rparr> =
      Inr (y, \<lparr>rd_buf = pre @ (w1 @ w2) @ post, rd_pos = length pre + length (w1 @ w2), rd_depth = 0\<rparr>)"
    by (rule readsD [OF g, where pre = "pre @ w1" and post = post]) (use m in simp_all)
  ultimately show "r_bind f g \<lparr>rd_buf = pre @ (w1 @ w2) @ post, rd_pos = length pre, rd_depth = 0\<rparr> =
      Inr (y, \<lparr>rd_buf = pre @ (w1 @ w2) @ post, rd_pos = length pre + length (w1 @ w2), rd_depth = 0\<rparr>)"
    by (simp add: r_bind_def)
qed

lemma reads_bind_last: "reads 0 f w x \<Longrightarrow> reads m (g x) [] y \<Longrightarrow> reads m (r_bind f g) w y"
  using reads_bind [of 0 f w x m g "[]" y] by simp

lemma reads_bind_Cons: "reads 0 f [b] x \<Longrightarrow> reads m (g x) w y \<Longrightarrow> reads m (r_bind f g) (b # w) y"
  using reads_bind [of 0 f "[b]" x m g w y] by simp

lemma reads_byte [intro, simp]: "reads k r_byte [b] b"
  by (auto simp: reads_def r_byte_def get_at_append)

lemma reads_take [intro, simp]: "length s = n \<Longrightarrow> reads k (r_take n) s s"
  by (auto simp: reads_def r_take_def get_range_append)

lemma reads_be_u: "length s = n \<Longrightarrow> from_be s = v \<Longrightarrow> reads k (be_u n) s v"
  unfolding be_u_def by (rule reads_bind_last) auto

lemma reads_be_len: "length s = n \<Longrightarrow> unat (from_be s :: u64) = v \<Longrightarrow> reads k (be_len n) s v"
  unfolding be_len_def by (rule reads_bind_last) (auto intro: reads_be_u)

lemma be_bytes_ucast:
  "LENGTH('a) \<le> LENGTH('b) \<Longrightarrow> be_bytes n (ucast (w :: 'a::len word) :: 'b::len word) = be_bytes n w"
  unfolding be_bytes_def
  by (rule map_cong [OF refl]) (rule bit_word_eqI, auto simp: bit_simps dest: bit_imp_le_length)

lemma from_be_wider:
  assumes "LENGTH('a) \<le> LENGTH('b)" "8 * n \<ge> LENGTH('a)"
  shows "from_be (be_bytes n (w :: 'a::len word)) = (ucast w :: 'b::len word)"
proof -
  have "from_be (be_bytes n w) = take_bit (8 * n) (ucast w :: 'b word)"
    using from_be_be_bytes_take [of n "ucast w :: 'b word"] by (simp add: be_bytes_ucast assms(1))
  also have "\<dots> = ucast w"
    by (rule bit_word_eqI) (use assms in \<open>auto simp: bit_simps dest: bit_imp_le_length\<close>)
  finally show ?thesis .
qed

lemma from_be_single [simp]: "from_be [b] = ucast b"
  by (simp add: from_be_def)

lemma unat_ucast_wider: "LENGTH('a) \<le> LENGTH('b) \<Longrightarrow> unat (ucast (w :: 'a::len word) :: 'b::len word) = unat w"
  by (simp add: unsigned_ucast_eq take_bit_nat_eq_self less_le_trans [OF unsigned_less])

lemma unat_of_nat_small: "n < 2 ^ LENGTH('a) \<Longrightarrow> unat (word_of_nat n :: 'a::len word) = n"
  by (simp add: unat_of_nat take_bit_nat_eq_self)

lemma reads_len1: "n \<le> 0xff \<Longrightarrow> reads k (be_len (Suc 0)) [word_of_nat n] n"
  by (rule reads_be_len) (simp_all add: unat_ucast_wider unat_of_nat_small)

lemma reads_len2: "n \<le> 0xffff \<Longrightarrow> reads k (be_len 2) (be_bytes 2 (word_of_nat n :: u16)) n"
  by (rule reads_be_len) (simp_all add: from_be_wider unat_ucast_wider unat_of_nat_small)

lemma reads_len4: "n < 2 ^ 32 \<Longrightarrow> reads k (be_len 4) (be_bytes 4 (word_of_nat n :: u32)) n"
  by (rule reads_be_len) (simp_all add: from_be_wider unat_ucast_wider unat_of_nat_small)

lemma reads_count2: "reads k (be_len 2) (be_bytes 2 (w :: u16)) (unat w)"
  by (rule reads_be_len) (simp_all add: from_be_wider unat_ucast_wider)

lemma reads_count4: "reads k (be_len 4) (be_bytes 4 (w :: u32)) (unat w)"
  by (rule reads_be_len) (simp_all add: from_be_wider unat_ucast_wider)

lemma reads_nil: "reads k read_nil write_nil ()"
  unfolding read_nil_def write_nil_def by (rule reads_bind_Cons) auto

lemma reads_bool: "reads k read_bool (write_bool v) v"
  unfolding read_bool_def write_bool_def by (cases v; simp; rule reads_bind_Cons) auto

lemma all_lt_5bit: "\<forall>n \<in> set [0..<32]. P n \<Longrightarrow> n < (32 :: nat) \<Longrightarrow> P n"
  by simp

lemma str_tag:
  assumes "n < (32 :: nat)"
  shows "(0xa0 :: u8) \<le> 0xa0 OR word_of_nat n \<and> 0xa0 OR word_of_nat n \<le> (0xbf :: u8) \<and>
    unat ((0xa0 OR word_of_nat n) AND (0x1f :: u8)) = n"
  by (rule all_lt_5bit [OF _ assms]) (simp add: upt_rec)

lemma count_tag:
  assumes "n < (16 :: nat)"
  shows "(0x90 :: u8) \<le> 0x90 OR word_of_nat n \<and> 0x90 OR word_of_nat n \<le> (0x9f :: u8) \<and>
    (0x80 :: u8) \<le> 0x80 OR word_of_nat n \<and> 0x80 OR word_of_nat n \<le> (0x8f :: u8) \<and>
    unat ((0x90 OR word_of_nat n) AND (0x0f :: u8)) = n \<and> unat ((0x80 OR word_of_nat n) AND (0x0f :: u8)) = n"
proof -
  have "\<forall>n \<in> set [0..<16]. (0x90 :: u8) \<le> 0x90 OR word_of_nat n \<and> 0x90 OR word_of_nat n \<le> (0x9f :: u8) \<and>
    (0x80 :: u8) \<le> 0x80 OR word_of_nat n \<and> 0x80 OR word_of_nat n \<le> (0x8f :: u8) \<and>
    unat ((0x90 OR word_of_nat n) AND (0x0f :: u8)) = n \<and> unat ((0x80 OR word_of_nat n) AND (0x0f :: u8)) = n"
    by (simp add: upt_rec)
  then show ?thesis using assms by simp
qed

text \<open>A tag byte, a length or count, and what follows.\<close>

lemma reads_tagged:
  assumes h: "reads 0 (sel b) hw n" and b: "reads m (body n) w y"
  shows "reads m (r_bind r_byte (\<lambda>b. r_bind (sel b) body)) (b # hw @ w) y"
proof (rule reads_bind_Cons [OF reads_byte])
  show "reads m (r_bind (sel b) body) (hw @ w) y"
    by (rule reads_bind [where g = body, OF h b]) simp
qed

lemma str_header:
  assumes "length s < 2 ^ 32"
  obtains b hw where "write_str s = b # hw @ s" and "reads 0 (str_len b) hw (length s)"
proof -
  consider "length s < 32" | "32 \<le> length s" "length s \<le> 0xff" | "0xff < length s" "length s \<le> 0xffff"
    | "0xffff < length s" by linarith
  then show thesis
  proof cases
    case 1
    then show thesis
      using str_tag [OF 1] that [of "0xa0 OR word_of_nat (length s)" "[]"] by (auto simp: write_str_def str_len_def)
  next
    case 2
    then show thesis
      using that [of "0xd9" "[word_of_nat (length s)]"] by (auto simp: write_str_def str_len_def reads_len1)
  next
    case 3
    then show thesis
      using that [of "0xda" "be_bytes 2 (word_of_nat (length s) :: u16)"]
      by (auto simp: write_str_def str_len_def reads_len2)
  next
    case 4
    then show thesis
      using that [of "0xdb" "be_bytes 4 (word_of_nat (length s) :: u32)"] assms
      by (auto simp: write_str_def str_len_def reads_len4)
  qed
qed

lemma bin_header:
  assumes "length s < 2 ^ 32"
  obtains b hw where "write_bin s = b # hw @ s" and "reads 0 (bin_len b) hw (length s)"
proof -
  consider "length s \<le> 0xff" | "0xff < length s" "length s \<le> 0xffff" | "0xffff < length s" by linarith
  then show thesis
  proof cases
    case 1
    then show thesis
      using that [of "0xc4" "[word_of_nat (length s)]"] by (auto simp: write_bin_def bin_len_def reads_len1)
  next
    case 2
    then show thesis
      using that [of "0xc5" "be_bytes 2 (word_of_nat (length s) :: u16)"]
      by (auto simp: write_bin_def bin_len_def reads_len2)
  next
    case 3
    then show thesis
      using that [of "0xc6" "be_bytes 4 (word_of_nat (length s) :: u32)"] assms
      by (auto simp: write_bin_def bin_len_def reads_len4)
  qed
qed

lemma count_cases:
  fixes c :: u32
  obtains "c < 16" "unat c < 16" "ucast c = (word_of_nat (unat c) :: u8)"
  | "\<not> c < 16" "c \<le> 0xffff" "unat (ucast c :: u16) = unat c"
  | "\<not> c < 16" "\<not> c \<le> 0xffff"
proof -
  have "unat (ucast c :: u16) = unat c" if "c \<le> 0xffff"
  proof -
    have "unat c \<le> 0xffff" using that by (simp add: word_le_nat_alt)
    then show ?thesis by (simp add: unsigned_ucast_eq take_bit_nat_eq_self)
  qed
  then show thesis using that by (force simp: word_less_nat_alt)
qed

lemma array_header:
  obtains b hw where "write_array c = b # hw" and "reads 0 (array_len b) hw (unat c)"
proof (cases c rule: count_cases)
  case 1
  then show thesis
    using count_tag [OF 1(2)] that [of "0x90 OR ucast c" "[]"] by (auto simp: write_array_def array_len_def)
next
  case 2
  then show thesis
    using that [of "0xdc" "be_bytes 2 (ucast c :: u16)"] reads_count2 [of 0 "ucast c"]
    by (auto simp: write_array_def array_len_def)
next
  case 3
  then show thesis
    using that [of "0xdd" "be_bytes 4 c"]
    by (auto simp: write_array_def array_len_def reads_count4)
qed

lemma map_header:
  obtains b hw where "write_map c = b # hw" and "reads 0 (map_len b) hw (unat c)"
proof (cases c rule: count_cases)
  case 1
  then show thesis
    using count_tag [OF 1(2)] that [of "0x80 OR ucast c" "[]"] by (auto simp: write_map_def map_len_def)
next
  case 2
  then show thesis
    using that [of "0xde" "be_bytes 2 (ucast c :: u16)"] reads_count2 [of 0 "ucast c"]
    by (auto simp: write_map_def map_len_def)
next
  case 3
  then show thesis
    using that [of "0xdf" "be_bytes 4 c"]
    by (auto simp: write_map_def map_len_def reads_count4)
qed

lemma reads_str:
  assumes "valid_utf8 s" "length s < 2 ^ 32"
  shows "reads k read_str (write_str s) s"
proof -
  obtain b hw where w: "write_str s = b # hw @ s" and r: "reads 0 (str_len b) hw (length s)"
    using str_header [OF assms(2)] .
  have "reads k (r_bind (r_take (length s)) (\<lambda>s. if valid_utf8 s then r_return s else r_fail MpUtf8)) s s"
    by (rule reads_bind_last [where x = s]) (simp_all add: assms(1))
  then show ?thesis
    unfolding w read_str_def
    by (rule reads_tagged [where sel = str_len, OF r])
qed

lemma reads_bin:
  assumes "length s < 2 ^ 32"
  shows "reads k read_bin (write_bin s) s"
proof -
  obtain b hw where w: "write_bin s = b # hw @ s" and r: "reads 0 (bin_len b) hw (length s)"
    using bin_header [OF assms] .
  show ?thesis
    unfolding w read_bin_def
    by (rule reads_tagged [where sel = bin_len, OF r]) simp
qed

lemma reads_array: "reads (unat c) read_array (write_array c) (unat c)"
proof -
  obtain b hw where w: "write_array c = b # hw" and r: "reads 0 (array_len b) hw (unat c)"
    using array_header .
  have "reads (unat c) (\<lambda>r. if unat c > remaining r then Inl MpTruncated else Inr (unat c, r)) [] (unat c)"
    by (auto simp: reads_def remaining_def)
  from reads_tagged [where sel = array_len and body = "\<lambda>n r. if n > remaining r then Inl MpTruncated else Inr (n, r)", OF r this]
  show ?thesis by (simp add: w read_array_def)
qed

lemma reads_map: "reads (2 * unat c) read_map (write_map c) (unat c)"
proof -
  obtain b hw where w: "write_map c = b # hw" and r: "reads 0 (map_len b) hw (unat c)"
    using map_header .
  have "reads (2 * unat c) (\<lambda>r. if unat c * 2 > remaining r then Inl MpTruncated else Inr (unat c, r)) [] (unat c)"
    by (auto simp: reads_def remaining_def)
  from reads_tagged [where sel = map_len and body = "\<lambda>n r. if n * 2 > remaining r then Inl MpTruncated else Inr (n, r)", OF r this]
  show ?thesis by (simp add: w read_map_def)
qed
text \<open>Two's complement: a signed value is read off the unsigned one.\<close>

lemma sint_value:
  fixes w :: "'a::len word"
  shows "sint w = (if uint w < 2 ^ (LENGTH('a) - 1) then uint w else uint w - 2 ^ LENGTH('a))"
proof -
  have p: "(2 :: int) ^ LENGTH('a) = 2 * 2 ^ (LENGTH('a) - 1)"
    by (simp flip: power_Suc)
  have u: "0 \<le> uint w" "uint w < 2 * 2 ^ (LENGTH('a) - 1)"
    using uint_bounded [of w] unfolding p by simp_all
  have s: "sint w = (uint w + 2 ^ (LENGTH('a) - 1)) mod (2 * 2 ^ (LENGTH('a) - 1)) - 2 ^ (LENGTH('a) - 1)"
    by (simp add: sint_uint signed_take_bit_eq_take_bit_shift take_bit_eq_mod p)
  show ?thesis
  proof (cases "uint w < 2 ^ (LENGTH('a) - 1)")
    case True
    then show ?thesis using u by (simp add: s)
  next
    case False
    have "(uint w + 2 ^ (LENGTH('a) - 1)) mod (2 * 2 ^ (LENGTH('a) - 1)) = uint w - 2 ^ (LENGTH('a) - 1)"
      using mod_add_self2 [of "uint w - 2 ^ (LENGTH('a) - 1)" "2 * 2 ^ (LENGTH('a) - 1)"] u False
      by (simp add: mod_pos_pos_trivial algebra_simps)
    then show ?thesis using False by (simp add: s p)
  qed
qed

lemma sint_nonneg: "sint (v :: i64) \<ge> 0 \<longleftrightarrow> v < 2 ^ 63"
proof -
  have "uint v < 2 ^ 64" using uint_bounded [of v] by simp
  then show ?thesis by (simp add: sint_value word_less_def)
qed

lemma sint_ucast_narrow:
  fixes v :: i64
  assumes "- (2 ^ (LENGTH('b) - 1)) \<le> sint v" "sint v < 2 ^ (LENGTH('b) - 1)" "LENGTH('b) \<le> 64"
  shows "sint (ucast v :: 'b::len word) = sint v"
proof -
  have m: "min (LENGTH('b) - Suc 0) 63 = LENGTH('b) - Suc 0" using assms(3) by linarith
  have "sint (ucast v :: 'b word) = signed_take_bit (LENGTH('b) - 1) (sint v)"
    by (simp add: signed_ucast_eq sint_uint [of v] m)
  also have "\<dots> = sint v"
    by (rule signed_take_bit_int_eq_self) (use assms in simp_all)
  finally show ?thesis .
qed

lemma scast_ucast_narrow:
  fixes v :: i64
  assumes "- (2 ^ (LENGTH('b) - 1)) \<le> sint v" "sint v < 2 ^ (LENGTH('b) - 1)" "LENGTH('b) \<le> 64"
  shows "scast (ucast v :: 'b::len word) = v"
proof -
  have "(word_of_int (sint (ucast v :: 'b word)) :: i64) = word_of_int (sint v)"
    by (simp only: sint_ucast_narrow [OF assms])
  then show ?thesis by simp
qed

lemma ucast_back:
  assumes "unat (v :: u64) < 2 ^ LENGTH('b)" "LENGTH('b) \<le> 64"
  shows "ucast (ucast v :: 'b::len word) = v"
proof -
  have "unat (ucast (ucast v :: 'b word) :: u64) = unat (ucast v :: 'b word)"
    by (rule unat_ucast_wider) (use assms in simp)
  also have "\<dots> = unat v" using assms by (simp add: unsigned_ucast_eq take_bit_nat_eq_self)
  finally show ?thesis by (simp add: unsigned_word_eqI)
qed

lemma reads_int_nonneg:
  assumes "sint v \<ge> 0"
  shows "reads k read_int (write_uint v) v"
proof -
  have v: "v < 2 ^ 63" using assms by (simp add: sint_nonneg)
  consider "unat v < 0x80" | "0x80 \<le> unat v" "unat v \<le> 0xff" | "0xff < unat v" "unat v \<le> 0xffff"
    | "0xffff < unat v" "unat v \<le> 0xffffffff" | "0xffffffff < unat v" by linarith
  then show ?thesis
  proof cases
    case 1
    have "unat (ucast v :: u8) = unat v" using 1 by (simp add: unsigned_ucast_eq take_bit_nat_eq_self)
    then have "(ucast v :: u8) \<le> 0x7f" using 1 by (simp add: word_le_nat_alt)
    then have "reads k read_int [ucast v] v"
      unfolding read_int_def using 1 by (intro reads_bind_Cons [OF reads_byte]) (auto simp: ucast_back)
    then show ?thesis using 1 by (simp add: write_uint_def word_less_nat_alt)
  next
    case 2
    then have "reads k read_int [0xcc, ucast v] v"
      unfolding read_int_def by (intro reads_bind_Cons [OF reads_byte]) (auto simp: ucast_back intro!: reads_be_u)
    then show ?thesis using 2 by (simp add: write_uint_def word_less_nat_alt word_le_nat_alt)
  next
    case 3
    then have "reads k read_int (0xcd # be_bytes 2 (ucast v :: u16)) v"
      unfolding read_int_def by (intro reads_bind_Cons [OF reads_byte]) (auto simp: from_be_wider ucast_back intro!: reads_be_u)
    then show ?thesis using 3 by (simp add: write_uint_def word_less_nat_alt word_le_nat_alt)
  next
    case 4
    then have "reads k read_int (0xce # be_bytes 4 (ucast v :: u32)) v"
      unfolding read_int_def by (intro reads_bind_Cons [OF reads_byte]) (auto simp: from_be_wider ucast_back intro!: reads_be_u)
    then show ?thesis using 4 by (simp add: write_uint_def word_less_nat_alt word_le_nat_alt)
  next
    case 5
    have "reads k (r_bind (be_u 8) (\<lambda>v. if sint v \<ge> 0 then r_return v else r_fail MpType)) (be_bytes 8 v) v"
      by (rule reads_bind_last [where x = v]) (auto simp: from_be_be_bytes assms intro!: reads_be_u)
    then have "reads k read_int (0xcf # be_bytes 8 v) v"
      unfolding read_int_def by (intro reads_bind_Cons [OF reads_byte]) auto
    then show ?thesis using 5 by (simp add: write_uint_def word_less_nat_alt word_le_nat_alt)
  qed
qed

lemma negative_byte:
  assumes "-32 \<le> sint b" "sint (b :: u8) < 0"
  shows "0xe0 \<le> b \<and> \<not> b \<le> 0x7f"
  using assms uint_bounded [of b] by (auto simp: sint_value [of b] word_le_def split: if_splits)

lemma reads_int_byte:
  assumes "-32 \<le> sint v" "sint v < 0"
  shows "reads k read_int [ucast v] v"
proof -
  have "sint (ucast v :: u8) = sint v" by (rule sint_ucast_narrow) (use assms in simp_all)
  then have b: "(0xe0 :: u8) \<le> ucast v" "\<not> ucast v \<le> (0x7f :: u8)"
    using negative_byte [of "ucast v"] assms by simp_all
  have "scast (ucast v :: u8) = v" by (rule scast_ucast_narrow) (use assms in simp_all)
  then show ?thesis unfolding read_int_def by (intro reads_bind_Cons [OF reads_byte]) (simp add: b)
qed

lemma reads_int_sized:
  fixes v :: i64
  assumes "- (2 ^ (LENGTH('b) - 1)) \<le> sint v" "sint v < 2 ^ (LENGTH('b) - 1)" "LENGTH('b) \<le> 64" "8 * n = LENGTH('b)"
  shows "reads k (r_bind (be_u n) (\<lambda>v. r_return (scast (ucast v :: 'b::len word)))) (be_bytes n (ucast v :: 'b word)) v"
proof (rule reads_bind_last)
  show "reads 0 (be_u n) (be_bytes n (ucast v :: 'b word)) (ucast (ucast v :: 'b word))"
    by (rule reads_be_u) (use assms in \<open>simp_all add: from_be_wider\<close>)
  have "ucast (ucast (ucast v :: 'b word) :: u64) = (ucast v :: 'b word)"
    by (rule bit_word_eqI) (use assms in \<open>auto simp: bit_simps\<close>)
  then show "reads k (r_return (scast (ucast (ucast (ucast v :: 'b word) :: u64) :: 'b word))) [] v"
    using scast_ucast_narrow [OF assms(1-3)] by simp
qed

lemma reads_int: "reads k read_int (write_int v) v"
proof -
  consider "sint v \<ge> 0" | "-32 \<le> sint v" "sint v < 0" | "-128 \<le> sint v" "sint v < -32"
    | "-32768 \<le> sint v" "sint v < -128" | "-2147483648 \<le> sint v" "sint v < -32768" | "sint v < -2147483648"
    by linarith
  then show ?thesis
  proof cases
    case 1
    then show ?thesis by (simp add: write_int_def reads_int_nonneg)
  next
    case 2
    then show ?thesis using reads_int_byte [of v k] by (simp add: write_int_def)
  next
    case 3
    have "reads k read_int (0xd0 # be_bytes 1 (ucast v :: u8)) v"
      unfolding read_int_def
      by (intro reads_bind_Cons [OF reads_byte]) (use 3 reads_int_sized [where 'b = 8, of v 1 k] in simp)
    then show ?thesis using 3 by (simp add: write_int_def be_bytes_def)
  next
    case 4
    have "reads k read_int (0xd1 # be_bytes 2 (ucast v :: u16)) v"
      unfolding read_int_def
      by (intro reads_bind_Cons [OF reads_byte]) (use 4 reads_int_sized [where 'b = 16, of v 2 k] in simp)
    then show ?thesis using 4 by (simp add: write_int_def)
  next
    case 5
    have "reads k read_int (0xd2 # be_bytes 4 (ucast v :: u32)) v"
      unfolding read_int_def
      by (intro reads_bind_Cons [OF reads_byte]) (use 5 reads_int_sized [where 'b = 32, of v 4 k] in simp)
    then show ?thesis using 5 by (simp add: write_int_def)
  next
    case 6
    have "reads k read_int (0xd3 # be_bytes 8 v) v"
      unfolding read_int_def
      by (intro reads_bind_Cons [OF reads_byte]) (auto simp: from_be_be_bytes intro!: reads_be_u)
    then show ?thesis using 6 by (simp add: write_int_def)
  qed
qed

lemma reads_uint:
  assumes "v < 2 ^ 63"
  shows "reads k read_uint (write_uint v) v"
proof -
  have v: "sint v \<ge> 0" using assms by (simp add: sint_nonneg)
  show ?thesis
    unfolding read_uint_def by (rule reads_bind_last [OF reads_int_nonneg [OF v]]) (simp add: v)
qed

section \<open>Skipping values\<close>

text \<open>
  A MessagePack value as the writer can produce one, its encoding, the number of containers it
  nests, and the limits of the format: text is UTF-8, and lengths and counts fit in 32 bits.
\<close>

datatype mp_value =
    VNil | VBool bool | VInt i64 | VStr bytes | VBin bytes
  | VArray "mp_value list" | VMap "(mp_value \<times> mp_value) list"

fun mp_write :: "mp_value \<Rightarrow> bytes" where
  "mp_write VNil = write_nil"
| "mp_write (VBool b) = write_bool b"
| "mp_write (VInt v) = write_int v"
| "mp_write (VStr s) = write_str s"
| "mp_write (VBin s) = write_bin s"
| "mp_write (VArray vs) = write_array (word_of_nat (length vs)) @ concat (map mp_write vs)"
| "mp_write (VMap kvs) =
     write_map (word_of_nat (length kvs)) @ concat (map (\<lambda>(k, v). mp_write k @ mp_write v) kvs)"

fun mp_depth :: "mp_value \<Rightarrow> nat" where
  "mp_depth (VArray vs) = Suc (fold max (map mp_depth vs) 0)"
| "mp_depth (VMap kvs) = Suc (fold max (map (\<lambda>(k, v). max (mp_depth k) (mp_depth v)) kvs) 0)"
| "mp_depth _ = 0"

fun mp_wf :: "mp_value \<Rightarrow> bool" where
  "mp_wf (VStr s) \<longleftrightarrow> valid_utf8 s \<and> length s < 2 ^ 32"
| "mp_wf (VBin s) \<longleftrightarrow> length s < 2 ^ 32"
| "mp_wf (VArray vs) \<longleftrightarrow> length vs < 2 ^ 32 \<and> list_all mp_wf vs"
| "mp_wf (VMap kvs) \<longleftrightarrow> length kvs < 2 ^ 32 \<and> list_all (\<lambda>(k, v). mp_wf k \<and> mp_wf v) kvs"
| "mp_wf _ \<longleftrightarrow> True"

text \<open>The operation stops with the error \<open>e\<close> wherever the bytes stand.\<close>

definition stops :: "nat \<Rightarrow> (reader \<Rightarrow> 'e + ('a \<times> reader)) \<Rightarrow> bytes \<Rightarrow> 'e \<Rightarrow> bool" where
  "stops k f w e \<longleftrightarrow>
     (\<forall>pre post. k \<le> length post \<longrightarrow> f \<lparr>rd_buf = pre @ w @ post, rd_pos = length pre, rd_depth = 0\<rparr> = Inl e)"

lemma not_reads_fail [simp]: "\<not> reads k (r_fail e) w v"
  by (auto simp: reads_def r_fail_def intro!: exI [of _ "replicate k 0"])

lemma stops_fail [simp]: "stops k (r_fail e) w e"
  by (simp add: stops_def r_fail_def)

lemma stops_first: "stops k f w1 e \<Longrightarrow> k \<le> length w2 + m \<Longrightarrow> stops m (r_bind f g) (w1 @ w2) e"
  unfolding stops_def r_bind_def
proof (intro allI impI)
  fix pre post :: bytes
  assume s: "\<forall>pre post. k \<le> length post \<longrightarrow> f \<lparr>rd_buf = pre @ w1 @ post, rd_pos = length pre, rd_depth = 0\<rparr> = Inl e"
    and "k \<le> length w2 + m" "m \<le> length post"
  then have "f \<lparr>rd_buf = pre @ w1 @ (w2 @ post), rd_pos = length pre, rd_depth = 0\<rparr> = Inl e" by simp
  then show "and_then (f \<lparr>rd_buf = pre @ (w1 @ w2) @ post, rd_pos = length pre, rd_depth = 0\<rparr>) (\<lambda>(x, r'). g x r') = Inl e"
    by simp
qed

lemma stops_second:
  assumes f: "reads k f w1 x" and g: "stops m (g x) w2 e" and k: "k \<le> length w2 + m"
  shows "stops m (r_bind f g) (w1 @ w2) e"
  unfolding stops_def
proof (intro allI impI)
  fix pre post :: bytes
  assume m: "m \<le> length post"
  have "f \<lparr>rd_buf = pre @ (w1 @ w2) @ post, rd_pos = length pre, rd_depth = 0\<rparr> =
      Inr (x, \<lparr>rd_buf = pre @ (w1 @ w2) @ post, rd_pos = length pre + length w1, rd_depth = 0\<rparr>)"
    by (rule readsD [OF f, where pre = pre and post = "w2 @ post"]) (use k m in simp_all)
  moreover have "g x \<lparr>rd_buf = (pre @ w1) @ w2 @ post, rd_pos = length (pre @ w1), rd_depth = 0\<rparr> = Inl e"
    using g m unfolding stops_def by blast
  ultimately show "r_bind f g \<lparr>rd_buf = pre @ (w1 @ w2) @ post, rd_pos = length pre, rd_depth = 0\<rparr> = Inl e"
    by (simp add: r_bind_def)
qed

lemma try_times_reads:
  assumes "\<And>v. v \<in> set vs \<Longrightarrow> reads 0 f (w v) ()"
  shows "reads 0 (try_times (length vs) f) (concat (map w vs)) ()"
  using assms
proof (induction vs)
  case Nil
  then show ?case by simp
next
  case (Cons v vs)
  have "reads 0 (r_bind f (\<lambda>_. try_times (length vs) f)) (w v @ concat (map w vs)) ()"
    by (rule reads_bind [where x = "()"]) (use Cons in auto)
  then show ?case by simp
qed

lemma try_times_stops:
  assumes "\<And>v. v \<in> set vs \<Longrightarrow> reads 0 f (w v) () \<or> stops 0 f (w v) e"
    and "\<exists>v \<in> set vs. \<not> reads 0 f (w v) ()"
  shows "stops 0 (try_times (length vs) f) (concat (map w vs)) e"
  using assms
proof (induction vs)
  case Nil
  then show ?case by simp
next
  case (Cons v vs)
  have "stops 0 (r_bind f (\<lambda>_. try_times (length vs) f)) (w v @ concat (map w vs)) e"
  proof (cases "reads 0 f (w v) ()")
    case True
    have "stops 0 (try_times (length vs) f) (concat (map w vs)) e"
      by (rule Cons.IH) (use Cons.prems True in auto)
    then show ?thesis by (intro stops_second [OF True]) simp_all
  next
    case False
    then show ?thesis using Cons.prems(1) [of v] by (intro stops_first [where k = 0]) simp_all
  qed
  then show ?case by simp
qed

text \<open>The first byte selects the branch.\<close>

lemma reads_skip_as: "reads k (skip_as nested b) (b # w) () \<Longrightarrow> reads k (skip_value nested) (b # w) ()"
  unfolding reads_def by (simp add: skip_value_def get_at_append)

lemma stops_skip_as: "stops k (skip_as nested b) (b # w) e \<Longrightarrow> stops k (skip_value nested) (b # w) e"
  unfolding stops_def by (simp add: skip_value_def get_at_append)

lemma byte_cases:
  fixes b :: u8
  shows "(b \<le> n) = (unat b \<le> unat n)" "(n \<le> b) = (unat n \<le> unat b)" "(b = n) = (unat b = unat n)"
  by (simp_all add: word_le_nat_alt word_unat_eq_iff)

lemma skip_as_nat:
  "skip_as nested b =
     (let n = unat b in
      if n \<le> 127 \<or> 224 \<le> n \<or> n = 192 \<or> n = 194 \<or> n = 195 then r_bind r_byte (\<lambda>_. r_return ())
      else if 202 \<le> n \<and> n \<le> 216 then r_bind r_byte (\<lambda>b. r_bind (r_take (skip_width b)) (\<lambda>_. r_return ()))
      else if 199 \<le> n \<and> n \<le> 201 then
        r_bind r_byte (\<lambda>b. r_bind (be_len (if b = 0xc7 then 1 else if b = 0xc8 then 2 else 4)) (\<lambda>n.
        r_bind r_byte (\<lambda>_. r_bind (r_take n) (\<lambda>_. r_return ()))))
      else if (160 \<le> n \<and> n \<le> 191) \<or> (217 \<le> n \<and> n \<le> 219) then r_bind read_str (\<lambda>_. r_return ())
      else if 196 \<le> n \<and> n \<le> 198 then r_bind read_bin (\<lambda>_. r_return ())
      else if (144 \<le> n \<and> n \<le> 159) \<or> n = 220 \<or> n = 221 then r_bind read_array nested
      else if (128 \<le> n \<and> n \<le> 143) \<or> n = 222 \<or> n = 223 then r_bind read_map (\<lambda>n. nested (2 * n))
      else r_fail MpUnsupported)"
  unfolding skip_as_def Let_def byte_cases [where b = b] by simp

lemma str_range:
  assumes "reads k (str_len b) hw n"
  shows "skip_as nested b = r_bind read_str (\<lambda>_. r_return ())"
proof -
  have "(160 \<le> unat b \<and> unat b \<le> 191) \<or> (217 \<le> unat b \<and> unat b \<le> 219)"
    using assms unfolding str_len_def byte_cases [where b = b] by (simp split: if_splits)
  then show ?thesis unfolding skip_as_nat Let_def by (elim disjE) simp_all
qed

lemma bin_range:
  assumes "reads k (bin_len b) hw n"
  shows "skip_as nested b = r_bind read_bin (\<lambda>_. r_return ())"
proof -
  have "196 \<le> unat b \<and> unat b \<le> 198"
    using assms unfolding bin_len_def byte_cases [where b = b] by (simp split: if_splits)
  then show ?thesis unfolding skip_as_nat Let_def by simp
qed

lemma array_range:
  assumes "reads k (array_len b) hw n"
  shows "skip_as nested b = r_bind read_array nested"
proof -
  have "(144 \<le> unat b \<and> unat b \<le> 159) \<or> unat b = 220 \<or> unat b = 221"
    using assms unfolding array_len_def byte_cases [where b = b] by (simp split: if_splits)
  then show ?thesis unfolding skip_as_nat Let_def by (elim disjE) simp_all
qed

lemma map_range:
  assumes "reads k (map_len b) hw n"
  shows "skip_as nested b = r_bind read_map (\<lambda>n. nested (2 * n))"
proof -
  have "(128 \<le> unat b \<and> unat b \<le> 143) \<or> unat b = 222 \<or> unat b = 223"
    using assms unfolding map_len_def byte_cases [where b = b] by (simp split: if_splits)
  then show ?thesis unfolding skip_as_nat Let_def by (elim disjE) simp_all
qed
lemma skip_fix:
  assumes "unat b \<le> 127 \<or> 224 \<le> unat b \<or> unat b = 192 \<or> unat b = 194 \<or> unat b = 195"
  shows "reads k (skip_value nested) [b] ()"
proof (rule reads_skip_as)
  have "skip_as nested b = r_bind r_byte (\<lambda>_. r_return ())" using assms by (simp add: skip_as_nat)
  then show "reads k (skip_as nested b) [b] ()" by (simp add: reads_bind_last [OF reads_byte])
qed

lemma skip_sized:
  assumes "202 \<le> unat b" "unat b \<le> 216" "length w = skip_width b"
  shows "reads k (skip_value nested) (b # w) ()"
proof (rule reads_skip_as)
  have s: "skip_as nested b = r_bind r_byte (\<lambda>b. r_bind (r_take (skip_width b)) (\<lambda>_. r_return ()))"
    unfolding skip_as_nat Let_def using assms(1,2) by simp
  show "reads k (skip_as nested b) (b # w) ()"
    unfolding s using assms(3)
    by (intro reads_bind_Cons [OF reads_byte] reads_bind_last [where x = w] reads_take) simp_all
qed

lemma skip_uint: "reads k (skip_value nested) (write_uint v) ()"
proof (cases "v < 0x80")
  case True
  then have "unat v < 128" by (simp add: word_less_nat_alt)
  then have "unat (ucast v :: u8) = unat v" by (simp add: unsigned_ucast_eq take_bit_nat_eq_self)
  then show ?thesis using True \<open>unat v < 128\<close> by (simp add: write_uint_def skip_fix)
next
  case False
  then show ?thesis by (auto simp: write_uint_def skip_width_def intro!: skip_sized)
qed

lemma skip_int: "reads k (skip_value nested) (write_int v) ()"
proof -
  consider "sint v \<ge> 0" | "-32 \<le> sint v" "sint v < 0" | "sint v < -32" by linarith
  then show ?thesis
  proof cases
    case 1
    then show ?thesis by (simp add: write_int_def skip_uint)
  next
    case 2
    have "sint (ucast v :: u8) = sint v" by (rule sint_ucast_narrow) (use 2 in simp_all)
    then have "(0xe0 :: u8) \<le> ucast v" using negative_byte [of "ucast v"] 2 by simp
    then have "224 \<le> unat (ucast v :: u8)" by (simp add: word_le_nat_alt)
    then show ?thesis using 2 by (simp add: write_int_def skip_fix)
  next
    case 3
    then show ?thesis by (auto simp: write_int_def skip_width_def intro!: skip_sized)
  qed
qed

lemma skip_str:
  assumes "valid_utf8 s" "length s < 2 ^ 32"
  shows "reads k (skip_value nested) (write_str s) ()"
proof -
  obtain b hw where w: "write_str s = b # hw @ s" and r: "reads 0 (str_len b) hw (length s)"
    using str_header [OF assms(2)] .
  have "reads k (skip_as nested b) (write_str s) ()"
    unfolding str_range [OF r] by (rule reads_bind_last [OF reads_str [OF assms]]) simp
  then show ?thesis unfolding w by (rule reads_skip_as)
qed

lemma skip_bin:
  assumes "length s < 2 ^ 32"
  shows "reads k (skip_value nested) (write_bin s) ()"
proof -
  obtain b hw where w: "write_bin s = b # hw @ s" and r: "reads 0 (bin_len b) hw (length s)"
    using bin_header [OF assms] .
  have "reads k (skip_as nested b) (write_bin s) ()"
    unfolding bin_range [OF r] by (rule reads_bind_last [OF reads_bin [OF assms]]) simp
  then show ?thesis unfolding w by (rule reads_skip_as)
qed

text \<open>
  \<open>skips left v\<close>: with \<open>left\<close> containers still allowed, \<open>skip\<close> passes over exactly the encoding of a
  value that nests no deeper, and reports the depth otherwise.
\<close>

definition skips :: "nat \<Rightarrow> mp_value \<Rightarrow> bool" where
  "skips left v \<longleftrightarrow>
     (if mp_depth v \<le> left then reads 0 (skip_value (skip_nested left)) (mp_write v) ()
      else stops 0 (skip_value (skip_nested left)) (mp_write v) MpDepth)"

lemma mp_write_nonempty: "mp_write v \<noteq> []"
  by (cases v) (auto simp: write_nil_def write_bool_def write_int_def write_uint_def write_str_def
    write_bin_def write_array_def write_map_def Let_def)

lemma length_written: "length vs \<le> length (concat (map mp_write vs))"
proof (induction vs)
  case (Cons v vs)
  then show ?case using mp_write_nonempty [of v] by (cases "mp_write v") auto
qed simp

lemma not_reads_stops: "stops k f w e \<Longrightarrow> \<not> reads k f w v"
  unfolding stops_def reads_def by (metis Inl_Inr_False length_replicate order_refl)

lemma skip_items:
  assumes "\<And>u l. u \<in> set us \<Longrightarrow> skips l u"
  shows "if left > 0 \<and> (\<forall>u \<in> set us. mp_depth u < left)
    then reads 0 (skip_nested left (length us)) (concat (map mp_write us)) ()
    else stops 0 (skip_nested left (length us)) (concat (map mp_write us)) MpDepth"
proof (cases left)
  case 0
  then show ?thesis by simp
next
  case (Suc l)
  have one: "reads 0 (skip_value (skip_nested l)) (mp_write u) () \<or> stops 0 (skip_value (skip_nested l)) (mp_write u) MpDepth"
    if "u \<in> set us" for u using assms [OF that, of l] by (auto simp: skips_def split: if_splits)
  have deep: "reads 0 (skip_value (skip_nested l)) (mp_write u) () \<longleftrightarrow> mp_depth u \<le> l" if "u \<in> set us" for u
    using assms [OF that, of l] by (auto simp: skips_def dest: not_reads_stops [where v = "()"] split: if_splits)
  show ?thesis
  proof (cases "\<forall>u \<in> set us. mp_depth u \<le> l")
    case True
    then show ?thesis using deep by (simp add: Suc less_Suc_eq_le try_times_reads)
  next
    case False
    then show ?thesis using deep one try_times_stops [of us "skip_value (skip_nested l)" mp_write MpDepth]
      by (auto simp: Suc less_Suc_eq_le)
  qed
qed

lemma fold_max_le: "fold max xs a \<le> (n :: nat) \<longleftrightarrow> a \<le> n \<and> (\<forall>x \<in> set xs. x \<le> n)"
  by (induction xs arbitrary: a) auto

lemma reads_or_stops:
  assumes f: "reads k f w1 x" and k: "k \<le> length w2 + 0"
    and g: "if P then reads 0 (g x) w2 y else stops 0 (g x) w2 e"
  shows "if P then reads 0 (r_bind f g) (w1 @ w2) y else stops 0 (r_bind f g) (w1 @ w2) e"
proof (cases P)
  case True
  then show ?thesis using reads_bind [where g = g, OF f _ k] g by simp
next
  case False
  then show ?thesis using stops_second [where g = g, OF f _ k] g by simp
qed

lemma skips_array:
  assumes n: "length vs < 2 ^ 32" and vs: "\<And>u l. u \<in> set vs \<Longrightarrow> skips l u"
  shows "skips left (VArray vs)"
proof -
  let ?c = "word_of_nat (length vs) :: u32" and ?n = "skip_nested left"
  have c: "unat ?c = length vs" using n by (simp add: unat_of_nat_small)
  obtain b hw where w: "write_array ?c = b # hw" and r: "reads 0 (array_len b) hw (unat ?c)"
    using array_header .
  have h: "reads (length vs) read_array (write_array ?c) (length vs)"
    using reads_array [of ?c] by (simp only: c)
  have k: "length vs \<le> length (concat (map mp_write vs)) + 0" using length_written by simp
  note sk = array_range [OF r, where nested = ?n]
  have "if left > 0 \<and> (\<forall>u \<in> set vs. mp_depth u < left)
    then reads 0 (skip_as ?n b) (write_array ?c @ concat (map mp_write vs)) ()
    else stops 0 (skip_as ?n b) (write_array ?c @ concat (map mp_write vs)) MpDepth"
    unfolding sk by (rule reads_or_stops [where g = ?n, OF h k]) (rule skip_items [OF vs])
  moreover have "left > 0 \<and> (\<forall>u \<in> set vs. mp_depth u < left) \<longleftrightarrow> mp_depth (VArray vs) \<le> left"
    by (cases left) (auto simp: fold_max_le less_Suc_eq_le)
  ultimately show ?thesis
    unfolding skips_def mp_write.simps w
    by (auto split: if_splits intro: reads_skip_as stops_skip_as simp del: mp_depth.simps)
qed

lemma skips_map:
  assumes n: "length kvs < 2 ^ 32" and kvs: "\<And>k v l. (k, v) \<in> set kvs \<Longrightarrow> skips l k \<and> skips l v"
  shows "skips left (VMap kvs)"
proof -
  let ?c = "word_of_nat (length kvs) :: u32" and ?n = "skip_nested left"
    and ?us = "concat (map (\<lambda>(k, v). [k, v]) kvs)"
  have c: "unat ?c = length kvs" using n by (simp add: unat_of_nat_small)
  obtain b hw where w: "write_map ?c = b # hw" and r: "reads 0 (map_len b) hw (unat ?c)"
    using map_header .
  have h: "reads (2 * length kvs) read_map (write_map ?c) (length kvs)"
    using reads_map [of ?c] by (simp only: c)
  have us: "length ?us = 2 * length kvs"
    "concat (map mp_write ?us) = concat (map (\<lambda>(k, v). mp_write k @ mp_write v) kvs)"
    by (induction kvs) auto
  have k: "2 * length kvs \<le> length (concat (map mp_write ?us)) + 0"
    using length_written [of ?us] by (simp add: us(1))
  note sk = map_range [OF r, where nested = ?n]
  have all: "skips l u" if "u \<in> set ?us" for u l using that kvs by auto
  have items: "if left > 0 \<and> (\<forall>u \<in> set ?us. mp_depth u < left)
    then reads 0 (?n (2 * length kvs)) (concat (map mp_write ?us)) ()
    else stops 0 (?n (2 * length kvs)) (concat (map mp_write ?us)) MpDepth"
    unfolding us(1) [symmetric] by (rule skip_items) (rule all)
  have "if left > 0 \<and> (\<forall>u \<in> set ?us. mp_depth u < left)
    then reads 0 (skip_as ?n b) (write_map ?c @ concat (map mp_write ?us)) ()
    else stops 0 (skip_as ?n b) (write_map ?c @ concat (map mp_write ?us)) MpDepth"
    unfolding sk by (rule reads_or_stops [where g = "\<lambda>n. ?n (2 * n)", OF h k items])
  moreover have "left > 0 \<and> (\<forall>u \<in> set ?us. mp_depth u < left) \<longleftrightarrow> mp_depth (VMap kvs) \<le> left"
    by (cases left) (auto simp: fold_max_le less_Suc_eq_le)
  ultimately show ?thesis
    unfolding skips_def mp_write.simps w us(2)
    by (auto split: if_splits intro: reads_skip_as stops_skip_as simp del: mp_depth.simps)
qed

lemma skips_written: "mp_wf v \<Longrightarrow> skips left v"
proof (induction v arbitrary: left)
  case VNil
  then show ?case by (simp add: skips_def write_nil_def skip_fix)
next
  case (VBool b)
  then show ?case by (simp add: skips_def write_bool_def skip_fix)
next
  case (VInt v)
  then show ?case by (simp add: skips_def skip_int)
next
  case (VStr s)
  then show ?case by (simp add: skips_def skip_str)
next
  case (VBin s)
  then show ?case by (simp add: skips_def skip_bin)
next
  case (VArray vs)
  then show ?case by (intro skips_array) (auto simp: list_all_iff)
next
  case (VMap kvs)
  have "skips l k \<and> skips l v" if "(k, v) \<in> set kvs" for k v l
    using VMap.IH [OF that, of k l] VMap.IH [OF that, of v l] VMap.prems that by (auto simp: list_all_iff)
  then show ?case using VMap.prems by (intro skips_map) auto
qed

lemma reads_skip:
  assumes "mp_wf v" "mp_depth v \<le> MAX_DEPTH"
  shows "reads 0 skip (mp_write v) ()"
  using skips_written [OF assms(1), of MAX_DEPTH] assms(2)
  unfolding skips_def reads_def by (simp add: skip_def)

lemma stops_skip:
  assumes "mp_wf v" "mp_depth v > MAX_DEPTH"
  shows "stops 0 skip (mp_write v) MpDepth"
  using skips_written [OF assms(1), of MAX_DEPTH] assms(2)
  unfolding skips_def stops_def by (simp add: skip_def)

end
