(* ===== verification/Native_Wire.thy ===== *)
theory Native_Wire
  imports Msgpack Cache Std_Io
begin

text \<open>
  The native wire of \<open>resolvd-core/src/lib.rs\<close>: the requests and replies of
  \<open>/run/resolvd/resolv.sock\<close>, their MessagePack encodings, the field walk that rejects duplicate
  keys, and the length-prefixed frames. The closures that \<open>for_each_field\<close> calls assign to captured
  variables; here the variables are a record that the walk passes along.
\<close>

section \<open>Data\<close>

definition RESOLVER_QUERY :: u32 where "RESOLVER_QUERY = 0x00000001"
definition RESOLVER_CONTROL :: u32 where "RESOLVER_CONTROL = 0x00000002"
definition RESOLVER_ALL_ACCESS :: u32 where
  "RESOLVER_ALL_ACCESS = RESOLVER_QUERY OR RESOLVER_CONTROL OR 0x000F0000"

definition MAX_MESSAGE_BYTES :: nat where
  "MAX_MESSAGE_BYTES = 65536"

datatype wire_family = WAny | WV4 | WV6

fun family_as_str :: "wire_family \<Rightarrow> bytes" where
  "family_as_str WAny = byte_str ''any''"
| "family_as_str WV4 = byte_str ''inet''"
| "family_as_str WV6 = byte_str ''inet6''"

definition family_parse :: "bytes \<Rightarrow> wire_family option" where
  "family_parse s =
     (if s = byte_str ''any'' then Some WAny
      else if s = byte_str ''inet'' then Some WV4
      else if s = byte_str ''inet6'' then Some WV6
      else None)"

datatype request =
    RqResolve bytes u16 bool
  | RqLookup bytes wire_family
  | RqReverse ip_addr
  | RqStatus
  | RqFlush

fun outcome_as_str :: "outcome \<Rightarrow> bytes" where
  "outcome_as_str Found = byte_str ''found''"
| "outcome_as_str NotFound = byte_str ''notfound''"
| "outcome_as_str Unavailable = byte_str ''unavailable''"

definition outcome_parse :: "bytes \<Rightarrow> outcome option" where
  "outcome_parse s =
     (if s = byte_str ''found'' then Some Found
      else if s = byte_str ''notfound'' then Some NotFound
      else if s = byte_str ''unavailable'' then Some Unavailable
      else None)"

datatype validation = Unvalidated | Secure | Insecure | Bogus

fun validation_as_str :: "validation \<Rightarrow> bytes" where
  "validation_as_str Unvalidated = byte_str ''unvalidated''"
| "validation_as_str Secure = byte_str ''secure''"
| "validation_as_str Insecure = byte_str ''insecure''"
| "validation_as_str Bogus = byte_str ''bogus''"

definition validation_parse :: "bytes \<Rightarrow> validation option" where
  "validation_parse s =
     (if s = byte_str ''unvalidated'' then Some Unvalidated
      else if s = byte_str ''secure'' then Some Secure
      else if s = byte_str ''insecure'' then Some Insecure
      else if s = byte_str ''bogus'' then Some Bogus
      else None)"

record record_out =
  ro_name :: bytes
  ro_rtype :: u16
  ro_ttl :: u32
  ro_data :: bytes
  ro_text :: bytes

record wire_answer =
  wa_outcome :: outcome
  wa_records :: "record_out list"
  wa_source :: bytes
  wa_server :: "bytes option"
  wa_interface :: "bytes option"
  wa_validation :: validation
  wa_rcode :: u16

record address_out =
  ao_address :: ip_addr
  ao_ttl :: u32

record wire_addresses =
  wd_outcome :: outcome
  wd_canonical :: bytes
  wd_addresses :: "address_out list"
  wd_source :: bytes
  wd_validation :: validation

record scope_status =
  ss_interface :: bytes
  ss_servers :: "bytes list"
  ss_domains :: "bytes list"
  ss_default_route :: bool
  ss_exclusive :: bool
  ss_metric :: u32
  ss_subnets :: "bytes list"
  ss_demoted :: "bytes list"

record wire_counters =
  wc_queries :: u64
  wc_synthetic :: u64
  wc_cache_hits :: u64
  wc_upstream_sent :: u64
  wc_upstream_answered :: u64
  wc_upstream_failed :: u64
  wc_refused :: u64

record status_report =
  sr_hostname :: bytes
  sr_netd :: bool
  sr_scopes :: "scope_status list"
  sr_fallback_servers :: "bytes list"
  sr_cache_entries :: u64
  sr_counters :: wire_counters

datatype reply =
    RpOk
  | RpError bytes
  | RpAnswer wire_answer
  | RpAddresses wire_addresses
  | RpStatus status_report

datatype wire_error =
    WEncoding mp_error
  | WMissing bytes
  | WDuplicate bytes
  | WUnknownQuery bytes
  | WTooLarge nat
  | WIo io_error

section \<open>Encoding\<close>

abbreviation key_str :: "string \<Rightarrow> bytes" where
  "key_str s \<equiv> write_str (byte_str s)"

fun request_encode :: "request \<Rightarrow> bytes" where
  "request_encode (RqResolve name rtype no_cache) =
     write_map 4
     @ key_str ''query'' @ key_str ''resolve''
     @ key_str ''name'' @ write_str name
     @ key_str ''type'' @ write_uint (ucast rtype)
     @ key_str ''no_cache'' @ write_bool no_cache"
| "request_encode (RqLookup name family) =
     write_map 3
     @ key_str ''query'' @ key_str ''lookup''
     @ key_str ''name'' @ write_str name
     @ key_str ''family'' @ write_str (family_as_str family)"
| "request_encode (RqReverse address) =
     write_map 2
     @ key_str ''query'' @ key_str ''reverse''
     @ key_str ''address'' @ write_str (ip_display address)"
| "request_encode RqStatus = write_map 1 @ key_str ''query'' @ key_str ''status''"
| "request_encode RqFlush = write_map 1 @ key_str ''query'' @ key_str ''flush''"

definition required_right :: "request \<Rightarrow> u32" where
  "required_right rq = (case rq of RqFlush \<Rightarrow> RESOLVER_CONTROL | _ \<Rightarrow> RESOLVER_QUERY)"

definition write_str_list :: "string \<Rightarrow> bytes list \<Rightarrow> bytes" where
  "write_str_list key items =
     key_str key @ write_array (word_of_nat (length items)) @ concat (map write_str items)"

definition write_opt_str :: "string \<Rightarrow> bytes option \<Rightarrow> bytes" where
  "write_opt_str key v = key_str key @ (case v of Some s \<Rightarrow> write_str s | None \<Rightarrow> write_nil)"

definition write_record :: "record_out \<Rightarrow> bytes" where
  "write_record r =
     write_map 5
     @ key_str ''name'' @ write_str (ro_name r)
     @ key_str ''type'' @ write_uint (ucast (ro_rtype r))
     @ key_str ''ttl'' @ write_uint (ucast (ro_ttl r))
     @ key_str ''data'' @ write_bin (ro_data r)
     @ key_str ''text'' @ write_str (ro_text r)"

definition write_address :: "address_out \<Rightarrow> bytes" where
  "write_address x =
     write_map 2
     @ key_str ''address'' @ write_str (ip_display (ao_address x))
     @ key_str ''ttl'' @ write_uint (ucast (ao_ttl x))"

definition write_scope :: "scope_status \<Rightarrow> bytes" where
  "write_scope sc =
     write_map 8
     @ key_str ''interface'' @ write_str (ss_interface sc)
     @ write_str_list ''servers'' (ss_servers sc)
     @ write_str_list ''domains'' (ss_domains sc)
     @ key_str ''default_route'' @ write_bool (ss_default_route sc)
     @ key_str ''exclusive'' @ write_bool (ss_exclusive sc)
     @ key_str ''metric'' @ write_uint (ucast (ss_metric sc))
     @ write_str_list ''subnets'' (ss_subnets sc)
     @ write_str_list ''demoted'' (ss_demoted sc)"

definition write_counters :: "wire_counters \<Rightarrow> bytes" where
  "write_counters c =
     write_map 7
     @ key_str ''queries'' @ write_uint (wc_queries c)
     @ key_str ''synthetic'' @ write_uint (wc_synthetic c)
     @ key_str ''cache_hits'' @ write_uint (wc_cache_hits c)
     @ key_str ''upstream_sent'' @ write_uint (wc_upstream_sent c)
     @ key_str ''upstream_answered'' @ write_uint (wc_upstream_answered c)
     @ key_str ''upstream_failed'' @ write_uint (wc_upstream_failed c)
     @ key_str ''refused'' @ write_uint (wc_refused c)"

fun reply_encode :: "reply \<Rightarrow> bytes" where
  "reply_encode RpOk = write_map 1 @ key_str ''ok'' @ write_bool True"
| "reply_encode (RpError message) =
     write_map 2 @ key_str ''ok'' @ write_bool False @ key_str ''error'' @ write_str message"
| "reply_encode (RpAnswer a) =
     write_map 9 @ key_str ''ok'' @ write_bool True
     @ key_str ''kind'' @ key_str ''answer''
     @ key_str ''outcome'' @ write_str (outcome_as_str (wa_outcome a))
     @ key_str ''records'' @ write_array (word_of_nat (length (wa_records a)))
     @ concat (map write_record (wa_records a))
     @ key_str ''source'' @ write_str (wa_source a)
     @ write_opt_str ''server'' (wa_server a)
     @ write_opt_str ''interface'' (wa_interface a)
     @ key_str ''validation'' @ write_str (validation_as_str (wa_validation a))
     @ key_str ''rcode'' @ write_uint (ucast (wa_rcode a))"
| "reply_encode (RpAddresses a) =
     write_map 7 @ key_str ''ok'' @ write_bool True
     @ key_str ''kind'' @ key_str ''addresses''
     @ key_str ''outcome'' @ write_str (outcome_as_str (wd_outcome a))
     @ key_str ''canonical'' @ write_str (wd_canonical a)
     @ key_str ''addresses'' @ write_array (word_of_nat (length (wd_addresses a)))
     @ concat (map write_address (wd_addresses a))
     @ key_str ''source'' @ write_str (wd_source a)
     @ key_str ''validation'' @ write_str (validation_as_str (wd_validation a))"
| "reply_encode (RpStatus s) =
     write_map 8 @ key_str ''ok'' @ write_bool True
     @ key_str ''kind'' @ key_str ''status''
     @ key_str ''hostname'' @ write_str (sr_hostname s)
     @ key_str ''netd'' @ write_bool (sr_netd s)
     @ key_str ''scopes'' @ write_array (word_of_nat (length (sr_scopes s)))
     @ concat (map write_scope (sr_scopes s))
     @ write_str_list ''fallback_servers'' (sr_fallback_servers s)
     @ key_str ''cache_entries'' @ write_uint (sr_cache_entries s)
     @ key_str ''counters'' @ write_counters (sr_counters s)"

section \<open>Decoding\<close>

text \<open>An operation of the MessagePack reader in a function that returns a \<open>WireError\<close>.\<close>

definition wire :: "(reader \<Rightarrow> mp_error + ('a \<times> reader)) \<Rightarrow> reader \<Rightarrow> wire_error + ('a \<times> reader)" where
  "wire f r = (case f r of Inl e \<Rightarrow> Inl (WEncoding e) | Inr x \<Rightarrow> Inr x)"

definition read_into :: "(reader \<Rightarrow> mp_error + ('a \<times> reader)) \<Rightarrow> ('a \<Rightarrow> 's) \<Rightarrow> reader \<Rightarrow> wire_error + ('s \<times> reader)" where
  "read_into f g = r_bind (wire f) (\<lambda>v. r_return (g v))"

text \<open>\<open>for _ in 0..n\<close> around a fallible body that updates the state.\<close>

fun repeat_read :: "nat \<Rightarrow> ('s \<Rightarrow> reader \<Rightarrow> 'e + ('s \<times> reader)) \<Rightarrow> 's \<Rightarrow> reader \<Rightarrow> 'e + ('s \<times> reader)" where
  "repeat_read 0 f s = r_return s"
| "repeat_read (Suc n) f s = r_bind (f s) (repeat_read n f)"

definition field_step ::
  "(bytes \<Rightarrow> 's \<Rightarrow> reader \<Rightarrow> wire_error + ('s \<times> reader)) \<Rightarrow> bytes list \<times> 's \<Rightarrow> reader \<Rightarrow> wire_error + ((bytes list \<times> 's) \<times> reader)" where
  "field_step f = (\<lambda>(seen, s).
     r_bind (wire read_str) (\<lambda>key.
       if key \<in> set seen then r_fail (WDuplicate key)
       else r_bind (f key s) (\<lambda>s'. r_return (seen @ [key], s'))))"

definition for_each_field ::
  "(bytes \<Rightarrow> 's \<Rightarrow> reader \<Rightarrow> wire_error + ('s \<times> reader)) \<Rightarrow> 's \<Rightarrow> reader \<Rightarrow> wire_error + ('s \<times> reader)" where
  "for_each_field f s =
     r_bind (wire read_map) (\<lambda>n. r_bind (repeat_read n (field_step f) ([], s)) (\<lambda>(seen, s'). r_return s'))"

definition read_str_list :: "reader \<Rightarrow> wire_error + (bytes list \<times> reader)" where
  "read_str_list =
     r_bind (wire read_array) (\<lambda>n. repeat_read n (\<lambda>out. read_into read_str (\<lambda>s. out @ [s])) [])"

definition read_opt_str :: "reader \<Rightarrow> wire_error + (bytes option \<times> reader)" where
  "read_opt_str r =
     (if peek r = Some TNil then read_into read_nil (\<lambda>_. None) r
      else read_into read_str Some r)"

record request_fields =
  rf_query :: "bytes option"
  rf_name :: "bytes option"
  rf_rtype :: "u16 option"
  rf_no_cache :: bool
  rf_family :: "wire_family option"
  rf_address :: "bytes option"

definition request_field :: "bytes \<Rightarrow> request_fields \<Rightarrow> reader \<Rightarrow> wire_error + (request_fields \<times> reader)" where
  "request_field key s =
     (if key = byte_str ''query'' then read_into read_str (\<lambda>v. s\<lparr>rf_query := Some v\<rparr>)
      else if key = byte_str ''name'' then read_into read_str (\<lambda>v. s\<lparr>rf_name := Some v\<rparr>)
      else if key = byte_str ''type'' then
        r_bind (wire read_uint) (\<lambda>v.
          if v \<le> 0xffff then r_return (s\<lparr>rf_rtype := Some (ucast v)\<rparr>) else r_fail (WMissing (byte_str ''type'')))
      else if key = byte_str ''no_cache'' then read_into read_bool (\<lambda>v. s\<lparr>rf_no_cache := v\<rparr>)
      else if key = byte_str ''family'' then read_into read_str (\<lambda>v. s\<lparr>rf_family := family_parse v\<rparr>)
      else if key = byte_str ''address'' then read_into read_str (\<lambda>v. s\<lparr>rf_address := Some v\<rparr>)
      else read_into skip (\<lambda>_. s))"

definition no_request_fields :: request_fields where
  "no_request_fields =
     \<lparr>rf_query = None, rf_name = None, rf_rtype = None, rf_no_cache = False, rf_family = None, rf_address = None\<rparr>"

definition request_of :: "request_fields \<Rightarrow> wire_error + request" where
  "request_of s =
     (case rf_query s of
        None \<Rightarrow> Inl (WMissing (byte_str ''query''))
      | Some q \<Rightarrow>
          if q = byte_str ''resolve'' then
            and_then (ok_or (WMissing (byte_str ''name'')) (rf_name s)) (\<lambda>name.
            and_then (ok_or (WMissing (byte_str ''type'')) (rf_rtype s)) (\<lambda>rtype.
            Inr (RqResolve name rtype (rf_no_cache s))))
          else if q = byte_str ''lookup'' then
            and_then (ok_or (WMissing (byte_str ''name'')) (rf_name s)) (\<lambda>name.
            Inr (RqLookup name (case rf_family s of Some f \<Rightarrow> f | None \<Rightarrow> WAny)))
          else if q = byte_str ''reverse'' then
            and_then (ok_or (WMissing (byte_str ''address'')) (rf_address s)) (\<lambda>a.
            and_then (ok_or (WMissing (byte_str ''address'')) (parse_ip a)) (\<lambda>address.
            Inr (RqReverse address)))
          else if q = byte_str ''status'' then Inr RqStatus
          else if q = byte_str ''flush'' then Inr RqFlush
          else Inl (WUnknownQuery q))"

definition request_decode :: "bytes \<Rightarrow> wire_error + request" where
  "request_decode b =
     and_then (for_each_field request_field no_request_fields (reader_new b)) (\<lambda>(s, r). request_of s)"

text \<open>Replies: the defaults of the reply types, and the closures of \<open>Reply::decode\<close>.\<close>

definition default_record :: record_out where
  "default_record = \<lparr>ro_name = [], ro_rtype = 0, ro_ttl = 0, ro_data = [], ro_text = []\<rparr>"

definition wire_answer_default :: wire_answer where
  "wire_answer_default =
     \<lparr>wa_outcome = Unavailable, wa_records = [], wa_source = [], wa_server = None, wa_interface = None,
      wa_validation = Unvalidated, wa_rcode = 0\<rparr>"

definition wire_addresses_default :: wire_addresses where
  "wire_addresses_default =
     \<lparr>wd_outcome = Unavailable, wd_canonical = [], wd_addresses = [], wd_source = [], wd_validation = Unvalidated\<rparr>"

definition default_scope_status :: scope_status where
  "default_scope_status =
     \<lparr>ss_interface = [], ss_servers = [], ss_domains = [], ss_default_route = False, ss_exclusive = False,
      ss_metric = 0, ss_subnets = [], ss_demoted = []\<rparr>"

definition wire_counters_default :: wire_counters where
  "wire_counters_default =
     \<lparr>wc_queries = 0, wc_synthetic = 0, wc_cache_hits = 0, wc_upstream_sent = 0, wc_upstream_answered = 0,
      wc_upstream_failed = 0, wc_refused = 0\<rparr>"

definition default_status :: status_report where
  "default_status =
     \<lparr>sr_hostname = [], sr_netd = False, sr_scopes = [], sr_fallback_servers = [], sr_cache_entries = 0,
      sr_counters = wire_counters_default\<rparr>"

definition record_field :: "bytes \<Rightarrow> record_out \<Rightarrow> reader \<Rightarrow> wire_error + (record_out \<times> reader)" where
  "record_field key s =
     (if key = byte_str ''name'' then read_into read_str (\<lambda>v. s\<lparr>ro_name := v\<rparr>)
      else if key = byte_str ''type'' then read_into read_uint (\<lambda>v. s\<lparr>ro_rtype := ucast v\<rparr>)
      else if key = byte_str ''ttl'' then read_into read_uint (\<lambda>v. s\<lparr>ro_ttl := ucast v\<rparr>)
      else if key = byte_str ''data'' then read_into read_bin (\<lambda>v. s\<lparr>ro_data := v\<rparr>)
      else if key = byte_str ''text'' then read_into read_str (\<lambda>v. s\<lparr>ro_text := v\<rparr>)
      else read_into skip (\<lambda>_. s))"

definition address_field ::
  "bytes \<Rightarrow> ip_addr option \<times> u32 \<Rightarrow> reader \<Rightarrow> wire_error + ((ip_addr option \<times> u32) \<times> reader)" where
  "address_field key s =
     (if key = byte_str ''address'' then read_into read_str (\<lambda>v. (parse_ip v, snd s))
      else if key = byte_str ''ttl'' then read_into read_uint (\<lambda>v. (fst s, ucast v))
      else read_into skip (\<lambda>_. s))"

definition scope_field :: "bytes \<Rightarrow> scope_status \<Rightarrow> reader \<Rightarrow> wire_error + (scope_status \<times> reader)" where
  "scope_field key s =
     (if key = byte_str ''interface'' then read_into read_str (\<lambda>v. s\<lparr>ss_interface := v\<rparr>)
      else if key = byte_str ''servers'' then r_bind read_str_list (\<lambda>v. r_return (s\<lparr>ss_servers := v\<rparr>))
      else if key = byte_str ''domains'' then r_bind read_str_list (\<lambda>v. r_return (s\<lparr>ss_domains := v\<rparr>))
      else if key = byte_str ''default_route'' then read_into read_bool (\<lambda>v. s\<lparr>ss_default_route := v\<rparr>)
      else if key = byte_str ''exclusive'' then read_into read_bool (\<lambda>v. s\<lparr>ss_exclusive := v\<rparr>)
      else if key = byte_str ''metric'' then read_into read_uint (\<lambda>v. s\<lparr>ss_metric := ucast v\<rparr>)
      else if key = byte_str ''subnets'' then r_bind read_str_list (\<lambda>v. r_return (s\<lparr>ss_subnets := v\<rparr>))
      else if key = byte_str ''demoted'' then r_bind read_str_list (\<lambda>v. r_return (s\<lparr>ss_demoted := v\<rparr>))
      else read_into skip (\<lambda>_. s))"

definition counters_field :: "bytes \<Rightarrow> wire_counters \<Rightarrow> reader \<Rightarrow> wire_error + (wire_counters \<times> reader)" where
  "counters_field key s =
     (if key = byte_str ''queries'' then read_into read_uint (\<lambda>v. s\<lparr>wc_queries := v\<rparr>)
      else if key = byte_str ''synthetic'' then read_into read_uint (\<lambda>v. s\<lparr>wc_synthetic := v\<rparr>)
      else if key = byte_str ''cache_hits'' then read_into read_uint (\<lambda>v. s\<lparr>wc_cache_hits := v\<rparr>)
      else if key = byte_str ''upstream_sent'' then read_into read_uint (\<lambda>v. s\<lparr>wc_upstream_sent := v\<rparr>)
      else if key = byte_str ''upstream_answered'' then read_into read_uint (\<lambda>v. s\<lparr>wc_upstream_answered := v\<rparr>)
      else if key = byte_str ''upstream_failed'' then read_into read_uint (\<lambda>v. s\<lparr>wc_upstream_failed := v\<rparr>)
      else if key = byte_str ''refused'' then read_into read_uint (\<lambda>v. s\<lparr>wc_refused := v\<rparr>)
      else read_into skip (\<lambda>_. s))"

text \<open>The bodies of the loops over \<open>records\<close>, \<open>addresses\<close> and \<open>scopes\<close>.\<close>

definition read_record_out :: "record_out list \<Rightarrow> reader \<Rightarrow> wire_error + (record_out list \<times> reader)" where
  "read_record_out out = r_bind (for_each_field record_field default_record) (\<lambda>rec. r_return (out @ [rec]))"

definition read_address_out :: "address_out list \<Rightarrow> reader \<Rightarrow> wire_error + (address_out list \<times> reader)" where
  "read_address_out out =
     r_bind (for_each_field address_field (None, 0)) (\<lambda>(address, ttl).
       r_return (case address of
         Some a \<Rightarrow> out @ [\<lparr>ao_address = a, ao_ttl = ttl\<rparr>]
       | None \<Rightarrow> out))"

definition read_scope_status :: "scope_status list \<Rightarrow> reader \<Rightarrow> wire_error + (scope_status list \<times> reader)" where
  "read_scope_status out = r_bind (for_each_field scope_field default_scope_status) (\<lambda>sc. r_return (out @ [sc]))"

definition read_items :: "('a list \<Rightarrow> reader \<Rightarrow> wire_error + ('a list \<times> reader)) \<Rightarrow> 'a list \<Rightarrow> reader \<Rightarrow> wire_error + ('a list \<times> reader)" where
  "read_items f out = r_bind (wire read_array) (\<lambda>n. repeat_read n f out)"

record reply_fields =
  pf_ok :: "bool option"
  pf_error :: "bytes option"
  pf_kind :: "bytes option"
  pf_answer :: wire_answer
  pf_addresses :: wire_addresses
  pf_status :: status_report

definition no_reply_fields :: reply_fields where
  "no_reply_fields =
     \<lparr>pf_ok = None, pf_error = None, pf_kind = None, pf_answer = wire_answer_default,
      pf_addresses = wire_addresses_default, pf_status = default_status\<rparr>"

definition reply_field :: "bytes \<Rightarrow> reply_fields \<Rightarrow> reader \<Rightarrow> wire_error + (reply_fields \<times> reader)" where
  "reply_field key s =
     (let answer = pf_answer s; addresses = pf_addresses s; status = pf_status s in
      if key = byte_str ''ok'' then read_into read_bool (\<lambda>v. s\<lparr>pf_ok := Some v\<rparr>)
      else if key = byte_str ''error'' then read_into read_str (\<lambda>v. s\<lparr>pf_error := Some v\<rparr>)
      else if key = byte_str ''kind'' then read_into read_str (\<lambda>v. s\<lparr>pf_kind := Some v\<rparr>)
      else if key = byte_str ''outcome'' then read_into read_str (\<lambda>v.
        let o' = (case outcome_parse v of Some o' \<Rightarrow> o' | None \<Rightarrow> Unavailable)
        in s\<lparr>pf_answer := answer\<lparr>wa_outcome := o'\<rparr>, pf_addresses := addresses\<lparr>wd_outcome := o'\<rparr>\<rparr>)
      else if key = byte_str ''validation'' then read_into read_str (\<lambda>v.
        let v' = (case validation_parse v of Some v' \<Rightarrow> v' | None \<Rightarrow> Unvalidated)
        in s\<lparr>pf_answer := answer\<lparr>wa_validation := v'\<rparr>, pf_addresses := addresses\<lparr>wd_validation := v'\<rparr>\<rparr>)
      else if key = byte_str ''source'' then read_into read_str (\<lambda>v.
        s\<lparr>pf_answer := answer\<lparr>wa_source := v\<rparr>, pf_addresses := addresses\<lparr>wd_source := v\<rparr>\<rparr>)
      else if key = byte_str ''server'' then r_bind read_opt_str (\<lambda>v. r_return (s\<lparr>pf_answer := answer\<lparr>wa_server := v\<rparr>\<rparr>))
      else if key = byte_str ''interface'' then r_bind read_opt_str (\<lambda>v. r_return (s\<lparr>pf_answer := answer\<lparr>wa_interface := v\<rparr>\<rparr>))
      else if key = byte_str ''rcode'' then read_into read_uint (\<lambda>v. s\<lparr>pf_answer := answer\<lparr>wa_rcode := ucast v\<rparr>\<rparr>)
      else if key = byte_str ''records'' then
        r_bind (read_items read_record_out (wa_records answer)) (\<lambda>v. r_return (s\<lparr>pf_answer := answer\<lparr>wa_records := v\<rparr>\<rparr>))
      else if key = byte_str ''canonical'' then read_into read_str (\<lambda>v. s\<lparr>pf_addresses := addresses\<lparr>wd_canonical := v\<rparr>\<rparr>)
      else if key = byte_str ''addresses'' then
        r_bind (read_items read_address_out (wd_addresses addresses)) (\<lambda>v. r_return (s\<lparr>pf_addresses := addresses\<lparr>wd_addresses := v\<rparr>\<rparr>))
      else if key = byte_str ''hostname'' then read_into read_str (\<lambda>v. s\<lparr>pf_status := status\<lparr>sr_hostname := v\<rparr>\<rparr>)
      else if key = byte_str ''netd'' then read_into read_bool (\<lambda>v. s\<lparr>pf_status := status\<lparr>sr_netd := v\<rparr>\<rparr>)
      else if key = byte_str ''fallback_servers'' then
        r_bind read_str_list (\<lambda>v. r_return (s\<lparr>pf_status := status\<lparr>sr_fallback_servers := v\<rparr>\<rparr>))
      else if key = byte_str ''cache_entries'' then read_into read_uint (\<lambda>v. s\<lparr>pf_status := status\<lparr>sr_cache_entries := v\<rparr>\<rparr>)
      else if key = byte_str ''scopes'' then
        r_bind (read_items read_scope_status (sr_scopes status)) (\<lambda>v. r_return (s\<lparr>pf_status := status\<lparr>sr_scopes := v\<rparr>\<rparr>))
      else if key = byte_str ''counters'' then
        r_bind (for_each_field counters_field (sr_counters status)) (\<lambda>v. r_return (s\<lparr>pf_status := status\<lparr>sr_counters := v\<rparr>\<rparr>))
      else read_into skip (\<lambda>_. s))"

definition reply_of :: "reply_fields \<Rightarrow> wire_error + reply" where
  "reply_of s =
     (case pf_ok s of
        None \<Rightarrow> Inl (WMissing (byte_str ''ok''))
      | Some False \<Rightarrow>
          Inr (RpError (case pf_error s of Some e \<Rightarrow> e | None \<Rightarrow> byte_str ''unspecified error''))
      | Some True \<Rightarrow>
          if pf_kind s = Some (byte_str ''answer'') then Inr (RpAnswer (pf_answer s))
          else if pf_kind s = Some (byte_str ''addresses'') then Inr (RpAddresses (pf_addresses s))
          else if pf_kind s = Some (byte_str ''status'') then Inr (RpStatus (pf_status s))
          else Inr RpOk)"

definition reply_decode :: "bytes \<Rightarrow> wire_error + reply" where
  "reply_decode b =
     and_then (for_each_field reply_field no_reply_fields (reader_new b)) (\<lambda>(s, r). reply_of s)"

section \<open>Frames\<close>

definition le_bytes :: "nat \<Rightarrow> 'a::len word \<Rightarrow> bytes" where
  "le_bytes n w = rev (be_bytes n w)"

definition from_le :: "bytes \<Rightarrow> 'a::len word" where
  "from_le b = from_be (rev b)"

text \<open>
  \<open>send\<close> hands one frame to \<open>write_all\<close>; the result is that frame. \<open>recv\<close> reads from a stream that
  delivers the bytes \<open>s\<close> and then fails with \<open>e\<close>, which is \<open>UnexpectedEof\<close> when the peer has closed;
  it returns the payload and what is left of the stream.
\<close>

definition wire_send :: "bytes \<Rightarrow> wire_error + bytes" where
  "wire_send payload =
     (if length payload > MAX_MESSAGE_BYTES then Inl (WTooLarge (length payload))
      else Inr (le_bytes 4 (word_of_nat (length payload) :: u32) @ payload))"

definition read_exact :: "io_error \<Rightarrow> nat \<Rightarrow> bytes \<Rightarrow> wire_error + (bytes \<times> bytes)" where
  "read_exact e n s = (if n \<le> length s then Inr (take n s, drop n s) else Inl (WIo e))"

definition wire_recv :: "io_error \<Rightarrow> bytes \<Rightarrow> wire_error + (bytes \<times> bytes)" where
  "wire_recv e s =
     and_then (read_exact e 4 s) (\<lambda>(len, s).
       let n = unat (from_le len :: u32) in
       if n > MAX_MESSAGE_BYTES then Inl (WTooLarge n) else read_exact e n s)"

text \<open>\<open>call\<close> on a stream: what it sends, and the reply decoded from what the stream answers.\<close>

definition wire_call :: "io_error \<Rightarrow> bytes \<Rightarrow> request \<Rightarrow> bytes \<times> (wire_error + reply)" where
  "wire_call e answer rq =
     (case wire_send (request_encode rq) of
        Inl err \<Rightarrow> ([], Inl err)
      | Inr frame \<Rightarrow> (frame, and_then (wire_recv e answer) (\<lambda>(b, rest). reply_decode b)))"

section \<open>Round trips\<close>

named_theorems wire_reads \<open>what the readers return on what the writers wrote\<close>

lemma reads_wire: "reads k f w v \<Longrightarrow> reads k (wire f) w v"
  by (simp add: reads_def wire_def)

lemma reads_into: "reads 0 f w v \<Longrightarrow> g v = s \<Longrightarrow> reads 0 (read_into f g) w s"
  unfolding read_into_def by (rule reads_bind_last [OF reads_wire]) auto

lemma reads_then_return: "reads 0 f w v \<Longrightarrow> g v = s \<Longrightarrow> reads 0 (r_bind f (\<lambda>v. r_return (g v))) w s"
  by (rule reads_bind_last) auto

text \<open>A string as the wire can carry it: Rust keeps the first condition for every \<open>String\<close>.\<close>

definition text_ok :: "bytes \<Rightarrow> bool" where
  "text_ok s \<longleftrightarrow> valid_utf8 s \<and> length s < 2 ^ 32"

lemma reads_text: "text_ok s \<Longrightarrow> reads k read_str (write_str s) s"
  by (simp add: text_ok_def reads_str)

lemma of_char_byte: "of_nat (of_char c) = (of_nat (of_char d) :: u8) \<longleftrightarrow> c = d"
proof
  assume "of_nat (of_char c) = (of_nat (of_char d) :: u8)"
  then have "unat (of_nat (of_char c) :: u8) = unat (of_nat (of_char d) :: u8)" by simp
  then have "(of_char c :: nat) = of_char d"
    using nat_of_char_less_256 [of c] nat_of_char_less_256 [of d] by (simp add: unat_of_nat_small)
  then show "c = d" by simp
qed simp

lemma byte_str_eq [simp]: "byte_str s = byte_str t \<longleftrightarrow> s = t"
  unfolding byte_str_def by (simp add: inj_map_eq_map inj_def of_char_byte)

lemma length_byte_str [simp]: "length (byte_str s) = length s"
  by (simp add: byte_str_def)

text \<open>A key is a short ASCII literal of the source.\<close>

definition key_ok :: "string \<Rightarrow> bool" where
  "key_ok s \<longleftrightarrow> list_all (\<lambda>c. (of_char c :: nat) < 128) s \<and> length s < 32"

lemma ascii_byte_str: "list_all (\<lambda>c. (of_char c :: nat) < 128) s \<Longrightarrow> ascii (byte_str s)"
  by (induction s) (auto simp: byte_str_def word_less_nat_alt unat_of_nat_small)

lemma key_ok_text: "key_ok s \<Longrightarrow> text_ok (byte_str s)"
  by (simp add: key_ok_def text_ok_def valid_utf8_ascii ascii_byte_str)

lemma written_nonempty [simp]:
  "write_str s \<noteq> []" "write_bool b \<noteq> []" "write_uint v \<noteq> []" "write_bin s \<noteq> []" "write_nil \<noteq> []"
  "write_array c \<noteq> []" "write_map c \<noteq> []"
  by (simp_all add: write_nil_def write_bool_def write_uint_def write_str_def
    write_bin_def write_array_def write_map_def Let_def)

text \<open>A walk over fields with any text as key.\<close>

fun walk_steps :: "(bytes \<Rightarrow> 's \<Rightarrow> reader \<Rightarrow> wire_error + ('s \<times> reader)) \<Rightarrow> 's \<Rightarrow> (bytes \<times> bytes) list \<Rightarrow> 's \<Rightarrow> bool" where
  "walk_steps f s [] u \<longleftrightarrow> u = s"
| "walk_steps f s ((k, w) # fs) u \<longleftrightarrow> text_ok k \<and> (\<exists>t. reads 0 (f k s) w t \<and> walk_steps f t fs u)"

lemma reads_walk:
  assumes "walk_steps f s fs u" "distinct (seen @ map fst fs)"
  shows "reads 0 (repeat_read (length fs) (field_step f) (seen, s)) (concat (map (\<lambda>(k, w). write_str k @ w) fs))
    (seen @ map fst fs, u)"
  using assms
proof (induction fs arbitrary: s seen)
  case (Cons kw fs)
  obtain k w where kw: "kw = (k, w)" by force
  obtain t where t: "text_ok k" "reads 0 (f k s) w t" "walk_steps f t fs u" using Cons.prems(1) kw by auto
  have "reads 0 (r_bind (f k s) (\<lambda>s'. r_return (seen @ [k], s'))) w (seen @ [k], t)"
    using t(2) by (intro reads_then_return [where g = "\<lambda>s'. (seen @ [k], s')"]) auto
  then have "reads 0 (field_step f (seen, s)) (write_str k @ w) (seen @ [k], t)"
    unfolding field_step_def prod.case using Cons.prems(2) kw
    by (intro reads_bind [where x = k and k = 0] reads_wire reads_text t(1)) auto
  from reads_bind [where g = "repeat_read (length fs) (field_step f)", OF this Cons.IH [OF t(3), of "seen @ [k]"]]
  show ?case using Cons.prems kw by simp
qed simp

text \<open>
  A run of the field walk over written fields: each field is a key and the bytes of its value, and
  the closure takes the state through them.
\<close>

fun field_run :: "(bytes \<Rightarrow> 's \<Rightarrow> reader \<Rightarrow> wire_error + ('s \<times> reader)) \<Rightarrow> 's \<Rightarrow> (string \<times> bytes \<times> 's) list \<Rightarrow> 's" where
  "field_run f s [] = s"
| "field_run f s ((k, w, t) # fs) = field_run f t fs"

fun field_steps :: "(bytes \<Rightarrow> 's \<Rightarrow> reader \<Rightarrow> wire_error + ('s \<times> reader)) \<Rightarrow> 's \<Rightarrow> (string \<times> bytes \<times> 's) list \<Rightarrow> bool" where
  "field_steps f s [] \<longleftrightarrow> True"
| "field_steps f s ((k, w, t) # fs) \<longleftrightarrow> w \<noteq> [] \<and> key_ok k \<and> reads 0 (f (byte_str k) s) w t \<and> field_steps f t fs"

definition fields_bytes :: "(string \<times> bytes \<times> 's) list \<Rightarrow> bytes" where
  "fields_bytes fs = concat (map (\<lambda>(k, w, t). key_str k @ w) fs)"

lemma fields_bytes_simps [simp]:
  "fields_bytes [] = []" "fields_bytes ((k, w, t) # fs) = key_str k @ w @ fields_bytes fs"
  by (simp_all add: fields_bytes_def)

lemma field_steps_walk:
  "field_steps f s fs \<Longrightarrow> walk_steps f s (map (\<lambda>(k, w, t). (byte_str k, w)) fs) (field_run f s fs)"
  by (induction f s fs rule: field_steps.induct) (auto intro: key_ok_text)

lemma reads_fields:
  assumes "field_steps f s fs" "distinct (seen @ map (byte_str \<circ> fst) fs)"
  shows "reads 0 (repeat_read (length fs) (field_step f) (seen, s)) (fields_bytes fs)
    (seen @ map (byte_str \<circ> fst) fs, field_run f s fs)"
proof -
  let ?fs = "map (\<lambda>(k, w, t). (byte_str k, w)) fs"
  have fs: "map fst ?fs = map (byte_str \<circ> fst) fs" "length ?fs = length fs"
    "concat (map (\<lambda>(k, w). write_str k @ w) ?fs) = fields_bytes fs"
    by (induction fs) auto
  show ?thesis using reads_walk [OF field_steps_walk [OF assms(1)], of seen] assms(2) by (simp only: fs)
qed

lemma length_fields: "field_steps f s fs \<Longrightarrow> 2 * length fs \<le> length (fields_bytes fs)"
proof (induction f s fs rule: field_steps.induct)
  case (2 f s k w t fs)
  have "length (key_str k) \<noteq> 0" "length w \<noteq> 0" using 2 by simp_all
  then have "1 \<le> length (key_str k)" "1 \<le> length w" by linarith+
  then show ?case using 2 by simp
qed simp

lemma reads_for_each:
  assumes fs: "field_steps f s fs" and d: "distinct (map fst fs)" and n: "length fs < 2 ^ 32"
  shows "reads 0 (for_each_field f s) (write_map (word_of_nat (length fs)) @ fields_bytes fs) (field_run f s fs)"
proof -
  have d': "distinct ([] @ map (byte_str \<circ> fst) fs)"
    using d unfolding map_map [symmetric] by (simp add: distinct_map inj_on_def)
  have c: "unat (word_of_nat (length fs) :: u32) = length fs" using n by (simp add: unat_of_nat_small)
  have "reads (2 * length fs) (wire read_map) (write_map (word_of_nat (length fs))) (length fs)"
    using reads_map [of "word_of_nat (length fs)"] by (intro reads_wire) (simp only: c)
  moreover have "reads 0 (r_bind (repeat_read (length fs) (field_step f) ([], s)) (\<lambda>(seen, s'). r_return s'))
      (fields_bytes fs) (field_run f s fs)"
    by (rule reads_bind_last [OF reads_fields [OF fs d']]) simp
  ultimately show ?thesis
    unfolding for_each_field_def
    by (rule reads_bind [where g = "\<lambda>n. r_bind (repeat_read n (field_step f) ([], s)) (\<lambda>(seen, s'). r_return s')"])
       (use length_fields [OF fs] in simp)
qed

lemma reads_repeat:
  assumes "\<And>x s. x \<in> set xs \<Longrightarrow> reads 0 (f s) (w x) (g s x)"
  shows "reads 0 (repeat_read (length xs) f s) (concat (map w xs)) (foldl g s xs)"
  using assms
proof (induction xs arbitrary: s)
  case Nil
  then show ?case by simp
next
  case (Cons x xs)
  have "reads 0 (r_bind (f s) (repeat_read (length xs) f)) (w x @ concat (map w xs)) (foldl g (g s x) xs)"
    by (rule reads_bind [where k = 0]) (use Cons in auto)
  then show ?case by simp
qed

lemma reads_items:
  assumes x: "\<And>x s. x \<in> set xs \<Longrightarrow> reads 0 (f s) (w x) (s @ [x])" and n: "length xs < 2 ^ 32"
    and w: "\<And>x. w x \<noteq> []"
  shows "reads 0 (r_bind (wire read_array) (\<lambda>n. repeat_read n f s))
    (write_array (word_of_nat (length xs)) @ concat (map w xs)) (s @ xs)"
proof -
  have c: "unat (word_of_nat (length xs) :: u32) = length xs" using n by (simp add: unat_of_nat_small)
  have "reads (length xs) (wire read_array) (write_array (word_of_nat (length xs))) (length xs)"
    using reads_array [of "word_of_nat (length xs)"] by (intro reads_wire) (simp only: c)
  moreover have "foldl (\<lambda>s x. s @ [x]) s xs = s @ xs" by (induction xs arbitrary: s) auto
  with reads_repeat [of xs f w "\<lambda>s x. s @ [x]" s] x
  have "reads 0 (repeat_read (length xs) f s) (concat (map w xs)) (s @ xs)" by simp
  moreover have "length xs \<le> length (concat (map w xs))"
  proof (induction xs)
    case (Cons x xs)
    then show ?case using w [of x] by (cases "w x") auto
  qed simp
  ultimately show ?thesis
    by (intro reads_bind [where g = "\<lambda>n. repeat_read n f s"]) auto
qed

lemma reads_into_str [wire_reads]: "text_ok v \<Longrightarrow> g v = t \<Longrightarrow> reads 0 (read_into read_str g) (write_str v) t"
  by (rule reads_into [OF reads_text])

lemma reads_into_bool [wire_reads]: "g b = t \<Longrightarrow> reads 0 (read_into read_bool g) (write_bool b) t"
  by (rule reads_into [OF reads_bool])

lemma reads_into_uint [wire_reads]:
  "u < 2 ^ 63 \<Longrightarrow> g u = t \<Longrightarrow> reads 0 (read_into read_uint g) (write_uint u) t"
  by (rule reads_into [OF reads_uint])

lemma reads_into_bin [wire_reads]:
  "length v < 2 ^ 32 \<Longrightarrow> g v = t \<Longrightarrow> reads 0 (read_into read_bin g) (write_bin v) t"
  by (rule reads_into [OF reads_bin])

lemma ucast_u16_less [wire_reads]: "(ucast (w :: u16) :: u64) < 2 ^ 63"
proof -
  have "unat w < 2 ^ LENGTH(16)" by (rule unsigned_less)
  then show ?thesis by (simp add: word_less_nat_alt unat_ucast_wider)
qed

lemma ucast_u32_less [wire_reads]: "(ucast (w :: u32) :: u64) < 2 ^ 63"
proof -
  have "unat w < 2 ^ LENGTH(32)" by (rule unsigned_less)
  then show ?thesis by (simp add: word_less_nat_alt unat_ucast_wider)
qed

lemmas ucast_less [wire_reads] = ucast_u16_less [simplified] ucast_u32_less [simplified]

lemma u16_bound: "(ucast (w :: u16) :: u64) \<le> 0xffff"
proof -
  have "unat w < 2 ^ LENGTH(16)" by (rule unsigned_less)
  then show ?thesis by (simp add: word_le_nat_alt unat_ucast_wider)
qed

lemma ucast_narrow [wire_reads]:
  "LENGTH('a) \<le> LENGTH('b) \<Longrightarrow> ucast (ucast (w :: 'a::len word) :: 'b::len word) = w"
  by (rule bit_word_eqI) (auto simp: bit_simps)

lemma colon_sep_length: "length (colon_sep ws) \<le> 5 * length ws"
proof -
  have h: "length (hex_u16 w) \<le> 4" for w
    using length_dropWhile_le [of "\<lambda>d. d = 0" "map (\<lambda>i. ucast (drop_bit (4 * i) w AND 15) :: u8) (rev [0..<4])"]
    by (simp add: hex_u16_def Let_def)
  have "length (concat (map (\<lambda>w. 58 # hex_u16 w) ws)) \<le> 5 * length ws" for ws
    by (induction ws) (use h in \<open>auto intro: order_trans add_mono\<close>)
  note c = this
  show ?thesis
  proof (cases ws)
    case (Cons w ws')
    then show ?thesis using h [of w] c [of ws'] by simp
  qed simp
qed

lemma ip_display_length: "length (ip_display a) < 256"
proof -
  have v4: "length (v4_display b) \<le> 15" for b
    using dec_u8_length(2) [of "ucast (drop_bit 24 b)"] dec_u8_length(2) [of "ucast (drop_bit 16 b)"]
      dec_u8_length(2) [of "ucast (drop_bit 8 b)"] dec_u8_length(2) [of "ucast b"]
    by (simp add: v4_display_def be_bytes_def upt_rec)
  have "length (v6_display b) < 256" for b
  proof -
    let ?ws = "segments b"
    have c: "length (colon_sep (take i ?ws)) \<le> 40" "length (colon_sep (drop i ?ws)) \<le> 40" "length (colon_sep ?ws) \<le> 40" for i
      using colon_sep_length [of "take i ?ws"] colon_sep_length [of "drop i ?ws"] colon_sep_length [of ?ws]
      by (auto simp: length_segments)
    show ?thesis
      using v4 [of "ucast b"] c by (auto simp: v6_display_def Let_def less_Suc_eq_le split: prod.splits intro!: le_less_trans [OF add_mono [OF c(1) c(2)]] )
  qed
  moreover have "length (v4_display b) < 256" for b using v4 [of b] by linarith
  ultimately show ?thesis by (cases a) simp_all
qed

lemma text_ok_ip [wire_reads]: "text_ok (ip_display a)"
  using ip_display_length [of a] by (simp add: text_ok_def valid_utf8_ascii ascii_ip_display)

text \<open>What can be sent: the strings fit the format.\<close>

fun request_ok :: "request \<Rightarrow> bool" where
  "request_ok (RqResolve name rtype no_cache) \<longleftrightarrow> text_ok name"
| "request_ok (RqLookup name family) \<longleftrightarrow> text_ok name"
| "request_ok _ \<longleftrightarrow> True"

lemma key_ok_texts [wire_reads]: "key_ok s \<Longrightarrow> text_ok (byte_str s)"
  by (rule key_ok_text)

lemma family_round_trip: "text_ok (family_as_str f)" "family_parse (family_as_str f) = Some f"
  by (cases f; simp add: family_parse_def wire_reads key_ok_def)+

lemma outcome_round_trip: "text_ok (outcome_as_str o')" "outcome_parse (outcome_as_str o') = Some o'"
  by (cases o'; simp add: outcome_parse_def wire_reads key_ok_def)+

lemma validation_round_trip: "text_ok (validation_as_str v)" "validation_parse (validation_as_str v) = Some v"
  by (cases v; simp add: validation_parse_def wire_reads key_ok_def)+

lemma decode_fields:
  assumes "field_steps f s fs" "distinct (map fst fs)" "length fs < 2 ^ 32"
    "w = write_map (word_of_nat (length fs)) @ fields_bytes fs"
  shows "and_then (for_each_field f s (reader_new w)) (\<lambda>(s, r). g s) = g (field_run f s fs)"
  using reads_whole [OF reads_for_each [OF assms(1-3)]] by (simp add: assms(4))

lemma request_type_field:
  "reads 0 (request_field (byte_str ''type'') s) (write_uint (ucast t)) (s\<lparr>rf_rtype := Some t\<rparr>)"
proof -
  have "reads 0 (wire read_uint) (write_uint (ucast t)) (ucast t)"
    by (intro reads_wire reads_uint wire_reads)
  then have "reads 0 (r_bind (wire read_uint) (\<lambda>v. if v \<le> 0xffff then r_return (s\<lparr>rf_rtype := Some (ucast v)\<rparr>)
      else r_fail (WMissing (byte_str ''type'')))) (write_uint (ucast t)) (s\<lparr>rf_rtype := Some t\<rparr>)"
    by (rule reads_bind_last) (simp add: u16_bound wire_reads)
  then show ?thesis by (simp add: request_field_def)
qed

text \<open>The fields of a written request, with the state of the walk behind each.\<close>

fun request_run :: "request \<Rightarrow> (string \<times> bytes \<times> request_fields) list" where
  "request_run (RqResolve name rtype no_cache) =
     (let s1 = no_request_fields\<lparr>rf_query := Some (byte_str ''resolve'')\<rparr>;
          s2 = s1\<lparr>rf_name := Some name\<rparr>; s3 = s2\<lparr>rf_rtype := Some rtype\<rparr>; s4 = s3\<lparr>rf_no_cache := no_cache\<rparr>
      in [(''query'', key_str ''resolve'', s1), (''name'', write_str name, s2),
          (''type'', write_uint (ucast rtype), s3), (''no_cache'', write_bool no_cache, s4)])"
| "request_run (RqLookup name family) =
     (let s1 = no_request_fields\<lparr>rf_query := Some (byte_str ''lookup'')\<rparr>;
          s2 = s1\<lparr>rf_name := Some name\<rparr>; s3 = s2\<lparr>rf_family := Some family\<rparr>
      in [(''query'', key_str ''lookup'', s1), (''name'', write_str name, s2),
          (''family'', write_str (family_as_str family), s3)])"
| "request_run (RqReverse address) =
     (let s1 = no_request_fields\<lparr>rf_query := Some (byte_str ''reverse'')\<rparr>
      in [(''query'', key_str ''reverse'', s1),
          (''address'', write_str (ip_display address), s1\<lparr>rf_address := Some (ip_display address)\<rparr>)])"
| "request_run RqStatus =
     [(''query'', key_str ''status'', no_request_fields\<lparr>rf_query := Some (byte_str ''status'')\<rparr>)]"
| "request_run RqFlush =
     [(''query'', key_str ''flush'', no_request_fields\<lparr>rf_query := Some (byte_str ''flush'')\<rparr>)]"

lemma request_run_facts:
  assumes "request_ok rq"
  shows "field_steps request_field no_request_fields (request_run rq)"
    and "request_encode rq = write_map (word_of_nat (length (request_run rq))) @ fields_bytes (request_run rq)"
    and "request_of (field_run request_field no_request_fields (request_run rq)) = Inr rq"
    and "distinct (map fst (request_run rq))"
    and "set (map fst (request_run rq)) \<subseteq> {''query'', ''name'', ''type'', ''no_cache'', ''family'', ''address''}"
    and "length (request_run rq) \<le> 4"
proof -
  show "field_steps request_field no_request_fields (request_run rq)"
  proof (cases rq)
    case (RqResolve name rtype no_cache)
    then show ?thesis using assms
      by (simp add: Let_def key_ok_def request_type_field) (simp add: request_field_def wire_reads key_ok_def)
  qed (use assms in \<open>simp_all add: Let_def key_ok_def request_field_def wire_reads family_round_trip\<close>)
  show "request_of (field_run request_field no_request_fields (request_run rq)) = Inr rq"
    by (cases rq) (simp_all add: request_of_def no_request_fields_def parse_ip_display Let_def)
qed (cases rq; simp add: Let_def)+

lemma request_round_trip:
  assumes "request_ok rq"
  shows "request_decode (request_encode rq) = Inr rq"
proof -
  note f = request_run_facts [OF assms]
  have "length (request_run rq) < 2 ^ 32" by (rule le_less_trans [OF f(6)]) simp
  from decode_fields [OF f(1,4) this f(2), of request_of] f(3)
  show ?thesis by (simp add: request_decode_def)
qed

text \<open>Keys the decoder does not know are skipped with their values.\<close>

definition unknown_ok :: "(string \<times> mp_value) list \<Rightarrow> bool" where
  "unknown_ok ex \<longleftrightarrow>
     list_all (\<lambda>(k, v). key_ok k \<and> mp_wf v \<and> mp_depth v \<le> MAX_DEPTH
       \<and> k \<notin> set [''query'', ''name'', ''type'', ''no_cache'', ''family'', ''address'']) ex
     \<and> distinct (map fst ex) \<and> length ex < 2 ^ 31"

definition extra_bytes :: "(string \<times> mp_value) list \<Rightarrow> bytes" where
  "extra_bytes ex = concat (map (\<lambda>(k, v). key_str k @ mp_write v) ex)"

lemma field_steps_append:
  "field_steps f s (fs @ gs) \<longleftrightarrow> field_steps f s fs \<and> field_steps f (field_run f s fs) gs"
  by (induction f s fs rule: field_steps.induct) auto

lemma field_run_append: "field_run f s (fs @ gs) = field_run f (field_run f s fs) gs"
  by (induction f s fs rule: field_steps.induct) auto

lemma unknown_fields:
  assumes "list_all (\<lambda>(k, v). key_ok k \<and> mp_wf v \<and> mp_depth v \<le> MAX_DEPTH
       \<and> k \<notin> set [''query'', ''name'', ''type'', ''no_cache'', ''family'', ''address'']) ex"
  shows "field_steps request_field s (map (\<lambda>(k, v). (k, mp_write v, s)) ex)
    \<and> field_run request_field s (map (\<lambda>(k, v). (k, mp_write v, s)) ex) = s"
  using assms
proof (induction ex)
  case (Cons kv ex)
  obtain k v where kv: "kv = (k, v)" by force
  have "reads 0 (read_into skip (\<lambda>_. s)) (mp_write v) s"
    by (rule reads_into [OF reads_skip]) (use Cons.prems kv in auto)
  then have "reads 0 (request_field (byte_str k) s) (mp_write v) s"
    using Cons.prems kv by (simp add: request_field_def)
  then show ?case using Cons kv by (simp add: mp_write_nonempty)
qed simp

lemma request_ignores_unknown:
  assumes "request_ok rq" "unknown_ok ex"
  shows "request_decode (write_map (word_of_nat (length (request_run rq) + length ex))
    @ fields_bytes (request_run rq) @ extra_bytes ex) = Inr rq"
proof -
  note f = request_run_facts [OF assms(1)]
  let ?s = "field_run request_field no_request_fields (request_run rq)"
  let ?fs = "request_run rq @ map (\<lambda>(k, v). (k, mp_write v, ?s)) ex"
  have u: "field_steps request_field ?s (map (\<lambda>(k, v). (k, mp_write v, ?s)) ex)"
    "field_run request_field ?s (map (\<lambda>(k, v). (k, mp_write v, ?s)) ex) = ?s"
    using unknown_fields [of ex ?s] assms(2) by (auto simp: unknown_ok_def)
  have steps: "field_steps request_field no_request_fields ?fs" by (simp add: field_steps_append f(1) u(1))
  have keys: "map fst ?fs = map fst (request_run rq) @ map fst ex" by (induction ex) auto
  have "set (map fst (request_run rq)) \<inter> set (map fst ex) = {}"
    using f(5) assms(2) by (fastforce simp: unknown_ok_def list_all_iff)
  then have dist: "distinct (map fst ?fs)"
    unfolding keys using f(4) assms(2) by (simp add: unknown_ok_def)
  have len: "length ?fs < 2 ^ 32" using f(6) assms(2) by (simp add: unknown_ok_def)
  have "fields_bytes (map (\<lambda>(k, v). (k, mp_write v, ?s)) ex) = extra_bytes ex"
    by (induction ex) (auto simp: extra_bytes_def)
  then have bytes: "write_map (word_of_nat (length (request_run rq) + length ex)) @ fields_bytes (request_run rq) @ extra_bytes ex
      = write_map (word_of_nat (length ?fs)) @ fields_bytes ?fs"
    by (simp add: fields_bytes_def)
  from decode_fields [OF steps dist len bytes, of request_of] f(3) u(2)
  show ?thesis by (simp add: request_decode_def field_run_append)
qed

text \<open>A key that was seen before ends the walk, whatever follows it.\<close>

lemma r_bind_assoc: "r_bind (r_bind f g) h = r_bind f (\<lambda>x. r_bind (g x) h)"
proof
  fix r
  show "r_bind (r_bind f g) h r = r_bind f (\<lambda>x. r_bind (g x) h) r"
    by (cases "f r") (auto simp: r_bind_def)
qed

lemma r_bind_return: "r_bind (r_return x) g = g x"
  by (simp add: r_bind_def r_return_def fun_eq_iff)

lemma repeat_read_add: "repeat_read (n + m) f s = r_bind (repeat_read n f s) (repeat_read m f)"
  by (induction n arbitrary: s) (auto simp: r_bind_return r_bind_assoc intro!: arg_cong2 [where f = r_bind])

lemma stops_whole: "stops 0 f w e \<Longrightarrow> f (reader_new w) = Inl e"
  unfolding stops_def by (auto simp: reader_new_def dest!: spec [where x = "[]"])

lemma stops_wire: "stops k f w e \<Longrightarrow> stops k (wire f) w (WEncoding e)"
  by (simp add: stops_def wire_def)

lemma stops_for_each:
  assumes w: "stops m (repeat_read c (field_step f) ([], s)) w e"
    and c: "c < 2 ^ 32" "2 * c \<le> length w + m"
  shows "stops m (for_each_field f s) (write_map (word_of_nat c) @ w) e"
proof -
  have u: "unat (word_of_nat c :: u32) = c" using c(1) by (simp add: unat_of_nat_small)
  have hd: "reads (2 * c) (wire read_map) (write_map (word_of_nat c)) c"
    using reads_map [of "word_of_nat c"] by (intro reads_wire) (simp only: u)
  have "stops m (r_bind (repeat_read c (field_step f) ([], s)) (\<lambda>(seen, s'). r_return s')) (w @ []) e"
    by (rule stops_first [OF w]) simp
  then show ?thesis
    unfolding for_each_field_def
    by (intro stops_second [where g = "\<lambda>n. r_bind (repeat_read n (field_step f) ([], s)) (\<lambda>(seen, s'). r_return s')", OF hd])
       (use c(2) in simp_all)
qed

lemma walk_keys: "walk_steps f s fs u \<Longrightarrow> k \<in> fst ` set fs \<Longrightarrow> text_ok k"
proof (induction fs arbitrary: s)
  case (Cons kw fs)
  then show ?case by (cases kw) (metis (no_types, lifting) fst_conv image_insert insert_iff list.simps(15) walk_steps.simps(2))
qed simp

lemma for_each_duplicate:
  assumes fs: "walk_steps f s fs u" and d: "distinct (map fst fs)" and k: "k \<in> set (map fst fs)"
    and c: "c < 2 ^ 32" "length fs < c" "2 * c \<le> length (concat (map (\<lambda>(k, w). write_str k @ w) fs) @ write_str k) + m"
  shows "stops m (for_each_field f s)
    (write_map (word_of_nat c) @ concat (map (\<lambda>(k, w). write_str k @ w) fs) @ write_str k) (WDuplicate k)"
proof -
  let ?seen = "[] @ map fst fs"
  have key: "text_ok k" using walk_keys [OF fs] k by simp
  obtain n where n: "c = length fs + Suc n" using c(2) by (auto dest: less_imp_Suc_add)
  have "stops m (field_step f (?seen, u)) (write_str k @ []) (WDuplicate k)"
    unfolding field_step_def prod.case
    by (rule stops_second [where k = 0, OF reads_wire [OF reads_text [OF key]]]) (use k in simp_all)
  then have "stops m (repeat_read (Suc n) (field_step f) (?seen, u)) (write_str k) (WDuplicate k)"
    using stops_first [of m "field_step f (?seen, u)" "write_str k" "WDuplicate k" "[]" m "repeat_read n (field_step f)"] by simp
  then have "stops m (repeat_read c (field_step f) ([], s)) (concat (map (\<lambda>(k, w). write_str k @ w) fs) @ write_str k) (WDuplicate k)"
    unfolding n repeat_read_add
    by (intro stops_second [OF reads_walk [OF fs]]) (use d in simp_all)
  from stops_for_each [OF this c(1,3)] show ?thesis .
qed

text \<open>The values the request decoder takes for a key: what the key names, or for any other key a
  value it can skip.\<close>

definition field_accepts :: "bytes \<Rightarrow> mp_value \<Rightarrow> bool" where
  "field_accepts k v \<longleftrightarrow>
     (if k \<in> set (map byte_str [''query'', ''name'', ''family'', ''address'']) then (case v of VStr s \<Rightarrow> True | _ \<Rightarrow> False)
      else if k = byte_str ''type'' then (case v of VInt i \<Rightarrow> 0 \<le> sint i \<and> sint i \<le> 0xffff | _ \<Rightarrow> False)
      else if k = byte_str ''no_cache'' then (case v of VBool b \<Rightarrow> True | _ \<Rightarrow> False)
      else mp_depth v \<le> MAX_DEPTH)"

lemma reads_type_value:
  assumes "0 \<le> sint i" "sint i \<le> 0xffff"
  shows "reads 0 (request_field (byte_str ''type'') s) (write_int i) (s\<lparr>rf_rtype := Some (ucast i)\<rparr>)"
proof -
  have "uint i = sint i" using assms(1) uint_bounded [of i] by (simp add: sint_value split: if_splits)
  then have i: "i \<le> 0xffff" using assms(2) by (simp add: word_le_def)
  have "reads 0 read_uint (write_int i) i"
    unfolding read_uint_def by (rule reads_bind_last [OF reads_int]) (use assms in simp)
  then have "reads 0 (r_bind (wire read_uint) (\<lambda>v. if v \<le> 0xffff then r_return (s\<lparr>rf_rtype := Some (ucast v)\<rparr>)
      else r_fail (WMissing (byte_str ''type'')))) (write_int i) (s\<lparr>rf_rtype := Some (ucast i)\<rparr>)"
    using i by (intro reads_bind_last [OF reads_wire]) auto
  then show ?thesis by (simp add: request_field_def)
qed

lemma reads_accepted:
  assumes "mp_wf v" "field_accepts k v"
  shows "\<exists>t. reads 0 (request_field k s) (mp_write v) t"
proof -
  have str: "\<exists>t. reads 0 (read_into read_str g) (mp_write v) t" if "case v of VStr s \<Rightarrow> True | _ \<Rightarrow> False" for g :: "bytes \<Rightarrow> request_fields"
    using that assms(1) by (cases v) (auto simp: text_ok_def intro!: exI reads_into_str)
  have bool: "\<exists>t. reads 0 (read_into read_bool g) (mp_write v) t" if "case v of VBool b \<Rightarrow> True | _ \<Rightarrow> False" for g :: "bool \<Rightarrow> request_fields"
    using that by (cases v) (auto intro!: exI reads_into_bool)
  have skipped: "\<exists>t. reads 0 (read_into skip g) (mp_write v) t" if "mp_depth v \<le> MAX_DEPTH" for g :: "unit \<Rightarrow> request_fields"
    using reads_into [OF reads_skip [OF assms(1) that], of g] by blast
  show ?thesis
  proof (cases "k = byte_str ''type''")
    case True
    then show ?thesis using assms(2) reads_type_value by (cases v) (auto simp: field_accepts_def)
  qed (use assms(2) str bool skipped in \<open>auto simp: field_accepts_def request_field_def split: if_splits\<close>)
qed

lemma accepted_walk:
  assumes "list_all (\<lambda>(k, v). text_ok k \<and> mp_wf v \<and> field_accepts k v) kvs"
  shows "\<exists>u. walk_steps request_field s (map (\<lambda>(k, v). (k, mp_write v)) kvs) u"
  using assms
proof (induction kvs arbitrary: s)
  case (Cons kv kvs)
  obtain k v where kv: "kv = (k, v)" by force
  obtain t where t: "reads 0 (request_field k s) (mp_write v) t"
    using reads_accepted [of v k s] Cons.prems kv by auto
  obtain u where "walk_steps request_field t (map (\<lambda>(k, v). (k, mp_write v)) kvs) u"
    using Cons.IH [of t] Cons.prems by auto
  then show ?case using t Cons.prems kv by auto
qed auto

lemma request_duplicate:
  assumes ok: "list_all (\<lambda>(k, v). text_ok k \<and> mp_wf v \<and> field_accepts k v) kvs"
    and d: "distinct (map fst kvs)" and k: "k \<in> set (map fst kvs)"
    and c: "length kvs < c" "c < 2 ^ 32"
      "2 * c \<le> length (concat (map (\<lambda>(k, v). write_str k @ mp_write v) kvs) @ write_str k @ rest)"
  shows "request_decode (write_map (word_of_nat c) @ concat (map (\<lambda>(k, v). write_str k @ mp_write v) kvs)
    @ write_str k @ rest) = Inl (WDuplicate k)"
proof -
  let ?fs = "map (\<lambda>(k, v). (k, mp_write v)) kvs"
  obtain u where u: "walk_steps request_field no_request_fields ?fs u" using accepted_walk [OF ok] by blast
  have fs: "map fst ?fs = map fst kvs" "length ?fs = length kvs"
    "concat (map (\<lambda>(k, w). write_str k @ w) ?fs) = concat (map (\<lambda>(k, v). write_str k @ mp_write v) kvs)"
    by (induction kvs) auto
  have "stops (length rest) (for_each_field request_field no_request_fields)
    (write_map (word_of_nat c) @ concat (map (\<lambda>(k, w). write_str k @ w) ?fs) @ write_str k) (WDuplicate k)"
    by (rule for_each_duplicate [OF u]) (simp_all only: fs d k c, use c(3) in simp)
  from this [unfolded stops_def fs, rule_format, of rest "[]"]
  have "for_each_field request_field no_request_fields (reader_new
      (write_map (word_of_nat c) @ concat (map (\<lambda>(k, v). write_str k @ mp_write v) kvs) @ write_str k @ rest)) = Inl (WDuplicate k)"
    by (simp add: reader_new_def)
  then show ?thesis by (simp add: request_decode_def)
qed

section \<open>Frames and their payloads\<close>

lemma from_le_le_bytes: "LENGTH('a) \<le> 8 * n \<Longrightarrow> from_le (le_bytes n (w :: 'a::len word)) = w"
  by (simp add: from_le_def le_bytes_def from_be_be_bytes)

lemma length_le_bytes [simp]: "length (le_bytes n w) = n"
  by (simp add: le_bytes_def)

lemma frame_round_trip:
  assumes "wire_send payload = Inr frame"
  shows "wire_recv e (frame @ rest) = Inr (payload, rest)"
proof -
  have n: "length payload \<le> MAX_MESSAGE_BYTES" and f: "frame = le_bytes 4 (word_of_nat (length payload) :: u32) @ payload"
    using assms by (auto simp: wire_send_def split: if_splits)
  have "unat (word_of_nat (length payload) :: u32) = length payload"
    using n by (simp add: MAX_MESSAGE_BYTES_def unat_of_nat_small)
  with n show ?thesis by (simp add: wire_recv_def read_exact_def f from_le_le_bytes)
qed

lemma recv_bounded:
  assumes "wire_recv e s = Inr (payload, rest)"
  shows "length payload \<le> MAX_MESSAGE_BYTES \<and> (\<exists>h. length h = 4 \<and> s = h @ payload @ rest)"
proof -
  let ?n = "unat (from_le (take 4 s) :: u32)"
  from assms have "4 \<le> length s" "?n \<le> MAX_MESSAGE_BYTES" "?n \<le> length (drop 4 s)"
    "payload = take ?n (drop 4 s)" "rest = drop ?n (drop 4 s)"
    by (auto simp: wire_recv_def read_exact_def Let_def split: if_splits)
  moreover have "s = take 4 s @ take ?n (drop 4 s) @ drop ?n (drop 4 s)" by (simp only: append_take_drop_id)
  ultimately show ?thesis by (metis (no_types, lifting) length_take min.absorb2 order_trans length_take min_def)
qed

lemma recv_oversized:
  assumes "4 \<le> length s" "unat (from_le (take 4 s) :: u32) > MAX_MESSAGE_BYTES"
  shows "wire_recv e s = Inl (WTooLarge (unat (from_le (take 4 s) :: u32)))"
  using assms by (simp add: wire_recv_def read_exact_def)

definition texts_ok :: "bytes list \<Rightarrow> bool" where
  "texts_ok xs \<longleftrightarrow> list_all text_ok xs \<and> length xs < 2 ^ 32"

definition record_ok :: "record_out \<Rightarrow> bool" where
  "record_ok r \<longleftrightarrow> text_ok (ro_name r) \<and> length (ro_data r) < 2 ^ 32 \<and> text_ok (ro_text r)"

definition scope_ok :: "scope_status \<Rightarrow> bool" where
  "scope_ok sc \<longleftrightarrow> text_ok (ss_interface sc) \<and> texts_ok (ss_servers sc) \<and> texts_ok (ss_domains sc)
     \<and> texts_ok (ss_subnets sc) \<and> texts_ok (ss_demoted sc)"

definition counters_ok :: "wire_counters \<Rightarrow> bool" where
  "counters_ok c \<longleftrightarrow>
     list_all (\<lambda>v. v < 2 ^ 63) [wc_queries c, wc_synthetic c, wc_cache_hits c, wc_upstream_sent c,
       wc_upstream_answered c, wc_upstream_failed c, wc_refused c]"

definition opt_text_ok :: "bytes option \<Rightarrow> bool" where
  "opt_text_ok v \<longleftrightarrow> (case v of None \<Rightarrow> True | Some s \<Rightarrow> text_ok s)"

fun reply_ok :: "reply \<Rightarrow> bool" where
  "reply_ok RpOk \<longleftrightarrow> True"
| "reply_ok (RpError message) \<longleftrightarrow> text_ok message"
| "reply_ok (RpAnswer a) \<longleftrightarrow>
     list_all record_ok (wa_records a) \<and> length (wa_records a) < 2 ^ 32 \<and> text_ok (wa_source a)
     \<and> opt_text_ok (wa_server a) \<and> opt_text_ok (wa_interface a)"
| "reply_ok (RpAddresses a) \<longleftrightarrow>
     text_ok (wd_canonical a) \<and> length (wd_addresses a) < 2 ^ 32 \<and> text_ok (wd_source a)"
| "reply_ok (RpStatus s) \<longleftrightarrow>
     text_ok (sr_hostname s) \<and> list_all scope_ok (sr_scopes s) \<and> length (sr_scopes s) < 2 ^ 32
     \<and> texts_ok (sr_fallback_servers s)"

text \<open>The counts the client can read back: its reader takes them through \<open>i64\<close>.\<close>

fun counts_ok :: "reply \<Rightarrow> bool" where
  "counts_ok (RpStatus s) \<longleftrightarrow> sr_cache_entries s < 2 ^ 63 \<and> counters_ok (sr_counters s)"
| "counts_ok _ \<longleftrightarrow> True"

lemma reads_str_list:
  assumes "texts_ok xs"
  shows "reads 0 read_str_list (write_array (word_of_nat (length xs)) @ concat (map write_str xs)) xs"
proof -
  have "reads 0 (r_bind (wire read_array) (\<lambda>n. repeat_read n (\<lambda>out. read_into read_str (\<lambda>s. out @ [s])) []))
      (write_array (word_of_nat (length xs)) @ concat (map write_str xs)) ([] @ xs)"
    by (rule reads_items) (use assms in \<open>auto simp: texts_ok_def list_all_iff wire_reads\<close>)
  then show ?thesis by (simp add: read_str_list_def)
qed

lemma reads_str_list_into [wire_reads]:
  "texts_ok xs \<Longrightarrow> g xs = t \<Longrightarrow>
   reads 0 (r_bind read_str_list (\<lambda>v. r_return (g v))) (write_array (word_of_nat (length xs)) @ concat (map write_str xs)) t"
  by (rule reads_then_return [OF reads_str_list])

lemma peek_written:
  "peek \<lparr>rd_buf = pre @ write_nil @ post, rd_pos = length pre, rd_depth = 0\<rparr> = Some TNil"
  "length s < 2 ^ 32 \<Longrightarrow> peek \<lparr>rd_buf = pre @ write_str s @ post, rd_pos = length pre, rd_depth = 0\<rparr> \<noteq> Some TNil"
proof -
  show "peek \<lparr>rd_buf = pre @ write_nil @ post, rd_pos = length pre, rd_depth = 0\<rparr> = Some TNil"
    by (simp add: peek_def write_nil_def get_at_append)
  assume "length s < 2 ^ 32"
  then obtain b hw where w: "write_str s = b # hw @ s" and r: "reads 0 (str_len b) hw (length s)"
    by (rule str_header)
  have "b \<noteq> 0xc0" using r by (auto simp: str_len_def)
  then show "peek \<lparr>rd_buf = pre @ write_str s @ post, rd_pos = length pre, rd_depth = 0\<rparr> \<noteq> Some TNil"
    by (simp add: peek_def w get_at_append)
qed

lemma reads_opt_str:
  assumes "opt_text_ok v"
  shows "reads 0 read_opt_str (case v of Some s \<Rightarrow> write_str s | None \<Rightarrow> write_nil) v"
proof (cases v)
  case None
  have "reads 0 (read_into read_nil (\<lambda>_. None)) write_nil (None :: bytes option)"
    by (rule reads_into [OF reads_nil]) simp
  then show ?thesis
    unfolding None reads_def by (simp add: read_opt_str_def peek_written(1))
next
  case (Some s)
  then have s: "text_ok s" using assms by (simp add: opt_text_ok_def)
  then have "reads 0 (read_into read_str Some) (write_str s) (Some s)" by (simp add: wire_reads)
  moreover have "length s < 2 ^ 32" using s by (simp add: text_ok_def)
  ultimately show ?thesis
    unfolding Some reads_def by (simp add: read_opt_str_def peek_written(2))
qed

lemma reads_opt_str_into [wire_reads]:
  "opt_text_ok v \<Longrightarrow> g v = t \<Longrightarrow>
   reads 0 (r_bind read_opt_str (\<lambda>v. r_return (g v))) (case v of Some s \<Rightarrow> write_str s | None \<Rightarrow> write_nil) t"
  by (rule reads_then_return [OF reads_opt_str])

lemma reads_fields_of:
  assumes "field_steps f s fs" "distinct (map fst fs)" "length fs < 2 ^ 32"
    "w = write_map (word_of_nat (length fs)) @ fields_bytes fs" "field_run f s fs = t"
  shows "reads 0 (for_each_field f s) w t"
  using reads_for_each [OF assms(1-3)] by (simp add: assms(4,5))

text \<open>A walk in which each field either is read or stops with the same error.\<close>

fun field_tries ::
  "(bytes \<Rightarrow> 's \<Rightarrow> reader \<Rightarrow> wire_error + ('s \<times> reader)) \<Rightarrow> wire_error \<Rightarrow> 's \<Rightarrow> (bool \<times> string \<times> bytes \<times> 's) list \<Rightarrow> bool" where
  "field_tries f e s [] \<longleftrightarrow> True"
| "field_tries f e s ((fits, k, w, t) # fs) \<longleftrightarrow>
     w \<noteq> [] \<and> key_ok k \<and>
     (if fits then reads 0 (f (byte_str k) s) w t else stops 0 (f (byte_str k) s) w e) \<and> field_tries f e t fs"

lemma tries_stop:
  assumes "field_tries f e s fs" "distinct (seen @ map (byte_str \<circ> fst \<circ> snd) fs)" "\<not> list_all fst fs"
  shows "stops 0 (repeat_read (length fs) (field_step f) (seen, s)) (fields_bytes (map snd fs)) e"
  using assms
proof (induction f e s fs arbitrary: seen rule: field_tries.induct)
  case (2 f e s fits k w t fs)
  have key: "reads 0 (wire read_str) (key_str k) (byte_str k)" "byte_str k \<notin> set seen"
    using "2.prems" by (auto intro: reads_wire reads_text key_ok_text)
  show ?case
  proof (cases fits)
    case True
    have "reads 0 (r_bind (f (byte_str k) s) (\<lambda>s'. r_return (seen @ [byte_str k], s'))) w (seen @ [byte_str k], t)"
      using "2.prems"(1) True by (intro reads_then_return [where g = "\<lambda>s'. (seen @ [byte_str k], s')"]) auto
    then have "reads 0 (field_step f (seen, s)) (key_str k @ w) (seen @ [byte_str k], t)"
      unfolding field_step_def prod.case by (intro reads_bind [OF key(1)]) (use key(2) in auto)
    from stops_second [where g = "repeat_read (length fs) (field_step f)", OF this "2.IH" [of "seen @ [byte_str k]"]]
    show ?thesis using "2.prems" True by simp
  next
    case False
    have "stops 0 (r_bind (f (byte_str k) s) (\<lambda>s'. r_return (seen @ [byte_str k], s'))) (w @ []) e"
      using "2.prems"(1) False by (intro stops_first [where k = 0]) auto
    then have "stops 0 (field_step f (seen, s)) (key_str k @ w) e"
      unfolding field_step_def prod.case by (intro stops_second [OF key(1)]) (use key(2) in auto)
    from stops_first [where g = "repeat_read (length fs) (field_step f)", OF this, of "fields_bytes (map snd fs)"]
    show ?thesis by simp
  qed
qed simp

lemma tries_all: "field_tries f e s fs \<Longrightarrow> list_all fst fs \<Longrightarrow> field_steps f s (map snd fs)"
  by (induction f e s fs rule: field_tries.induct) auto

lemma length_tries: "field_tries f e s fs \<Longrightarrow> 2 * length fs \<le> length (fields_bytes (map snd fs))"
proof (induction f e s fs rule: field_tries.induct)
  case (2 f e s fits k w t fs)
  have "length (key_str k) \<noteq> 0" "length w \<noteq> 0" using 2 by simp_all
  then have "1 \<le> length (key_str k)" "1 \<le> length w" by linarith+
  then show ?case using 2 by simp
qed simp

lemma for_each_tries:
  assumes "field_tries f e s fs" "distinct (map (fst \<circ> snd) fs)" "length fs < 2 ^ 32"
    "w = write_map (word_of_nat (length fs)) @ fields_bytes (map snd fs)"
    "field_run f s (map snd fs) = t" "list_all fst fs \<longleftrightarrow> fits"
  shows "if fits then reads 0 (for_each_field f s) w t else stops 0 (for_each_field f s) w e"
proof (cases "list_all fst fs")
  case True
  then show ?thesis
    using reads_for_each [OF tries_all [OF assms(1) True]] assms(2-6) by (simp add: comp_def)
next
  case False
  have "distinct ([] @ map (byte_str \<circ> fst \<circ> snd) fs)"
    using assms(2) by (simp add: distinct_map inj_on_def)
  from stops_for_each [OF tries_stop [OF assms(1) this False] assms(3)] length_tries [OF assms(1)] False assms(6)
  show ?thesis by (simp add: assms(4))
qed

lemma stops_uint:
  assumes "\<not> v < 2 ^ 63"
  shows "stops k read_uint (write_uint v) MpType"
proof -
  have neg: "\<not> sint v \<ge> 0" using assms by (simp add: sint_nonneg)
  have big: "2 ^ 63 \<le> unat v" using assms by (simp add: word_less_nat_alt)
  then have w: "write_uint v = [0xcf] @ be_bytes 8 v"
    by (simp add: write_uint_def word_less_nat_alt word_le_nat_alt)
  have "reads k (be_u 8) (be_bytes 8 v) v" by (rule reads_be_u) (simp_all add: from_be_be_bytes)
  then have "stops k (r_bind (be_u 8) (\<lambda>v. if sint v \<ge> 0 then r_return v else r_fail MpType)) (be_bytes 8 v @ []) MpType"
    by (rule stops_second) (use neg in simp_all)
  then have "stops k read_int ([0xcf] @ be_bytes 8 v) MpType"
    unfolding read_int_def by (intro stops_second [OF reads_byte [of 0]]) simp_all
  then have "stops k (r_bind read_int (\<lambda>v. if sint v \<ge> 0 then r_return v else r_fail MpType)) (([0xcf] @ be_bytes 8 v) @ []) MpType"
    by (rule stops_first) simp
  then show ?thesis by (simp add: read_uint_def w)
qed

lemma stops_then: "stops 0 f w e \<Longrightarrow> stops 0 (r_bind f g) w e"
  using stops_first [of 0 f w e "[]" 0 g] by simp

lemma stops_into_uint [wire_reads]:
  "\<not> v < 2 ^ 63 \<Longrightarrow> stops 0 (read_into read_uint g) (write_uint v) (WEncoding MpType)"
  unfolding read_into_def by (intro stops_then stops_wire stops_uint)

lemma reads_record:
  assumes "record_ok r"
  shows "reads 0 (read_record_out out) (write_record r) (out @ [r])"
proof -
  let ?s1 = "default_record\<lparr>ro_name := ro_name r\<rparr>"
  let ?s2 = "?s1\<lparr>ro_rtype := ro_rtype r\<rparr>"
  let ?s3 = "?s2\<lparr>ro_ttl := ro_ttl r\<rparr>"
  let ?s4 = "?s3\<lparr>ro_data := ro_data r\<rparr>"
  let ?s5 = "?s4\<lparr>ro_text := ro_text r\<rparr>"
  have "field_steps record_field default_record
    [(''name'', write_str (ro_name r), ?s1), (''type'', write_uint (ucast (ro_rtype r)), ?s2),
     (''ttl'', write_uint (ucast (ro_ttl r)), ?s3), (''data'', write_bin (ro_data r), ?s4),
     (''text'', write_str (ro_text r), ?s5)]"
    using assms by (simp add: key_ok_def record_field_def record_ok_def wire_reads)
  then have "reads 0 (for_each_field record_field default_record) (write_record r) r"
    by (rule reads_fields_of) (simp_all add: write_record_def default_record_def)
  then show ?thesis unfolding read_record_out_def by (rule reads_then_return) simp
qed

lemma reads_address: "reads 0 (read_address_out out) (write_address x) (out @ [x])"
proof -
  have "field_steps address_field (None, 0)
    [(''address'', write_str (ip_display (ao_address x)), (Some (ao_address x), 0)),
     (''ttl'', write_uint (ucast (ao_ttl x)), (Some (ao_address x), ao_ttl x))]"
    by (simp add: key_ok_def address_field_def wire_reads parse_ip_display)
  then have "reads 0 (for_each_field address_field (None, 0)) (write_address x) (Some (ao_address x), ao_ttl x)"
    by (rule reads_fields_of) (simp_all add: write_address_def)
  then show ?thesis unfolding read_address_out_def by (rule reads_bind_last) (cases x, simp)
qed

lemma reads_scope:
  assumes "scope_ok sc"
  shows "reads 0 (read_scope_status out) (write_scope sc) (out @ [sc])"
proof -
  let ?l = "\<lambda>xs. write_array (word_of_nat (length xs)) @ concat (map write_str xs)"
  let ?s1 = "default_scope_status\<lparr>ss_interface := ss_interface sc\<rparr>"
  let ?s2 = "?s1\<lparr>ss_servers := ss_servers sc\<rparr>"
  let ?s3 = "?s2\<lparr>ss_domains := ss_domains sc\<rparr>"
  let ?s4 = "?s3\<lparr>ss_default_route := ss_default_route sc\<rparr>"
  let ?s5 = "?s4\<lparr>ss_exclusive := ss_exclusive sc\<rparr>"
  let ?s6 = "?s5\<lparr>ss_metric := ss_metric sc\<rparr>"
  let ?s7 = "?s6\<lparr>ss_subnets := ss_subnets sc\<rparr>"
  let ?s8 = "?s7\<lparr>ss_demoted := ss_demoted sc\<rparr>"
  have "field_steps scope_field default_scope_status
    [(''interface'', write_str (ss_interface sc), ?s1), (''servers'', ?l (ss_servers sc), ?s2),
     (''domains'', ?l (ss_domains sc), ?s3), (''default_route'', write_bool (ss_default_route sc), ?s4),
     (''exclusive'', write_bool (ss_exclusive sc), ?s5), (''metric'', write_uint (ucast (ss_metric sc)), ?s6),
     (''subnets'', ?l (ss_subnets sc), ?s7), (''demoted'', ?l (ss_demoted sc), ?s8)]"
    using assms by (simp add: key_ok_def scope_field_def scope_ok_def wire_reads)
  then have "reads 0 (for_each_field scope_field default_scope_status) (write_scope sc) sc"
    by (rule reads_fields_of) (simp_all add: write_scope_def write_str_list_def default_scope_status_def)
  then show ?thesis unfolding read_scope_status_def by (rule reads_then_return) simp
qed

lemma reads_counters:
  "if counters_ok c then reads 0 (for_each_field counters_field wire_counters_default) (write_counters c) c
   else stops 0 (for_each_field counters_field wire_counters_default) (write_counters c) (WEncoding MpType)"
proof -
  let ?s1 = "wire_counters_default\<lparr>wc_queries := wc_queries c\<rparr>"
  let ?s2 = "?s1\<lparr>wc_synthetic := wc_synthetic c\<rparr>"
  let ?s3 = "?s2\<lparr>wc_cache_hits := wc_cache_hits c\<rparr>"
  let ?s4 = "?s3\<lparr>wc_upstream_sent := wc_upstream_sent c\<rparr>"
  let ?s5 = "?s4\<lparr>wc_upstream_answered := wc_upstream_answered c\<rparr>"
  let ?s6 = "?s5\<lparr>wc_upstream_failed := wc_upstream_failed c\<rparr>"
  let ?s7 = "?s6\<lparr>wc_refused := wc_refused c\<rparr>"
  let ?f = "\<lambda>k v t. (v < 2 ^ 63, k, write_uint v, t)"
  let ?fs = "[?f ''queries'' (wc_queries c) ?s1, ?f ''synthetic'' (wc_synthetic c) ?s2,
     ?f ''cache_hits'' (wc_cache_hits c) ?s3, ?f ''upstream_sent'' (wc_upstream_sent c) ?s4,
     ?f ''upstream_answered'' (wc_upstream_answered c) ?s5,
     ?f ''upstream_failed'' (wc_upstream_failed c) ?s6, ?f ''refused'' (wc_refused c) ?s7]"
  have "field_tries counters_field (WEncoding MpType) wire_counters_default ?fs"
    by (simp add: key_ok_def counters_field_def wire_reads)
  then show ?thesis
    by (rule for_each_tries) (simp_all add: write_counters_def wire_counters_default_def counters_ok_def)
qed

lemma written_parts_nonempty [simp]:
  "write_record r \<noteq> []" "write_address x \<noteq> []" "write_scope sc \<noteq> []" "write_counters c \<noteq> []"
  by (simp_all add: write_record_def write_address_def write_scope_def write_counters_def)

lemma reads_records_into [wire_reads]:
  assumes "list_all record_ok xs" "length xs < 2 ^ 32" "g xs = t"
  shows "reads 0 (r_bind (read_items read_record_out []) (\<lambda>v. r_return (g v)))
    (write_array (word_of_nat (length xs)) @ concat (map write_record xs)) t"
proof -
  have "reads 0 (read_items read_record_out []) (write_array (word_of_nat (length xs)) @ concat (map write_record xs)) ([] @ xs)"
    unfolding read_items_def
    by (rule reads_items) (use assms in \<open>auto simp: list_all_iff reads_record\<close>)
  then show ?thesis by (rule reads_then_return) (simp add: assms)
qed

lemma reads_addresses_into [wire_reads]:
  assumes "length xs < 2 ^ 32" "g xs = t"
  shows "reads 0 (r_bind (read_items read_address_out []) (\<lambda>v. r_return (g v)))
    (write_array (word_of_nat (length xs)) @ concat (map write_address xs)) t"
proof -
  have "reads 0 (read_items read_address_out []) (write_array (word_of_nat (length xs)) @ concat (map write_address xs)) ([] @ xs)"
    unfolding read_items_def
    by (rule reads_items) (use assms in \<open>auto simp: reads_address\<close>)
  then show ?thesis by (rule reads_then_return) (simp add: assms)
qed

lemma reads_scopes_into [wire_reads]:
  assumes "list_all scope_ok xs" "length xs < 2 ^ 32" "g xs = t"
  shows "reads 0 (r_bind (read_items read_scope_status []) (\<lambda>v. r_return (g v)))
    (write_array (word_of_nat (length xs)) @ concat (map write_scope xs)) t"
proof -
  have "reads 0 (read_items read_scope_status []) (write_array (word_of_nat (length xs)) @ concat (map write_scope xs)) ([] @ xs)"
    unfolding read_items_def
    by (rule reads_items) (use assms in \<open>auto simp: list_all_iff reads_scope\<close>)
  then show ?thesis by (rule reads_then_return) (simp add: assms)
qed

lemma reads_counters_into [wire_reads]:
  "counters_ok c \<Longrightarrow> g c = t \<Longrightarrow>
   reads 0 (r_bind (for_each_field counters_field wire_counters_default) (\<lambda>v. r_return (g v))) (write_counters c) t"
  using reads_counters [of c] by (simp add: reads_then_return)

lemma stops_counters [wire_reads]:
  "\<not> counters_ok c \<Longrightarrow>
   stops 0 (r_bind (for_each_field counters_field wire_counters_default) g) (write_counters c) (WEncoding MpType)"
  using reads_counters [of c] by (simp add: stops_then)

lemma opt_written_nonempty [simp]: "(case v of Some s \<Rightarrow> write_str s | None \<Rightarrow> write_nil) \<noteq> []"
  by (cases v) simp_all

lemmas default_defs = no_reply_fields_def wire_answer_default_def wire_addresses_default_def default_status_def

lemma ok_reply_round_trip: "reply_decode (reply_encode RpOk) = Inr RpOk"
proof -
  let ?s1 = "no_reply_fields\<lparr>pf_ok := Some True\<rparr>"
  have "field_steps reply_field no_reply_fields [(''ok'', write_bool True, ?s1)]"
    by (simp add: key_ok_def reply_field_def wire_reads)
  from decode_fields [OF this, of _ reply_of] show ?thesis
    by (simp add: reply_decode_def reply_of_def no_reply_fields_def)
qed

lemma error_reply_round_trip:
  assumes "text_ok message"
  shows "reply_decode (reply_encode (RpError message)) = Inr (RpError message)"
proof -
  let ?s1 = "no_reply_fields\<lparr>pf_ok := Some False\<rparr>"
  let ?s2 = "?s1\<lparr>pf_error := Some message\<rparr>"
  have "field_steps reply_field no_reply_fields [(''ok'', write_bool False, ?s1), (''error'', write_str message, ?s2)]"
    using assms by (simp add: key_ok_def reply_field_def wire_reads)
  from decode_fields [OF this, of _ reply_of] show ?thesis
    by (simp add: reply_decode_def reply_of_def no_reply_fields_def)
qed

lemma answer_reply_round_trip:
  assumes "reply_ok (RpAnswer a)"
  shows "reply_decode (reply_encode (RpAnswer a)) = Inr (RpAnswer a)"
proof -
  let ?opt = "\<lambda>v. case v of Some s \<Rightarrow> write_str s | None \<Rightarrow> write_nil"
  let ?d = wire_addresses_default
  let ?s1 = "no_reply_fields\<lparr>pf_ok := Some True\<rparr>"
  let ?s2 = "?s1\<lparr>pf_kind := Some (byte_str ''answer'')\<rparr>"
  let ?a3 = "wire_answer_default\<lparr>wa_outcome := wa_outcome a\<rparr>" and ?d3 = "?d\<lparr>wd_outcome := wa_outcome a\<rparr>"
  let ?s3 = "?s2\<lparr>pf_answer := ?a3, pf_addresses := ?d3\<rparr>"
  let ?a4 = "?a3\<lparr>wa_records := wa_records a\<rparr>"
  let ?s4 = "?s3\<lparr>pf_answer := ?a4\<rparr>"
  let ?a5 = "?a4\<lparr>wa_source := wa_source a\<rparr>" and ?d5 = "?d3\<lparr>wd_source := wa_source a\<rparr>"
  let ?s5 = "?s4\<lparr>pf_answer := ?a5, pf_addresses := ?d5\<rparr>"
  let ?a6 = "?a5\<lparr>wa_server := wa_server a\<rparr>"
  let ?s6 = "?s5\<lparr>pf_answer := ?a6\<rparr>"
  let ?a7 = "?a6\<lparr>wa_interface := wa_interface a\<rparr>"
  let ?s7 = "?s6\<lparr>pf_answer := ?a7\<rparr>"
  let ?a8 = "?a7\<lparr>wa_validation := wa_validation a\<rparr>" and ?d8 = "?d5\<lparr>wd_validation := wa_validation a\<rparr>"
  let ?s8 = "?s7\<lparr>pf_answer := ?a8, pf_addresses := ?d8\<rparr>"
  let ?s9 = "?s8\<lparr>pf_answer := ?a8\<lparr>wa_rcode := wa_rcode a\<rparr>\<rparr>"
  let ?fs = "[(''ok'', write_bool True, ?s1), (''kind'', key_str ''answer'', ?s2),
    (''outcome'', write_str (outcome_as_str (wa_outcome a)), ?s3),
    (''records'', write_array (word_of_nat (length (wa_records a))) @ concat (map write_record (wa_records a)), ?s4),
    (''source'', write_str (wa_source a), ?s5), (''server'', ?opt (wa_server a), ?s6),
    (''interface'', ?opt (wa_interface a), ?s7), (''validation'', write_str (validation_as_str (wa_validation a)), ?s8),
    (''rcode'', write_uint (ucast (wa_rcode a)), ?s9)]"
  have "field_steps reply_field no_reply_fields ?fs"
    using assms
    by (simp add: key_ok_def reply_field_def wire_reads outcome_round_trip validation_round_trip default_defs Let_def)
  from decode_fields [OF this, of _ reply_of]
  have "reply_decode (reply_encode (RpAnswer a)) = reply_of ?s9"
    by (simp add: reply_decode_def write_opt_str_def)
  then show ?thesis by (simp add: reply_of_def default_defs)
qed

lemma addresses_reply_round_trip:
  assumes "reply_ok (RpAddresses a)"
  shows "reply_decode (reply_encode (RpAddresses a)) = Inr (RpAddresses a)"
proof -
  let ?s1 = "no_reply_fields\<lparr>pf_ok := Some True\<rparr>"
  let ?s2 = "?s1\<lparr>pf_kind := Some (byte_str ''addresses'')\<rparr>"
  let ?a3 = "wire_answer_default\<lparr>wa_outcome := wd_outcome a\<rparr>" and ?d3 = "wire_addresses_default\<lparr>wd_outcome := wd_outcome a\<rparr>"
  let ?s3 = "?s2\<lparr>pf_answer := ?a3, pf_addresses := ?d3\<rparr>"
  let ?d4 = "?d3\<lparr>wd_canonical := wd_canonical a\<rparr>"
  let ?s4 = "?s3\<lparr>pf_addresses := ?d4\<rparr>"
  let ?d5 = "?d4\<lparr>wd_addresses := wd_addresses a\<rparr>"
  let ?s5 = "?s4\<lparr>pf_addresses := ?d5\<rparr>"
  let ?a6 = "?a3\<lparr>wa_source := wd_source a\<rparr>" and ?d6 = "?d5\<lparr>wd_source := wd_source a\<rparr>"
  let ?s6 = "?s5\<lparr>pf_answer := ?a6, pf_addresses := ?d6\<rparr>"
  let ?a7 = "?a6\<lparr>wa_validation := wd_validation a\<rparr>" and ?d7 = "?d6\<lparr>wd_validation := wd_validation a\<rparr>"
  let ?s7 = "?s6\<lparr>pf_answer := ?a7, pf_addresses := ?d7\<rparr>"
  let ?fs = "[(''ok'', write_bool True, ?s1), (''kind'', key_str ''addresses'', ?s2),
    (''outcome'', write_str (outcome_as_str (wd_outcome a)), ?s3), (''canonical'', write_str (wd_canonical a), ?s4),
    (''addresses'', write_array (word_of_nat (length (wd_addresses a))) @ concat (map write_address (wd_addresses a)), ?s5),
    (''source'', write_str (wd_source a), ?s6), (''validation'', write_str (validation_as_str (wd_validation a)), ?s7)]"
  have "field_steps reply_field no_reply_fields ?fs"
    using assms
    by (simp add: key_ok_def reply_field_def wire_reads outcome_round_trip validation_round_trip default_defs Let_def)
  from decode_fields [OF this, of _ reply_of]
  have "reply_decode (reply_encode (RpAddresses a)) = reply_of ?s7" by (simp add: reply_decode_def)
  then show ?thesis by (simp add: reply_of_def default_defs)
qed

lemma status_reply_round_trip:
  assumes "reply_ok (RpStatus s)"
  shows "reply_decode (reply_encode (RpStatus s)) =
    (if counts_ok (RpStatus s) then Inr (RpStatus s) else Inl (WEncoding MpType))"
proof -
  let ?l = "\<lambda>xs. write_array (word_of_nat (length xs)) @ concat (map write_str xs)"
  let ?s1 = "no_reply_fields\<lparr>pf_ok := Some True\<rparr>"
  let ?s2 = "?s1\<lparr>pf_kind := Some (byte_str ''status'')\<rparr>"
  let ?t3 = "default_status\<lparr>sr_hostname := sr_hostname s\<rparr>"
  let ?t4 = "?t3\<lparr>sr_netd := sr_netd s\<rparr>"
  let ?t5 = "?t4\<lparr>sr_scopes := sr_scopes s\<rparr>"
  let ?t6 = "?t5\<lparr>sr_fallback_servers := sr_fallback_servers s\<rparr>"
  let ?t7 = "?t6\<lparr>sr_cache_entries := sr_cache_entries s\<rparr>"
  let ?t8 = "?t7\<lparr>sr_counters := sr_counters s\<rparr>"
  let ?fs = "[(True, ''ok'', write_bool True, ?s1), (True, ''kind'', key_str ''status'', ?s2),
    (True, ''hostname'', write_str (sr_hostname s), ?s2\<lparr>pf_status := ?t3\<rparr>),
    (True, ''netd'', write_bool (sr_netd s), ?s2\<lparr>pf_status := ?t4\<rparr>),
    (True, ''scopes'', write_array (word_of_nat (length (sr_scopes s))) @ concat (map write_scope (sr_scopes s)),
      ?s2\<lparr>pf_status := ?t5\<rparr>),
    (True, ''fallback_servers'', ?l (sr_fallback_servers s), ?s2\<lparr>pf_status := ?t6\<rparr>),
    (sr_cache_entries s < 2 ^ 63, ''cache_entries'', write_uint (sr_cache_entries s), ?s2\<lparr>pf_status := ?t7\<rparr>),
    (counters_ok (sr_counters s), ''counters'', write_counters (sr_counters s), ?s2\<lparr>pf_status := ?t8\<rparr>)]"
  have "field_tries reply_field (WEncoding MpType) no_reply_fields ?fs"
    using assms by (simp add: key_ok_def reply_field_def wire_reads default_defs)
  then have walk: "if counts_ok (RpStatus s)
      then reads 0 (for_each_field reply_field no_reply_fields) (reply_encode (RpStatus s)) (?s2\<lparr>pf_status := ?t8\<rparr>)
      else stops 0 (for_each_field reply_field no_reply_fields) (reply_encode (RpStatus s)) (WEncoding MpType)"
    by (rule for_each_tries) (simp_all add: write_str_list_def)
  have "reply_of (?s2\<lparr>pf_status := ?t8\<rparr>) = Inr (RpStatus s)" by (simp add: reply_of_def default_defs)
  then show ?thesis
    using walk by (simp add: reply_decode_def reads_whole stops_whole del: reply_encode.simps counts_ok.simps split: if_splits)
qed

lemma reply_round_trip:
  "reply_ok rp \<Longrightarrow> reply_decode (reply_encode rp) = (if counts_ok rp then Inr rp else Inl (WEncoding MpType))"
  by (cases rp) (simp_all only: ok_reply_round_trip error_reply_round_trip answer_reply_round_trip
    addresses_reply_round_trip status_reply_round_trip reply_ok.simps(2) counts_ok.simps if_True)

end
