(* ===== verification/Control.thy ===== *)
theory Control
  imports Native_Wire Reply_Queue
begin

text \<open>
  The native door: \<open>resolvd/src/control.rs\<close>. The security library is an argument: how a descriptor is
  validated and built, and the access check of a peer's token against it. A stream delivers the
  segments that have arrived; a read takes what it asked for from the first of them, and one that
  finds none gets \<open>WouldBlock\<close>.
\<close>

section \<open>The control object\<close>

definition CLIENT_TIMEOUT :: duration where
  "CLIENT_TIMEOUT = from_secs 5"

definition READ_CONTROL :: u32 where
  "READ_CONTROL = 0x00020000"

datatype sid = SidSystem | SidAdministrators | SidEveryone

text \<open>The compiled default, as the allow entries handed to the builder behind owner and group.\<close>

definition default_dacl :: "(sid \<times> u32) list" where
  "default_dacl =
     [(SidSystem, RESOLVER_ALL_ACCESS), (SidAdministrators, RESOLVER_ALL_ACCESS),
      (SidEveryone, RESOLVER_QUERY OR READ_CONTROL)]"

definition default_sd :: "(sid \<Rightarrow> sid \<Rightarrow> (sid \<times> u32) list \<Rightarrow> 'sd) \<Rightarrow> 'sd" where
  "default_sd build = build SidSystem SidSystem default_dacl"

definition control_new ::
  "(bytes \<Rightarrow> 'sd option) \<Rightarrow> (sid \<Rightarrow> sid \<Rightarrow> (sid \<times> u32) list \<Rightarrow> 'sd) \<Rightarrow> bytes option \<Rightarrow> 'sd" where
  "control_new validate build configured =
     (case configured of
        Some b \<Rightarrow> (case validate b of Some sd \<Rightarrow> sd | None \<Rightarrow> default_sd build)
      | None \<Rightarrow> default_sd build)"

text \<open>The rights that generic read, write, execute and all stand for.\<close>

definition control_mapping :: "u32 \<times> u32 \<times> u32 \<times> u32" where
  "control_mapping =
     (RESOLVER_QUERY OR READ_CONTROL, RESOLVER_CONTROL OR READ_CONTROL, RESOLVER_QUERY, RESOLVER_ALL_ACCESS)"

definition permits ::
  "('s \<Rightarrow> 'tok option) \<Rightarrow> ('sd \<Rightarrow> u32 \<Rightarrow> u32 \<times> u32 \<times> u32 \<times> u32 \<Rightarrow> 'tok \<Rightarrow> bool option) \<Rightarrow> 'sd \<Rightarrow> 's \<Rightarrow> u32 \<Rightarrow> bool" where
  "permits open_peer check sd stream right =
     (case open_peer stream of
        None \<Rightarrow> False
      | Some token \<Rightarrow> (case check sd right control_mapping token of Some allowed \<Rightarrow> allowed | None \<Rightarrow> False))"

section \<open>Error texts\<close>

fun mp_error_display :: "mp_error \<Rightarrow> bytes" where
  "mp_error_display MpTruncated = byte_str ''truncated message''"
| "mp_error_display MpType = byte_str ''unexpected value type''"
| "mp_error_display MpUnsupported = byte_str ''unsupported value type''"
| "mp_error_display MpUtf8 = byte_str ''string is not UTF-8''"
| "mp_error_display MpDepth = byte_str ''nested too deeply''"

text \<open>\<open>debug\<close> is the quoted and escaped form of a string, \<open>io_text\<close> the text of an I/O error.\<close>

fun wire_error_display :: "(bytes \<Rightarrow> bytes) \<Rightarrow> (io_error \<Rightarrow> bytes) \<Rightarrow> wire_error \<Rightarrow> bytes" where
  "wire_error_display debug io_text (WEncoding e) = byte_str ''malformed message: '' @ mp_error_display e"
| "wire_error_display debug io_text (WMissing k) = byte_str ''missing or malformed field '' @ k"
| "wire_error_display debug io_text (WDuplicate k) = byte_str ''duplicate field '' @ k"
| "wire_error_display debug io_text (WUnknownQuery q) = byte_str ''unknown query '' @ debug q"
| "wire_error_display debug io_text (WTooLarge n) =
     byte_str ''message of '' @ dec_nat n @ byte_str '' bytes exceeds the ceiling''"
| "wire_error_display debug io_text (WIo e) = io_text e"

section \<open>Clients\<close>

record 's client =
  cl_stream :: 's
  cl_buf :: bytes
  cl_since :: instant

datatype progress = PIncomplete | PRequest request | PReply reply | PClosed

definition client_new :: "'s \<Rightarrow> bool \<Rightarrow> instant \<Rightarrow> 's client option" where
  "client_new stream nonblocking now =
     (if nonblocking then Some \<lparr>cl_stream = stream, cl_buf = [], cl_since = now\<rparr> else None)"

text \<open>
  What the header says is to be read next: the answer to give at once, or the total number of bytes
  to read up to. The subtraction \<open>target - buf.len()\<close> panics when the buffer is longer: \<open>None\<close>.
\<close>

definition client_target :: "(wire_error \<Rightarrow> bytes) \<Rightarrow> bytes \<Rightarrow> progress + nat" where
  "client_target text_of buf =
     (if length buf < 4 then Inr 4
      else
        let len = unat (from_le (take 4 buf) :: u32) in
        if len > MAX_MESSAGE_BYTES then Inl (PReply (RpError (byte_str ''request too large'')))
        else if length buf = 4 + len then
          Inl (case request_decode (drop 4 buf) of
                 Inr r \<Rightarrow> PRequest r
               | Inl e \<Rightarrow> PReply (RpError (text_of e)))
        else Inr (4 + len))"

function client_read :: "(wire_error \<Rightarrow> bytes) \<Rightarrow> arrivals \<Rightarrow> bytes \<Rightarrow> (progress \<times> bytes \<times> arrivals) option" where
  "client_read text_of ss buf =
     (case client_target text_of buf of
        Inl p \<Rightarrow> Some (p, buf, ss)
      | Inr target \<Rightarrow>
          if target < length buf then None
          else
            let (r, ss') = read_segments (min 4096 (target - length buf)) ss in
            (case r of
               Inr chunk \<Rightarrow> if chunk = [] then Some (PClosed, buf, ss') else client_read text_of ss' (buf @ chunk)
             | Inl e \<Rightarrow>
                 if e = WouldBlock then Some (PIncomplete, buf, ss')
                 else if e = Interrupted then client_read text_of ss' buf
                 else Some (PClosed, buf, ss')))"
  by pat_completeness auto
termination
proof (relation "measure (\<lambda>(text_of, ss, buf). segments_size ss)", goal_cases)
  case 1
  then show ?case by simp
next
  case (2 text_of ss buf target x r ss' e)
  then have "read_segments (min 4096 (target - length buf)) ss = (Inl e, ss')" by simp
  moreover from this have "ss \<noteq> []" using 2 by auto
  ultimately show ?case using read_segments_size [of ss "min 4096 (target - length buf)"] by simp
next
  case (3 text_of ss buf target x r ss' chunk)
  then have "read_segments (min 4096 (target - length buf)) ss = (Inr chunk, ss')" by simp
  moreover from this have "ss \<noteq> []" by auto
  ultimately show ?case using read_segments_size [of ss "min 4096 (target - length buf)"] 3 by auto
qed

declare client_read.simps [simp del]

definition response_frame :: "reply \<Rightarrow> bytes" where
  "response_frame rp =
     (let b = reply_encode rp;
          b = (if length b > MAX_MESSAGE_BYTES then reply_encode (RpError (byte_str ''reply too large'')) else b)
      in le_bytes 4 (word_of_nat (length b) :: u32) @ b)"

section \<open>What a client gets\<close>

text \<open>Who may do what under the compiled default, for a check that grants what its entries allow.\<close>

lemma default_rights:
  "RESOLVER_CONTROL AND (RESOLVER_QUERY OR READ_CONTROL) = 0"
  "RESOLVER_QUERY AND RESOLVER_ALL_ACCESS = RESOLVER_QUERY"
  "RESOLVER_CONTROL AND RESOLVER_ALL_ACCESS = RESOLVER_CONTROL"
  by (simp_all add: RESOLVER_CONTROL_def RESOLVER_QUERY_def READ_CONTROL_def RESOLVER_ALL_ACCESS_def)

text \<open>A buffer the client can have: never longer than its header announces.\<close>

definition buf_ok :: "bytes \<Rightarrow> bool" where
  "buf_ok buf \<longleftrightarrow> 4 \<le> length buf \<longrightarrow> length buf \<le> 4 + unat (from_le (take 4 buf) :: u32)"

lemma target_bound:
  assumes "client_target text_of buf = Inr target" "buf_ok buf" "length c \<le> target - length buf"
  shows "length buf < target \<and> buf_ok (buf @ c)"
proof (cases "length buf < 4")
  case True
  then have "target = 4" using assms(1) by (simp add: client_target_def)
  then show ?thesis using True assms(3) by (auto simp: buf_ok_def)
next
  case False
  then have t: "target = 4 + unat (from_le (take 4 buf) :: u32)" "length buf \<noteq> target"
    using assms(1) by (auto simp: client_target_def Let_def split: if_splits)
  then have "length buf < target" using False assms(2) by (simp add: buf_ok_def)
  then show ?thesis using False t assms(3) by (simp add: buf_ok_def)
qed

lemma client_read_total: "buf_ok buf \<Longrightarrow> \<exists>p buf' ss'. client_read text_of ss buf = Some (p, buf', ss') \<and> buf_ok buf'"
proof (induction text_of ss buf rule: client_read.induct)
  case (1 text_of ss buf)
  show ?case
  proof (cases "client_target text_of buf")
    case (Inl p)
    then show ?thesis using 1 by (simp add: client_read.simps)
  next
    case (Inr target)
    let ?n = "min 4096 (target - length buf)"
    have lt: "length buf < target" using target_bound [OF Inr "1.prems", of "[]"] by simp
    obtain r ss' where r: "read_segments ?n ss = (r, ss')" by force
    show ?thesis
    proof (cases r)
      case (Inl e)
      then show ?thesis
        using "1.IH"(1) [OF Inr _ r [symmetric] refl Inl] "1.prems" Inr lt r
        by (subst client_read.simps) auto
    next
      case (Inr c)
      have "length c \<le> ?n" using read_segments_length [of ?n ss c] r Inr by simp
      then have "buf_ok (buf @ c)" using target_bound [OF \<open>client_target text_of buf = Inr target\<close> "1.prems", of c] by simp
      then show ?thesis
        using "1.IH"(2) [OF \<open>client_target text_of buf = Inr target\<close> _ r [symmetric] refl Inr] "1.prems" lt r Inr
          \<open>client_target text_of buf = Inr target\<close>
        by (subst client_read.simps) auto
    qed
  qed
qed

lemma target_of_prefix:
  assumes f: "wire_send payload = Inr frame" and b: "frame = buf @ more_bytes" "more_bytes \<noteq> []"
  shows "\<exists>target. client_target text_of buf = Inr target \<and> length buf < target \<and> target \<le> length frame"
proof -
  have n: "length payload \<le> MAX_MESSAGE_BYTES" "frame = le_bytes 4 (word_of_nat (length payload) :: u32) @ payload"
    using f by (auto simp: wire_send_def split: if_splits)
  show ?thesis
  proof (cases "length buf < 4")
    case True
    then show ?thesis using n by (simp add: client_target_def)
  next
    case False
    have "take 4 buf = take 4 frame" using False b by simp
    also have "\<dots> = le_bytes 4 (word_of_nat (length payload) :: u32)" by (simp add: n(2))
    finally have "from_le (take 4 buf) = (word_of_nat (length payload) :: u32)" by (simp add: from_le_le_bytes)
    then have len: "unat (from_le (take 4 buf) :: u32) = length payload"
      using n(1) by (simp add: unat_of_nat_small MAX_MESSAGE_BYTES_def)
    have "length frame = 4 + length payload" by (simp add: n(2))
    moreover have "length buf < length frame" using b by simp
    ultimately show ?thesis using False n(1) len by (simp add: client_target_def)
  qed
qed

lemma target_of_frame:
  assumes "wire_send payload = Inr frame"
  shows "client_target text_of frame = Inl (case request_decode payload of Inr r \<Rightarrow> PRequest r | Inl e \<Rightarrow> PReply (RpError (text_of e)))"
proof -
  have n: "length payload \<le> MAX_MESSAGE_BYTES" "frame = le_bytes 4 (word_of_nat (length payload) :: u32) @ payload"
    using assms by (auto simp: wire_send_def split: if_splits)
  have "unat (word_of_nat (length payload) :: u32) = length payload"
    using n(1) by (simp add: unat_of_nat_small MAX_MESSAGE_BYTES_def)
  then show ?thesis using n(1) by (simp add: client_target_def n(2) from_le_le_bytes)
qed

text \<open>A whole request in any segmentation is decoded, and nothing behind it is read.\<close>

lemma client_reads_frame:
  assumes f: "wire_send payload = Inr frame"
  shows "steady ss \<Longrightarrow> frame = buf @ m \<Longrightarrow> data_of ss = m @ rest \<Longrightarrow>
    \<exists>ss'. client_read text_of ss buf = Some
      (case request_decode payload of Inr r \<Rightarrow> PRequest r | Inl e \<Rightarrow> PReply (RpError (text_of e)), frame, ss')
      \<and> data_of ss' = rest"
proof (induction text_of ss buf arbitrary: m rule: client_read.induct)
  case (1 text_of ss buf)
  show ?case
  proof (cases "m = []")
    case True
    then show ?thesis using target_of_frame [OF f, of text_of] 1 by (subst client_read.simps) simp
  next
    case False
    obtain target where t: "client_target text_of buf = Inr target" "length buf < target" "target \<le> length frame"
      using target_of_prefix [OF f "1.prems"(2) False] by blast
    let ?n = "min 4096 (target - length buf)"
    obtain r ss' where r: "read_segments ?n ss = (r, ss')" by force
    have "ss \<noteq> []" using "1.prems"(3) False by (auto simp: data_of_def)
    from read_steady [OF "1.prems"(1) _ this, of ?n] t(2) r
    consider (data) c where "r = Inr c" "c \<noteq> []" "length c \<le> ?n" "data_of ss = c @ data_of ss'" "steady ss'"
      | (again) "r = Inl Interrupted" "data_of ss' = data_of ss" "steady ss'" by auto
    then show ?thesis
    proof cases
      case again
      then show ?thesis
        using "1.IH"(1) [OF t(1) _ r [symmetric] refl again(1)] "1.prems" t r
        by (subst client_read.simps) simp
    next
      case (data c)
      have "length c \<le> length m" using data(3) t(3) "1.prems"(2) by (auto simp: le_diff_conv)
      then obtain m' where m: "m = c @ m'" "data_of ss' = m' @ rest"
        using "1.prems"(3) data(4) by (auto simp: append_eq_append_conv_if) (metis append_take_drop_id)
      then show ?thesis
        using "1.IH"(2) [OF t(1) _ r [symmetric] refl data(1) data(2) data(5), of m'] "1.prems"(2) data t r
        by (subst client_read.simps) simp
    qed
  qed
qed

text \<open>Every reply leaves in a frame that the client accepts.\<close>

lemma response_frame_sent: "\<exists>payload. wire_send payload = Inr (response_frame rp)
  \<and> payload = (if length (reply_encode rp) > MAX_MESSAGE_BYTES then reply_encode (RpError (byte_str ''reply too large''))
               else reply_encode rp)"
proof -
  have "length (reply_encode (RpError (byte_str ''reply too large''))) \<le> MAX_MESSAGE_BYTES"
    by (simp add: MAX_MESSAGE_BYTES_def write_map_def write_str_def write_bool_def)
  then show ?thesis by (auto simp: response_frame_def wire_send_def Let_def)
qed

lemma client_gets_reply:
  assumes "reply_ok rp"
  shows "\<exists>payload. wire_recv e (response_frame rp @ rest) = Inr (payload, rest)
    \<and> reply_decode payload =
        (if length (reply_encode rp) > MAX_MESSAGE_BYTES then Inr (RpError (byte_str ''reply too large''))
         else if counts_ok rp then Inr rp else Inl (WEncoding MpType))"
proof -
  obtain payload where p: "wire_send payload = Inr (response_frame rp)"
    "payload = (if length (reply_encode rp) > MAX_MESSAGE_BYTES then reply_encode (RpError (byte_str ''reply too large''))
               else reply_encode rp)"
    using response_frame_sent by blast
  have large: "reply_decode (reply_encode (RpError (byte_str ''reply too large''))) = Inr (RpError (byte_str ''reply too large''))"
    by (rule error_reply_round_trip) (simp add: key_ok_text key_ok_def)
  show ?thesis
    using frame_round_trip [OF p(1), of e rest] reply_round_trip [OF assms] large p(2)
    by (auto simp del: reply_encode.simps)
qed

end
