(* ===== verification/Netd_Link.thy ===== *)
theory Netd_Link
  imports Control
begin

text \<open>
  The channel from netd: \<open>resolvd/src/netd_link.rs\<close>. netd's own crate is not part of this program:
  its snapshots are the type variable \<open>'snap\<close>, and the decoder of its replies is an argument. The
  attempt to connect and subscribe is an argument too, with its result.
\<close>

section \<open>The link\<close>

definition MIN_BACKOFF :: duration where
  "MIN_BACKOFF = 500000000"

definition MAX_BACKOFF :: duration where
  "MAX_BACKOFF = from_secs 10"

definition NETD_MESSAGE_BYTES :: nat where
  "NETD_MESSAGE_BYTES = 65536"

record 's netd_link =
  nl_stream :: "'s option"
  nl_buf :: bytes
  nl_next_try :: instant
  nl_backoff :: duration
  nl_warned :: bool

datatype 'snap netd_reply = NSnapshot 'snap | NError | NOther

definition netd_new :: "instant \<Rightarrow> 's netd_link" where
  "netd_new now = \<lparr>nl_stream = None, nl_buf = [], nl_next_try = now, nl_backoff = MIN_BACKOFF, nl_warned = False\<rparr>"

definition netd_connected :: "'s netd_link \<Rightarrow> bool" where
  "netd_connected l \<longleftrightarrow> nl_stream l \<noteq> None"

definition netd_fd :: "('s \<Rightarrow> nat) \<Rightarrow> 's netd_link \<Rightarrow> nat option" where
  "netd_fd as_raw_fd l = map_option as_raw_fd (nl_stream l)"

definition netd_deadline :: "'s netd_link \<Rightarrow> instant option" where
  "netd_deadline l = (if nl_stream l = None then Some (nl_next_try l) else None)"

definition maintain :: "io_error + 's \<Rightarrow> instant \<Rightarrow> 's netd_link \<Rightarrow> 's netd_link" where
  "maintain connect now l =
     (if nl_stream l \<noteq> None \<or> now < nl_next_try l then l
      else case connect of
          Inr stream \<Rightarrow> l\<lparr>nl_stream := Some stream, nl_buf := [], nl_warned := False\<rparr>
        | Inl e \<Rightarrow>
            l\<lparr>nl_warned := True, nl_next_try := now + nl_backoff l,
              nl_backoff := min (nl_backoff l * 2) MAX_BACKOFF\<rparr>)"

text \<open>Reading up to one whole message of the largest size: the buffer and whether the stream is lost.\<close>

function netd_read :: "arrivals \<Rightarrow> bytes \<Rightarrow> bytes \<times> bool" where
  "netd_read ss buf =
     (if length buf < NETD_MESSAGE_BYTES + 4 then
        let (r, ss') = read_segments (min 8192 (NETD_MESSAGE_BYTES + 4 - length buf)) ss in
        (case r of
           Inr chunk \<Rightarrow> if chunk = [] then (buf, True) else netd_read ss' (buf @ chunk)
         | Inl e \<Rightarrow>
             if e = WouldBlock then (buf, False)
             else if e = Interrupted then netd_read ss' buf
             else (buf, True))
      else (buf, False))"
  by pat_completeness auto
termination
proof (relation "measure (\<lambda>(ss, buf). segments_size ss)", goal_cases)
  case 1
  then show ?case by simp
next
  case (2 ss buf x r ss' e)
  let ?n = "min 8192 (NETD_MESSAGE_BYTES + 4 - length buf)"
  have "read_segments ?n ss = (Inl e, ss')" using 2 by simp
  moreover from this have "ss \<noteq> []" using 2 by auto
  ultimately show ?case using read_segments_size [of ss ?n] by simp
next
  case (3 ss buf x r ss' chunk)
  let ?n = "min 8192 (NETD_MESSAGE_BYTES + 4 - length buf)"
  have "read_segments ?n ss = (Inr chunk, ss')" using 3 by simp
  moreover from this have "ss \<noteq> []" by auto
  ultimately show ?case using read_segments_size [of ss ?n] 3 by auto
qed

declare netd_read.simps [simp del]

text \<open>The messages in the buffer: the snapshots, the backoff they leave, whether the link is lost, the rest.\<close>

function netd_frames ::
  "(bytes \<Rightarrow> 'snap netd_reply option) \<Rightarrow> bytes \<Rightarrow> duration \<Rightarrow> bool \<Rightarrow> 'snap list \<times> duration \<times> bool \<times> bytes" where
  "netd_frames dec buf backoff lost =
     (if length buf < 4 then ([], backoff, lost, buf)
      else
        let len = unat (from_le (take 4 buf) :: u32) in
        if len > NETD_MESSAGE_BYTES then ([], backoff, True, buf)
        else if length buf < 4 + len then ([], backoff, lost, buf)
        else
          let payload = take len (drop 4 buf); buf' = drop (4 + len) buf in
          (case dec payload of
             Some (NSnapshot s) \<Rightarrow>
               let (out, rest) = netd_frames dec buf' MIN_BACKOFF lost in (s # out, rest)
           | Some NError \<Rightarrow> netd_frames dec buf' backoff True
           | Some NOther \<Rightarrow> netd_frames dec buf' backoff lost
           | None \<Rightarrow> netd_frames dec buf' backoff True))"
  by pat_completeness auto
termination by (relation "measure (\<lambda>(dec, buf, backoff, lost). length buf)") auto

declare netd_frames.simps [simp del]

definition netd_service ::
  "(bytes \<Rightarrow> 'snap netd_reply option) \<Rightarrow> arrivals \<Rightarrow> instant \<Rightarrow> 's netd_link \<Rightarrow> 'snap list \<times> 's netd_link" where
  "netd_service dec ss now l =
     (if nl_stream l = None then ([], l)
      else
        let (buf, lost) = netd_read ss (nl_buf l);
            (out, backoff, lost, buf) = netd_frames dec buf (nl_backoff l) lost
        in if lost then
             (out, l\<lparr>nl_stream := None, nl_buf := [], nl_next_try := now + backoff,
                     nl_backoff := min (backoff * 2) MAX_BACKOFF, nl_warned := True\<rparr>)
           else (out, l\<lparr>nl_buf := buf, nl_backoff := backoff\<rparr>))"

section \<open>Backoff and memory\<close>

text \<open>The pause before a retry stays between the two limits, and the buffer holds at most one message.\<close>

definition link_ok :: "'s netd_link \<Rightarrow> bool" where
  "link_ok l \<longleftrightarrow> MIN_BACKOFF \<le> nl_backoff l \<and> nl_backoff l \<le> MAX_BACKOFF \<and> length (nl_buf l) < NETD_MESSAGE_BYTES + 4"

lemma backoff_order: "MIN_BACKOFF \<le> MAX_BACKOFF"
  by (simp add: MIN_BACKOFF_def MAX_BACKOFF_def from_secs_def)

lemma netd_read_bound: "length buf \<le> NETD_MESSAGE_BYTES + 4 \<Longrightarrow> length (fst (netd_read ss buf)) \<le> NETD_MESSAGE_BYTES + 4"
proof (induction ss buf rule: netd_read.induct)
  case (1 ss buf)
  let ?n = "min 8192 (NETD_MESSAGE_BYTES + 4 - length buf)"
  obtain r ss' where r: "read_segments ?n ss = (r, ss')" by force
  show ?case
  proof (cases "length buf < NETD_MESSAGE_BYTES + 4")
    case False
    then show ?thesis using 1 by (simp add: netd_read.simps)
  next
    case True
    show ?thesis
    proof (cases r)
      case (Inl e)
      then show ?thesis
        using "1.IH"(1) [OF True r [symmetric] refl Inl] "1.prems" True r by (subst netd_read.simps) auto
    next
      case (Inr c)
      have "length c \<le> ?n" using read_segments_length [of ?n ss c] r Inr by simp
      then have "length (buf @ c) \<le> NETD_MESSAGE_BYTES + 4" using True by auto
      then show ?thesis
        using "1.IH"(2) [OF True r [symmetric] refl Inr] True r Inr "1.prems" by (subst netd_read.simps) auto
    qed
  qed
qed

lemma netd_frames_ok:
  assumes "netd_frames dec buf backoff lost = (out, backoff', lost', buf')" "MIN_BACKOFF \<le> backoff" "backoff \<le> MAX_BACKOFF"
    "length buf \<le> NETD_MESSAGE_BYTES + 4"
  shows "MIN_BACKOFF \<le> backoff' \<and> backoff' \<le> MAX_BACKOFF \<and> (\<not> lost' \<longrightarrow> length buf' < NETD_MESSAGE_BYTES + 4)"
  using assms
proof (induction dec buf backoff lost arbitrary: out backoff' lost' buf' rule: netd_frames.induct)
  case (1 dec buf backoff lost)
  let ?len = "unat (from_le (take 4 buf) :: u32)"
  consider "length buf < 4" | "4 \<le> length buf" "?len > NETD_MESSAGE_BYTES"
    | "4 \<le> length buf" "?len \<le> NETD_MESSAGE_BYTES" "length buf < 4 + ?len"
    | (whole) "4 \<le> length buf" "?len \<le> NETD_MESSAGE_BYTES" "4 + ?len \<le> length buf" by linarith
  then show ?case
  proof cases
    case whole
    let ?b = "drop (4 + ?len) buf"
    have g: "\<not> length buf < 4" "\<not> NETD_MESSAGE_BYTES < ?len" "\<not> length buf < 4 + ?len" using whole by simp_all
    have b: "length ?b \<le> NETD_MESSAGE_BYTES + 4" using "1.prems"(4) by simp
    note IH = "1.IH" [OF g(1) refl g(2,3) refl refl]
    show ?thesis
    proof (cases "dec (take ?len (drop 4 buf))")
      case None
      then show ?thesis using IH(1) [OF None] "1.prems" g b by (simp add: netd_frames.simps [of dec buf] Let_def)
    next
      case (Some r)
      show ?thesis
      proof (cases r)
        case (NSnapshot s)
        obtain out1 rest where o: "netd_frames dec ?b MIN_BACKOFF lost = (out1, rest)"
          by (cases "netd_frames dec ?b MIN_BACKOFF lost") blast
        then show ?thesis
          using IH(2) [OF Some NSnapshot, of out1 backoff' lost' buf'] "1.prems" g b Some NSnapshot backoff_order
          by (cases rest) (auto simp: netd_frames.simps [of dec buf] Let_def)
      next
        case NError
        then show ?thesis using IH(3) [OF Some NError] Some "1.prems" g b by (simp add: netd_frames.simps [of dec buf] Let_def)
      next
        case NOther
        then show ?thesis using IH(4) [OF Some NOther] Some "1.prems" g b by (simp add: netd_frames.simps [of dec buf] Let_def)
      qed
    qed
  qed (use "1.prems" in \<open>auto simp: netd_frames.simps [of dec buf] Let_def\<close>)
qed

lemma maintain_ok: "link_ok l \<Longrightarrow> link_ok (maintain connect now l)"
  using backoff_order by (auto simp: link_ok_def maintain_def NETD_MESSAGE_BYTES_def split: sum.splits)

lemma service_link_ok:
  assumes "link_ok l"
  shows "link_ok (snd (netd_service dec ss now l))"
proof (cases "nl_stream l")
  case None
  then show ?thesis using assms by (simp add: netd_service_def)
next
  case (Some s)
  obtain buf lost where r: "netd_read ss (nl_buf l) = (buf, lost)" by force
  obtain out backoff lost' buf' where f: "netd_frames dec buf (nl_backoff l) lost = (out, backoff, lost', buf')"
    by (metis prod_cases4)
  have "length buf \<le> NETD_MESSAGE_BYTES + 4" using netd_read_bound [of "nl_buf l" ss] assms r by (simp add: link_ok_def)
  from netd_frames_ok [OF f _ _ this] assms Some r f backoff_order show ?thesis
    by (auto simp: netd_service_def link_ok_def NETD_MESSAGE_BYTES_def)
qed

text \<open>A link that is down says when to try again, and trying then either connects or waits longer.\<close>

lemma link_retry_progress:
  assumes "link_ok l" "netd_deadline l = Some t" "t \<le> now"
  shows "netd_connected (maintain connect now l)
    \<or> netd_deadline (maintain connect now l) = Some (now + nl_backoff l) \<and> now < now + nl_backoff l"
  using assms
  by (auto simp: netd_connected_def netd_deadline_def maintain_def link_ok_def MIN_BACKOFF_def split: if_splits sum.splits)

end
