(* ===== verification/Config.thy ===== *)
theory Config
  imports Std_Text Std_Io
begin

text \<open>
  What the registry tells the daemon: \<open>resolvd/src/config.rs\<close>, the value readers of
  \<open>registry_reader.rs\<close>, and the loop of \<open>entropy.rs\<close> that fills a buffer from the kernel. A registry key
  is what its reads return; a read that fails for any other reason than absence fails the load.
\<close>

section \<open>Registry values\<close>

datatype value_type = MULTI_SZ | SZ | EXPAND_SZ | BINARY | OtherType nat

record reg_value =
  rv_type :: value_type
  rv_data :: bytes

record value_record =
  vr_name :: bytes
  vr_type :: value_type
  vr_data :: bytes

text \<open>The root key: its values by name, and the values of its child \<open>Hosts\<close> when there is one.\<close>

record registry =
  rg_value :: "string \<Rightarrow> io_error + reg_value option"
  rg_hosts :: "io_error + (io_error + value_record list) option"

definition registry_text :: "bytes \<Rightarrow> io_error + bytes" where
  "registry_text b = (if valid_utf8 b then Inr b else Inl InvalidData)"

fun split_zero :: "bytes \<Rightarrow> bytes \<Rightarrow> bytes list" where
  "split_zero part [] = [part]"
| "split_zero part (b # s) = (if b = 0 then part # split_zero [] s else split_zero (part @ [b]) s)"

fun collect_results :: "('e + 'a) list \<Rightarrow> 'e + 'a list" where
  "collect_results [] = Inr []"
| "collect_results (r # rs) = and_then r (\<lambda>x. and_then (collect_results rs) (\<lambda>xs. Inr (x # xs)))"

definition multi :: "reg_value \<Rightarrow> io_error + bytes list option" where
  "multi v =
     (case rv_type v of
        MULTI_SZ \<Rightarrow>
          and_then (collect_results (map registry_text (filter (\<lambda>part. part \<noteq> []) (split_zero [] (rv_data v)))))
            (\<lambda>parts. Inr (Some parts))
      | SZ \<Rightarrow> and_then (registry_text (takeWhile (\<lambda>b. b \<noteq> 0) (rv_data v))) (\<lambda>t. Inr (Some [t]))
      | EXPAND_SZ \<Rightarrow> and_then (registry_text (takeWhile (\<lambda>b. b \<noteq> 0) (rv_data v))) (\<lambda>t. Inr (Some [t]))
      | _ \<Rightarrow> Inr None)"

definition reg_strings :: "registry \<Rightarrow> string \<Rightarrow> io_error + bytes list option" where
  "reg_strings r k =
     and_then (rg_value r k) (\<lambda>v. case v of None \<Rightarrow> Inr None | Some v \<Rightarrow> multi v)"

section \<open>Trimming\<close>

text \<open>\<open>str::trim\<close>: the characters with the property White\_Space in UTF-8, from both ends.\<close>

definition white_chars :: "bytes list" where
  "white_chars =
     [[9], [10], [11], [12], [13], [32], [0xC2, 0x85], [0xC2, 0xA0], [0xE1, 0x9A, 0x80],
      [0xE2, 0x80, 0x80], [0xE2, 0x80, 0x81], [0xE2, 0x80, 0x82], [0xE2, 0x80, 0x83], [0xE2, 0x80, 0x84],
      [0xE2, 0x80, 0x85], [0xE2, 0x80, 0x86], [0xE2, 0x80, 0x87], [0xE2, 0x80, 0x88], [0xE2, 0x80, 0x89],
      [0xE2, 0x80, 0x8A], [0xE2, 0x80, 0xA8], [0xE2, 0x80, 0xA9], [0xE2, 0x80, 0xAF], [0xE2, 0x81, 0x9F],
      [0xE3, 0x80, 0x80]]"

definition strip_one :: "bytes list \<Rightarrow> bytes \<Rightarrow> bytes option" where
  "strip_one chars s =
     (case find (\<lambda>c. take (length c) s = c) chars of Some c \<Rightarrow> Some (drop (length c) s) | None \<Rightarrow> None)"

lemma strip_one_shorter:
  assumes "strip_one chars s = Some t" "[] \<notin> set chars"
  shows "length t < length s"
proof -
  obtain c where c: "find (\<lambda>c. take (length c) s = c) chars = Some c" "t = drop (length c) s"
    using assms(1) by (auto simp: strip_one_def split: option.splits)
  then have "take (length c) s = c" "c \<in> set chars" by (auto simp: find_Some_iff)
  then have "c \<noteq> []" "length c \<le> length s" using assms(2) by (auto, metis length_take min.cobounded1)
  then show ?thesis using c(2) by (cases c) auto
qed

function strip_all :: "bytes list \<Rightarrow> bytes \<Rightarrow> bytes" where
  "strip_all chars s =
     (if [] \<in> set chars then s
      else case strip_one chars s of Some t \<Rightarrow> strip_all chars t | None \<Rightarrow> s)"
  by pat_completeness auto
termination by (relation "measure (\<lambda>(chars, s). length s)") (auto dest: strip_one_shorter)

declare strip_all.simps [simp del]

definition trim :: "bytes \<Rightarrow> bytes" where
  "trim s = rev (strip_all (map rev white_chars) (rev (strip_all white_chars s)))"

section \<open>Loading\<close>

record config =
  cf_servers :: "ip_addr list"
  cf_search :: "name list"
  cf_hosts :: "(name \<times> ip_addr list) list"
  cf_control_security :: "bytes option"

definition default_config :: config where
  "default_config = \<lparr>cf_servers = [], cf_search = [], cf_hosts = [], cf_control_security = None\<rparr>"

definition config_addresses :: "bytes list \<Rightarrow> ip_addr list" where
  "config_addresses ss = List.map_filter (\<lambda>s. parse_ip (trim s)) ss"

fun load_hosts :: "value_record list \<Rightarrow> (name \<times> ip_addr list) list \<Rightarrow> io_error + (name \<times> ip_addr list) list" where
  "load_hosts [] hosts = Inr hosts"
| "load_hosts (v # vs) hosts =
     and_then (registry_text (vr_name v)) (\<lambda>t.
       case parse t of
         Inl _ \<Rightarrow> load_hosts vs hosts
       | Inr n \<Rightarrow>
           if is_root n then load_hosts vs hosts
           else
             and_then (multi \<lparr>rv_type = vr_type v, rv_data = vr_data v\<rparr>) (\<lambda>parts.
               let addrs = config_addresses (case parts of Some ps \<Rightarrow> ps | None \<Rightarrow> [])
               in load_hosts vs (if addrs \<noteq> [] then hm_insert name_eq n addrs hosts else hosts)))"

definition config_of ::
  "bytes list option \<Rightarrow> bytes list option \<Rightarrow> reg_value option \<Rightarrow> (name \<times> ip_addr list) list \<Rightarrow> config" where
  "config_of servers search security hosts =
     \<lparr>cf_servers = config_addresses (case servers of Some ss \<Rightarrow> ss | None \<Rightarrow> []),
      cf_search = List.map_filter
        (\<lambda>d. case parse d of Inr n \<Rightarrow> if is_root n then None else Some n | Inl _ \<Rightarrow> None)
        (case search of Some ss \<Rightarrow> ss | None \<Rightarrow> []),
      cf_hosts = hosts,
      cf_control_security =
        (case security of
           Some v \<Rightarrow> if rv_type v = BINARY \<and> rv_data v \<noteq> [] then Some (rv_data v) else None
         | None \<Rightarrow> None)\<rparr>"

definition hosts_of :: "(io_error + value_record list) option \<Rightarrow> io_error + (name \<times> ip_addr list) list" where
  "hosts_of child = (case child of None \<Rightarrow> Inr [] | Some values \<Rightarrow> and_then values (\<lambda>vs. load_hosts vs []))"

definition load_from :: "registry option \<Rightarrow> io_error + config" where
  "load_from rt =
     (case rt of
        None \<Rightarrow> Inr default_config
      | Some r \<Rightarrow>
          and_then (reg_strings r ''FallbackServers'') (\<lambda>servers.
          and_then (reg_strings r ''ExtraSearchDomains'') (\<lambda>search.
          and_then (rg_value r ''ControlSecurity'') (\<lambda>security.
          and_then (rg_hosts r) (\<lambda>child.
          and_then (hosts_of child) (\<lambda>hosts.
          Inr (config_of servers search security hosts)))))))"

section \<open>Entropy\<close>

text \<open>
  \<open>fill_with\<close>: the results of successive reads, each the bytes that were written into the rest of the
  buffer. A read of more than the rest panics. When the list runs out the call is still waiting.
\<close>

datatype fill_result = Filled bytes | FillError io_error | FillPanic | FillWaiting

fun fill_with :: "nat \<Rightarrow> (io_error + bytes) list \<Rightarrow> bytes \<Rightarrow> fill_result" where
  "fill_with n results got =
     (if length got = n then Filled got
      else case results of
          [] \<Rightarrow> FillWaiting
        | Inr b # rs \<Rightarrow>
            if b = [] then FillError UnexpectedEof
            else if length b > n - length got then FillPanic
            else fill_with n rs (got @ b)
        | Inl e # rs \<Rightarrow> if e = Interrupted then fill_with n rs got else FillError e)"

declare fill_with.simps [simp del]

section \<open>What a load gives\<close>

text \<open>
  No root name reaches the engine as a search domain or a host, no host is without an address, and
  the host table has one entry per name; a read that fails leaves no configuration at all.
\<close>

definition config_ok :: "config \<Rightarrow> bool" where
  "config_ok c \<longleftrightarrow>
     list_all (\<lambda>n. \<not> is_root n) (cf_search c) \<and> hm_wf name_eq (cf_hosts c)
     \<and> list_all (\<lambda>(n, addrs). \<not> is_root n \<and> addrs \<noteq> []) (cf_hosts c)
     \<and> cf_control_security c \<noteq> Some []"

lemma name_eq_root: "name_eq n m \<Longrightarrow> is_root n \<longleftrightarrow> is_root m"
  by (auto simp: name_eq_def is_root_def list_all2_conv_all_nth)

lemma load_hosts_ok:
  assumes "load_hosts vs hosts = Inr hosts'"
    and "hm_wf name_eq hosts" "list_all (\<lambda>(n, addrs). \<not> is_root n \<and> addrs \<noteq> []) hosts"
  shows "hm_wf name_eq hosts' \<and> list_all (\<lambda>(n, addrs). \<not> is_root n \<and> addrs \<noteq> []) hosts'"
  using assms
proof (induction vs hosts rule: load_hosts.induct)
  case (2 v vs hosts)
  obtain t where t: "registry_text (vr_name v) = Inr t" using "2.prems"(1) by (auto simp: rust_simps)
  show ?case
  proof (cases "parse t")
    case (Inl e)
    then show ?thesis using 2 t by simp
  next
    case (Inr n)
    show ?thesis
    proof (cases "is_root n")
      case True
      then show ?thesis using 2 t Inr by simp
    next
      case False
      obtain parts where p: "multi \<lparr>rv_type = vr_type v, rv_data = vr_data v\<rparr> = Inr parts"
        using "2.prems"(1) t Inr False by (auto simp: rust_simps)
      let ?a = "config_addresses (case parts of Some ps \<Rightarrow> ps | None \<Rightarrow> [])"
      let ?h = "if ?a \<noteq> [] then hm_insert name_eq n ?a hosts else hosts"
      have "load_hosts vs ?h = Inr hosts'" using "2.prems"(1) t Inr False p by (simp add: Let_def)
      moreover have "hm_wf name_eq ?h" using "2.prems"(2) by (simp add: names.wf_insert)
      moreover have "list_all (\<lambda>(n, addrs). \<not> is_root n \<and> addrs \<noteq> []) ?h"
        using "2.prems"(3) False by (fastforce simp: list_all_iff dest!: names.insert_keys dest: name_eq_root)
      ultimately show ?thesis using "2.IH"(3) [OF t Inr False p refl] by simp
    qed
  qed
qed simp

lemma load_ok:
  assumes "load_from rt = Inr c"
  shows "config_ok c"
proof (cases rt)
  case None
  then show ?thesis using assms by (auto simp: load_from_def config_ok_def default_config_def)
next
  case (Some r)
  have s: "list_all (\<lambda>n. \<not> is_root n)
      (List.map_filter (\<lambda>d. case parse d of Inr n \<Rightarrow> if is_root n then None else Some n | Inl _ \<Rightarrow> None) ds)" for ds
    by (induction ds) (auto split: sum.splits)
  from assms Some obtain servers search security child hosts where
    h: "hosts_of child = Inr hosts" and c: "c = config_of servers search security hosts"
    by (auto simp: load_from_def rust_simps)
  have "hm_wf name_eq hosts \<and> list_all (\<lambda>(n, addrs). \<not> is_root n \<and> addrs \<noteq> []) hosts"
    using h load_hosts_ok [of _ "[]" hosts] by (auto simp: hosts_of_def rust_simps split: option.splits)
  then show ?thesis using s by (auto simp: config_ok_def c config_of_def split: option.splits)
qed

lemma load_all_or_nothing:
  assumes "load_from (Some r) = Inr c"
  shows "(\<exists>v. rg_value r ''FallbackServers'' = Inr v) \<and> (\<exists>v. rg_value r ''ExtraSearchDomains'' = Inr v)
    \<and> (\<exists>v. rg_value r ''ControlSecurity'' = Inr v) \<and> (\<exists>h. rg_hosts r = Inr h \<and> (\<forall>vs. h = Some vs \<longrightarrow> (\<exists>xs. vs = Inr xs)))"
  using assms by (auto simp: load_from_def reg_strings_def hosts_of_def rust_simps split: option.splits)

lemma fill_with_exact:
  assumes "fill_with n results got = Filled b" "length got \<le> n"
  shows "length b = n \<and> (\<exists>k. b = got @ concat (map (\<lambda>r. case r of Inr c \<Rightarrow> c | Inl _ \<Rightarrow> []) (take k results)))"
  using assms
proof (induction results arbitrary: got)
  case Nil
  then show ?case by (auto simp: fill_with.simps split: if_splits)
next
  case (Cons r rs)
  show ?case
  proof (cases "length got = n")
    case True
    then show ?thesis using Cons.prems by (auto simp: fill_with.simps intro!: exI [of _ 0])
  next
    case False
    show ?thesis
    proof (cases r)
      case (Inl e)
      then have "fill_with n rs got = Filled b" using Cons.prems False by (auto simp: fill_with.simps [where results = "Inl e # rs" for e] fill_with.simps [where results = "Inr c # rs" for c] split: if_splits)
      from Cons.IH [OF this Cons.prems(2)] show ?thesis using Inl by (auto intro: exI [of _ "Suc k" for k])
    next
      case (Inr c)
      then have "fill_with n rs (got @ c) = Filled b" "length (got @ c) \<le> n"
        using Cons.prems False by (auto simp: fill_with.simps [where results = "Inl e # rs" for e] fill_with.simps [where results = "Inr c # rs" for c] split: if_splits)
      from Cons.IH [OF this] show ?thesis using Inr by (auto intro: exI [of _ "Suc k" for k])
    qed
  qed
qed

end
