(* ===== verification/Dns_Text.thy ===== *)
theory Dns_Text
  imports Dns_Codec Std_Text
begin

text \<open>
  The textual forms of the DNS crate (\<open>dns/src/lib.rs\<close>): the names of record types and response
  codes, the parser of type names, and the presentation and wire forms of record data.
\<close>

section \<open>Names of types and codes\<close>

definition rtype_name :: "u16 \<Rightarrow> bytes" where
  "rtype_name t =
     (if t = RT_A then byte_str ''A''
      else if t = RT_NS then byte_str ''NS''
      else if t = RT_CNAME then byte_str ''CNAME''
      else if t = RT_SOA then byte_str ''SOA''
      else if t = RT_PTR then byte_str ''PTR''
      else if t = RT_MX then byte_str ''MX''
      else if t = RT_TXT then byte_str ''TXT''
      else if t = RT_AAAA then byte_str ''AAAA''
      else if t = RT_SRV then byte_str ''SRV''
      else if t = RT_OPT then byte_str ''OPT''
      else if t = RT_ANY then byte_str ''ANY''
      else byte_str ''TYPE'' @ dec_nat (unat t))"

text \<open>\<open>u8::to_ascii_uppercase\<close> and \<open>str::strip_prefix\<close>.\<close>

definition to_ascii_uppercase :: "u8 \<Rightarrow> u8" where
  "to_ascii_uppercase b = (if 97 \<le> b \<and> b \<le> 122 then b - 32 else b)"

definition strip_prefix :: "bytes \<Rightarrow> bytes \<Rightarrow> bytes option" where
  "strip_prefix p s = (if take (length p) s = p then Some (drop (length p) s) else None)"

definition rtype_parse :: "bytes \<Rightarrow> u16 option" where
  "rtype_parse s =
     (let s = map to_ascii_uppercase s in
      if s = byte_str ''A'' then Some RT_A
      else if s = byte_str ''NS'' then Some RT_NS
      else if s = byte_str ''CNAME'' then Some RT_CNAME
      else if s = byte_str ''SOA'' then Some RT_SOA
      else if s = byte_str ''PTR'' then Some RT_PTR
      else if s = byte_str ''MX'' then Some RT_MX
      else if s = byte_str ''TXT'' then Some RT_TXT
      else if s = byte_str ''AAAA'' then Some RT_AAAA
      else if s = byte_str ''SRV'' then Some RT_SRV
      else if s = byte_str ''ANY'' then Some RT_ANY
      else Option.bind (strip_prefix (byte_str ''TYPE'') s) (\<lambda>d.
             map_option word_of_nat (parse_unsigned 65535 d)))"

definition rcode_name :: "u8 \<Rightarrow> bytes" where
  "rcode_name r =
     (if r = NOERROR then byte_str ''NOERROR''
      else if r = FORMERR then byte_str ''FORMERR''
      else if r = SERVFAIL then byte_str ''SERVFAIL''
      else if r = NXDOMAIN then byte_str ''NXDOMAIN''
      else if r = NOTIMP then byte_str ''NOTIMP''
      else if r = REFUSED then byte_str ''REFUSED''
      else byte_str ''RCODE'' @ dec_nat (unat r))"

section \<open>Record data\<close>

text \<open>The words of a \<open>format!\<close> with single spaces between them.\<close>

fun spaced :: "bytes list \<Rightarrow> bytes" where
  "spaced [] = []"
| "spaced [w] = w"
| "spaced (w # v # ws) = w @ 32 # spaced (v # ws)"

definition hex_byte :: "u8 \<Rightarrow> bytes" where
  "hex_byte b = [hex_digit (drop_bit 4 b), hex_digit (b AND 15)]"

definition quoted :: "bytes \<Rightarrow> bytes" where
  "quoted s = 34 # escape_quotes (utf8_lossy s) @ [34]"

fun rdata_text :: "rdata \<Rightarrow> bytes" where
  "rdata_text (A a) = v4_display a"
| "rdata_text (Aaaa a) = v6_display a"
| "rdata_text (Cname n) = name_display n"
| "rdata_text (Ptr n) = name_display n"
| "rdata_text (Ns n) = name_display n"
| "rdata_text (Soa mname rname serial refresh retry expire minimum) =
     spaced [name_display mname, name_display rname, dec_nat (unat serial), dec_nat (unat refresh),
            dec_nat (unat retry), dec_nat (unat expire), dec_nat (unat minimum)]"
| "rdata_text (Mx preference exchange) = spaced [dec_nat (unat preference), name_display exchange]"
| "rdata_text (Srv priority weight port target) =
     spaced [dec_nat (unat priority), dec_nat (unat weight), dec_nat (unat port), name_display target]"
| "rdata_text (Txt strings) = spaced (map quoted strings)"
| "rdata_text (Opt b) = spaced [[92, 35], dec_nat (length b), concat (map hex_byte b)]"
| "rdata_text (Unknown b) = spaced [[92, 35], dec_nat (length b), concat (map hex_byte b)]"

definition rdata_bytes :: "rr \<Rightarrow> bytes" where
  "rdata_bytes r = write_rdata (r_data r)"

section \<open>Type names parse\<close>

lemma upper_digit: "d < 10 \<Longrightarrow> to_ascii_uppercase (digit d) = digit d"
  using digit_facts(2) [of d] order_trans [of 97 "digit d" 57] by (auto simp: to_ascii_uppercase_def)

lemma upper_dec_nat: "map to_ascii_uppercase (dec_nat n) = dec_nat n"
proof -
  have "\<forall>b \<in> set (dec_nat n). to_ascii_uppercase b = b"
    using dec_nat_digits [of n] upper_digit by auto
  then show ?thesis by (simp add: map_idI)
qed

lemma rtype_parse_number: "rtype_parse (byte_str ''TYPE'' @ dec_nat (unat t)) = Some (t :: u16)"
proof -
  have "unat t \<le> 65535" by (rule unat_u16_le)
  then have "parse_unsigned 65535 (dec_nat (unat t)) = Some (unat t)" by (rule parse_dec_nat)
  moreover have "map to_ascii_uppercase (byte_str ''TYPE'' @ dec_nat (unat t)) = byte_str ''TYPE'' @ dec_nat (unat t)"
    by (simp add: upper_dec_nat) (simp add: byte_str_def to_ascii_uppercase_def)
  ultimately show ?thesis
    unfolding rtype_parse_def Let_def by (simp add: byte_str_def strip_prefix_def)
qed

lemma rtype_round_trip: "rtype_parse (rtype_name t) = (if t = RT_OPT then None else Some t)"
proof -
  let ?named = "t \<in> {RT_A, RT_NS, RT_CNAME, RT_SOA, RT_PTR, RT_MX, RT_TXT, RT_AAAA, RT_SRV, RT_OPT, RT_ANY}"
  show ?thesis
  proof (cases ?named)
    case False
    then have "rtype_name t = byte_str ''TYPE'' @ dec_nat (unat t)" by (simp add: rtype_name_def)
    then show ?thesis using False rtype_parse_number [of t] by simp
  next
    case True
    then show ?thesis
      by (elim insertE emptyE)
        (simp_all add: rtype_name_def rtype_parse_def byte_str_def to_ascii_uppercase_def strip_prefix_def)
  qed
qed

section \<open>Presentation forms are text\<close>

lemma valid_utf8_spaced: "list_all valid_utf8 ws \<Longrightarrow> valid_utf8 (spaced ws)"
  by (induction ws rule: spaced.induct) (simp_all add: valid_utf8_append)

lemma digit_ascii: "digit d < 0x80" if "d < 10" for d
  using digit_facts(2) [OF that] by (rule le_less_trans) simp

lemma ascii_display_byte: "ascii (display_byte b)"
proof -
  have "unat b div 100 < 10" "unat b div 10 mod 10 < 10" "unat b mod 10 < 10" using unat_u8_lt [of b] by simp_all
  then have "ascii (dec3_u8 b)" by (simp add: dec3_u8_def Let_def digit_ascii)
  moreover have "b < 0x80" if "b \<le> 0x7e" using that by (rule le_less_trans) simp
  ultimately show ?thesis by (auto simp: display_byte_def)
qed

lemma ascii_dotted: "list_all ascii ls \<Longrightarrow> ascii (dotted ls)"
  by (induction ls rule: dotted.induct) simp_all

lemma ascii_name_display: "ascii (name_display n)"
  by (auto simp: name_display_def list_all_iff intro!: ascii_dotted ascii_concat ascii_display_byte)

lemma ascii_hex_byte: "ascii (hex_byte b)"
proof -
  have "hex_digit n < 0x80" if "n < 16" for n
  proof -
    have "hex_digit n \<le> 0x7e" using plain_hex_digit [OF that] by (simp add: plain_byte_def)
    then show ?thesis by (rule le_less_trans) simp
  qed
  then show ?thesis using nibbles [of b] by (simp add: hex_byte_def)
qed

lemma valid_utf8_quoted: "valid_utf8 (quoted s)"
  using valid_utf8_append [OF valid_utf8_escape [OF valid_utf8_lossy [of s]], of "[34]"] by (simp add: quoted_def)

lemma valid_rdata_text: "valid_utf8 (rdata_text d)"
proof -
  have hex: "ascii (concat (map hex_byte b))" for b by (auto intro!: ascii_concat ascii_hex_byte)
  have addresses: "ascii (v4_display a)" "ascii (v6_display b)" for a b
    using ascii_ip_display [of "V4 a"] ascii_ip_display [of "V6 b"] by simp_all
  note facts = valid_utf8_spaced valid_utf8_ascii valid_utf8_quoted ascii_name_display ascii_dec_nat hex addresses
  show ?thesis by (cases d) (auto simp: facts list_all_iff intro!: valid_utf8_spaced)
qed

end
