(* ===== verification/Daemon.thy ===== *)
theory Daemon
  imports Engine_Machine Stub Upstream Netd_Link Config Dns_Text
begin

text \<open>
  The daemon: \<open>resolvd/src/main.rs\<close>. Its state joins the engine, the sockets to the servers, the stub
  listener, the native clients and the netd link; one turn of its loop answers one \<open>poll\<close>. The
  operating system is a record of functions, and what the sockets deliver in a turn is the turn's
  input. The locals of \<open>main\<close> that live across turns are fields of the state, which also counts the
  readings of the clock and keeps the datagrams the stub has sent. A panic is \<open>None\<close>.
\<close>

section \<open>State\<close>

definition MAX_PENDING_CLIENTS :: nat where
  "MAX_PENDING_CLIENTS = 256"

definition MAX_PENDING_UDP :: nat where
  "MAX_PENDING_UDP = 256"

definition MAX_PENDING_UDP_PER_PEER :: nat where
  "MAX_PENDING_UDP_PER_PEER = 16"

datatype 's waiter = WNative 's | WStub "'s origin"

fun stream_fd :: "('s \<Rightarrow> nat) \<Rightarrow> 's waiter \<Rightarrow> nat option" where
  "stream_fd fd (WNative stream) = Some (fd stream)"
| "stream_fd fd (WStub (OTcp stream query)) = Some (fd stream)"
| "stream_fd fd (WStub (OUdp peer query)) = None"

fun udp_peer :: "'s waiter \<Rightarrow> socket_addr option" where
  "udp_peer (WStub (OUdp peer query)) = Some peer"
| "udp_peer _ = None"

definition count_waiters :: "('s waiter \<Rightarrow> bool) \<Rightarrow> (qid \<times> 's waiter) list \<Rightarrow> nat" where
  "count_waiters P ws = length (filter (\<lambda>(q, w). P w) ws)"

definition udp_has_capacity :: "(qid \<times> 's waiter) list \<Rightarrow> socket_addr \<Rightarrow> bool" where
  "udp_has_capacity ws peer \<longleftrightarrow>
     count_waiters (\<lambda>w. udp_peer w \<noteq> None) ws < MAX_PENDING_UDP \<and>
     count_waiters (\<lambda>w. udp_peer w = Some peer) ws < MAX_PENDING_UDP_PER_PEER"

record ('u, 's, 'sd, 'tok) system =
  os_write :: "'s writer"
  os_fd :: "'s \<Rightarrow> nat"
  os_udp_fd :: "'u \<Rightarrow> nat"
  os_nametoindex :: "bytes \<Rightarrow> u32"
  os_tcp_open :: "txid \<Rightarrow> socket_addr \<Rightarrow> io_error + 's"
  os_udp_open :: "txid \<Rightarrow> socket_addr \<Rightarrow> socket_addr \<Rightarrow> bytes \<Rightarrow> io_error + 'u"
  os_clock :: "nat \<Rightarrow> instant"
  os_gethostname :: "bytes option"
  os_open_peer :: "'s \<Rightarrow> 'tok option"
  os_check :: "'sd \<Rightarrow> u32 \<Rightarrow> u32 \<times> u32 \<times> u32 \<times> u32 \<Rightarrow> 'tok \<Rightarrow> bool option"
  os_validate :: "bytes \<Rightarrow> 'sd option"
  os_build :: "sid \<Rightarrow> sid \<Rightarrow> (sid \<times> u32) list \<Rightarrow> 'sd"
  os_text :: "wire_error \<Rightarrow> bytes"

record ('u, 's, 'sd) resolvd =
  d_engine :: engine
  d_config :: config
  d_control :: 'sd
  d_upstream :: "('u, 's) upstream"
  d_stub :: "'s stub"
  d_netd :: "'s netd_link"
  d_clients :: "(nat \<times> 's client) list"
  d_replies :: "'s replies"
  d_waiters :: "(qid \<times> 's waiter) list"
  d_next_id :: nat
  d_accept_backoff :: accept_backoff
  d_watch :: bool
  d_sent :: datagrams
  d_reads :: nat

definition daemon_fresh_id :: "('u, 's, 'sd) resolvd \<Rightarrow> nat \<times> ('u, 's, 'sd) resolvd" where
  "daemon_fresh_id d = (d_next_id d, d\<lparr>d_next_id := d_next_id d + 1\<rparr>)"

definition read_clock :: "('u, 's, 'sd, 'tok) system \<Rightarrow> ('u, 's, 'sd) resolvd \<Rightarrow> instant \<times> ('u, 's, 'sd) resolvd" where
  "read_clock os d = (os_clock os (d_reads d), d\<lparr>d_reads := d_reads d + 1\<rparr>)"

section \<open>What the doors speak\<close>

fun source_as_str :: "source \<Rightarrow> bytes" where
  "source_as_str Local = byte_str ''local''"
| "source_as_str Synthetic = byte_str ''synthetic''"
| "source_as_str Hosts = byte_str ''hosts''"
| "source_as_str FromCache = byte_str ''cache''"
| "source_as_str Dns = byte_str ''dns''"

definition to_record :: "rr \<Rightarrow> record_out" where
  "to_record r =
     \<lparr>ro_name = name_display (r_name r), ro_rtype = r_type r, ro_ttl = r_ttl r,
      ro_data = rdata_bytes r, ro_text = rdata_text (r_data r)\<rparr>"

definition to_answer :: "answer \<Rightarrow> wire_answer" where
  "to_answer a =
     \<lparr>wa_outcome = a_outcome a, wa_records = map to_record (a_records a), wa_source = source_as_str (a_source a),
      wa_server = map_option ip_display (a_server a), wa_interface = map_option byte_str (a_interface a),
      wa_validation = Unvalidated, wa_rcode = a_rcode a\<rparr>"

definition to_addresses :: "addresses \<Rightarrow> wire_addresses" where
  "to_addresses a =
     \<lparr>wd_outcome = ad_outcome a, wd_canonical = name_display (ad_canonical a),
      wd_addresses = map (\<lambda>(address, ttl). \<lparr>ao_address = address, ao_ttl = ttl\<rparr>) (ad_addresses a),
      wd_source = source_as_str (ad_source a), wd_validation = Unvalidated\<rparr>"

text \<open>netd's picture of an interface and of the host, as its crate declares them.\<close>

record dns_scope =
  ds_ifid :: bytes
  ds_name :: bytes
  ds_servers :: "bytes list"
  ds_domains :: "bytes list"
  ds_ntp :: "bytes list"
  ds_addresses :: "bytes list"
  ds_default_route :: bool
  ds_exclusive :: bool
  ds_metric :: u32
  ds_level :: level

record snapshot =
  sn_hostname :: bytes
  sn_scopes :: "dns_scope list"

text \<open>The same text as a string of the engine.\<close>

definition char_str :: "bytes \<Rightarrow> string" where
  "char_str s = map (\<lambda>b. char_of (unat b)) s"

definition to_scope :: "(bytes \<Rightarrow> u32) \<Rightarrow> dns_scope \<Rightarrow> scope" where
  "to_scope nametoindex s =
     \<lparr>sc_id = char_str (ds_ifid s), sc_interface = char_str (ds_name s),
      sc_servers = List.map_filter (\<lambda>a. ok (scope_server nametoindex a (ds_name s))) (ds_servers s),
      sc_domains = filter (\<lambda>n. \<not> is_root n) (List.map_filter (\<lambda>d. ok (parse d)) (ds_domains s)),
      sc_addresses = List.map_filter (\<lambda>c.
        Option.bind (split_once 47 c) (\<lambda>(a, p).
        Option.bind (parse_ip a) (\<lambda>address.
        map_option (\<lambda>n. (address, word_of_nat n)) (parse_unsigned 255 p)))) (ds_addresses s),
      sc_default_route = ds_default_route s, sc_exclusive = ds_exclusive s, sc_metric = ds_metric s,
      sc_level = ds_level s\<rparr>"

text \<open>The buffer \<open>gethostname\<close> filled, when it succeeded.\<close>

definition kernel_hostname :: "bytes option \<Rightarrow> bytes option" where
  "kernel_hostname got =
     Option.bind got (\<lambda>buf.
       let s = utf8_lossy (takeWhile (\<lambda>b. b \<noteq> 0) buf)
       in if s = [] \<or> s = byte_str ''(none)'' then None else Some s)"

definition status :: "('u, 's, 'sd) resolvd \<Rightarrow> instant \<Rightarrow> status_report" where
  "status d now =
     (let e = d_engine d; c = counters e in
      \<lparr>sr_hostname = (case hostname e of Some n \<Rightarrow> name_display n | None \<Rightarrow> []),
       sr_netd = netd_connected (d_netd d),
       sr_scopes = map (\<lambda>s.
         \<lparr>ss_interface = byte_str (sc_interface s),
          ss_servers = map ip_display (sc_servers s),
          ss_domains = map name_display (sc_domains s),
          ss_default_route = sc_default_route s, ss_exclusive = sc_exclusive s, ss_metric = sc_metric s,
          ss_subnets = map (\<lambda>(a, p). ip_display a @ 47 # dec_nat (unat p)) (sc_addresses s),
          ss_demoted = map ip_display (filter (\<lambda>a. is_demoted e a (sc_id s) now) (sc_servers s))\<rparr>) (scopes e),
       sr_fallback_servers = map ip_display (fallback_servers e),
       sr_cache_entries = word_of_nat (cache_entries e),
       sr_counters =
         \<lparr>wc_queries = c_queries c, wc_synthetic = c_synthetic c, wc_cache_hits = c_cache_hits c,
          wc_upstream_sent = c_upstream_sent c, wc_upstream_answered = c_upstream_answered c,
          wc_upstream_failed = c_upstream_failed c, wc_refused = c_refused c\<rparr>\<rparr>)"

section \<open>Configuration\<close>

text \<open>The derived equality of \<open>Config\<close>, on names that ignore case and a map without order.\<close>

definition config_eq :: "config \<Rightarrow> config \<Rightarrow> bool" where
  "config_eq a b \<longleftrightarrow>
     cf_servers a = cf_servers b \<and> list_all2 name_eq (cf_search a) (cf_search b) \<and>
     length (cf_hosts a) = length (cf_hosts b) \<and>
     list_all (\<lambda>(n, addrs). hm_get name_eq n (cf_hosts b) = Some addrs) (cf_hosts a) \<and>
     cf_control_security a = cf_control_security b"

definition apply_config ::
  "('u, 's, 'sd, 'tok) system \<Rightarrow> config \<Rightarrow> ('u, 's, 'sd) resolvd \<Rightarrow> ('u, 's, 'sd) resolvd" where
  "apply_config os fresh d =
     (if config_eq fresh (d_config d) then d
      else
        d\<lparr>d_control := control_new (os_validate os) (os_build os) (cf_control_security fresh),
          d_engine := set_hosts (cf_hosts fresh) (set_fallback (cf_servers fresh) (cf_search fresh) (d_engine d)),
          d_config := fresh\<rparr>)"

definition apply_snapshot ::
  "('u, 's, 'sd, 'tok) system \<Rightarrow> snapshot \<Rightarrow> ('u, 's, 'sd) resolvd \<Rightarrow> ('u, 's, 'sd) resolvd" where
  "apply_snapshot os snap d =
     (let h = (if sn_hostname snap = [] then kernel_hostname (os_gethostname os) else Some (sn_hostname snap))
      in d\<lparr>d_engine :=
           set_scopes (map (to_scope (os_nametoindex os)) (sn_scopes snap)) (set_hostname h (d_engine d))\<rparr>)"

section \<open>Carrying out what the engine asks for\<close>

definition daemon_reply ::
  "('u, 's, 'sd, 'tok) system \<Rightarrow> 's \<Rightarrow> reply \<Rightarrow> ('u, 's, 'sd) resolvd \<Rightarrow> ('u, 's, 'sd) resolvd" where
  "daemon_reply os stream rp d =
     (let (clock, d) = read_clock os d
      in d\<lparr>d_replies := snd (snd (enqueue (os_write os) stream (response_frame rp) clock (d_replies d)))\<rparr>)"

definition daemon_stub_answer ::
  "('u, 's, 'sd, 'tok) system \<Rightarrow> 's origin \<Rightarrow> answer \<Rightarrow> ('u, 's, 'sd) resolvd \<Rightarrow> ('u, 's, 'sd) resolvd" where
  "daemon_stub_answer os orig ans d =
     (let (clock, d) = read_clock os d; (sent, st) = stub_answer (os_write os) clock orig ans (d_stub d)
      in d\<lparr>d_stub := st, d_sent := d_sent d @ sent\<rparr>)"

definition deliver ::
  "('u, 's, 'sd, 'tok) system \<Rightarrow> qid \<Rightarrow> completion \<Rightarrow> ('u, 's, 'sd) resolvd \<Rightarrow> ('u, 's, 'sd) resolvd" where
  "deliver os q completion d =
     (case hm_get (=) q (d_waiters d) of
        None \<Rightarrow> d
      | Some w \<Rightarrow>
          let d = d\<lparr>d_waiters := hm_remove (=) q (d_waiters d)\<rparr> in
          (case (w, completion) of
             (WNative stream, CAnswer a) \<Rightarrow> daemon_reply os stream (RpAnswer (to_answer a)) d
           | (WNative stream, CAddresses a) \<Rightarrow> daemon_reply os stream (RpAddresses (to_addresses a)) d
           | (WStub orig, CAnswer a) \<Rightarrow> daemon_stub_answer os orig a d
           | (WStub orig, CAddresses a) \<Rightarrow> d))"

fun perform_action ::
  "('u, 's, 'sd, 'tok) system \<Rightarrow> instant \<Rightarrow> action \<Rightarrow> ('u, 's, 'sd) resolvd \<Rightarrow> (('u, 's, 'sd) resolvd \<times> action list) option" where
  "perform_action os now (Send tx server interface tcp payload) d =
     (case upstream_send (os_nametoindex os) (os_tcp_open os tx) (os_udp_open os tx) tx server
             (map_option byte_str interface) tcp payload (d_upstream d) of
        (Inr _, up) \<Rightarrow> Some (d\<lparr>d_upstream := up\<rparr>, [])
      | (Inl e, up) \<Rightarrow>
          map_option (\<lambda>(e', acts). (d\<lparr>d_upstream := up, d_engine := e'\<rparr>, acts))
            (if is_local_failure e then local_failed tx now (d_engine d) else failed tx now (d_engine d)))"
| "perform_action os now (Cancel tx) d = Some (d\<lparr>d_upstream := upstream_cancel tx (d_upstream d)\<rparr>, [])"
| "perform_action os now (Done q completion) d = Some (deliver os q completion d, [])"

fun perform_all ::
  "('u, 's, 'sd, 'tok) system \<Rightarrow> instant \<Rightarrow> action list \<Rightarrow> ('u, 's, 'sd) resolvd \<Rightarrow> (('u, 's, 'sd) resolvd \<times> action list) option" where
  "perform_all os now [] d = Some (d, [])"
| "perform_all os now (a # acts) d =
     (case perform_action os now a d of
        None \<Rightarrow> None
      | Some (d, fs) \<Rightarrow> map_option (\<lambda>(d, follow_ups). (d, fs @ follow_ups)) (perform_all os now acts d))"

text \<open>\<open>perform\<close> calls itself on the follow-ups; that this ends is a theorem.\<close>

partial_function (option) perform ::
  "('u, 's, 'sd, 'tok) system \<Rightarrow> instant \<Rightarrow> action list \<Rightarrow> ('u, 's, 'sd) resolvd \<Rightarrow> ('u, 's, 'sd) resolvd option" where
  "perform os now acts d =
     (case perform_all os now acts d of
        None \<Rightarrow> None
      | Some r \<Rightarrow> if snd r = [] then Some (fst r) else perform os now (snd r) (fst r))"

declare perform.simps [code]

section \<open>Questions\<close>

fun engine_family :: "wire_family \<Rightarrow> family" where
  "engine_family WAny = Any"
| "engine_family WV4 = FamV4"
| "engine_family WV6 = FamV6"

text \<open>A native question that the engine takes on: the engine's step, the waiter, and its actions.\<close>

definition ask_engine ::
  "('u, 's, 'sd, 'tok) system \<Rightarrow> instant \<Rightarrow> qid \<Rightarrow> 's waiter \<Rightarrow> result \<Rightarrow> ('u, 's, 'sd) resolvd \<Rightarrow> ('u, 's, 'sd) resolvd option" where
  "ask_engine os now q w res d =
     (case res of
        None \<Rightarrow> None
      | Some (e, acts) \<Rightarrow> perform os now acts (d\<lparr>d_engine := e, d_waiters := hm_insert (=) q w (d_waiters d)\<rparr>))"

definition handle_request ::
  "('u, 's, 'sd, 'tok) system \<Rightarrow> 's \<Rightarrow> request \<Rightarrow> instant \<Rightarrow> ('u, 's, 'sd) resolvd \<Rightarrow> ('u, 's, 'sd) resolvd option" where
  "handle_request os stream rq now d =
     (if \<not> permits (os_open_peer os) (os_check os) (d_control d) stream (required_right rq)
      then Some (daemon_reply os stream (RpError (byte_str ''access denied'')) d)
      else
        let (q, d) = daemon_fresh_id d; e = d_engine d in
        (case rq of
           RqStatus \<Rightarrow> Some (daemon_reply os stream (RpStatus (status d now)) d)
         | RqFlush \<Rightarrow> Some (daemon_reply os stream RpOk (d\<lparr>d_engine := flush e\<rparr>))
         | RqResolve name rtype no_cache \<Rightarrow> ask_engine os now q (WNative stream) (resolve q name rtype no_cache now e) d
         | RqLookup name fam \<Rightarrow> ask_engine os now q (WNative stream) (lookup_addresses q name (engine_family fam) now e) d
         | RqReverse address \<Rightarrow> ask_engine os now q (WNative stream) (reverse q address now e) d))"

fun origin_query :: "'s origin \<Rightarrow> message" where
  "origin_query (OUdp peer query) = query"
| "origin_query (OTcp stream query) = query"

fun over_capacity :: "(qid \<times> 's waiter) list \<Rightarrow> 's origin \<Rightarrow> bool" where
  "over_capacity ws (OUdp peer query) = (\<not> udp_has_capacity ws peer)"
| "over_capacity ws (OTcp stream query) = False"

definition count_refused :: "engine \<Rightarrow> engine" where
  "count_refused e = bump (\<lambda>c. c\<lparr>c_queries := c_queries c + 1, c_refused := c_refused c + 1\<rparr>) e"

fun handle_stub ::
  "('u, 's, 'sd, 'tok) system \<Rightarrow> 's incoming list \<Rightarrow> instant \<Rightarrow> ('u, 's, 'sd) resolvd \<Rightarrow> ('u, 's, 'sd) resolvd option" where
  "handle_stub os [] now d = Some d"
| "handle_stub os (INothing # incoming) now d = handle_stub os incoming now d"
| "handle_stub os (IQuery orig # incoming) now d =
     (case message_question (origin_query orig) of
        None \<Rightarrow> handle_stub os incoming now d
      | Some question \<Rightarrow>
          if over_capacity (d_waiters d) orig then
            handle_stub os incoming now
              (daemon_stub_answer os orig (default_answer\<lparr>a_outcome := Unavailable\<rparr>)
                (d\<lparr>d_engine := count_refused (d_engine d)\<rparr>))
          else
            let (q, d) = daemon_fresh_id d in
            Option.bind (ask_engine os now q (WStub orig) (resolve_question q question now (d_engine d)) d)
              (handle_stub os incoming now))"

section \<open>One turn of the loop\<close>

text \<open>
  What a \<open>poll\<close> reports, slot by slot with the returned events, and what the calls that follow get:
  the results of \<open>recv\<close>, \<open>read\<close> and \<open>accept\<close>, the registry, and the attempt to reach netd.
\<close>

record 's turn =
  tn_now :: instant
  tn_hangups :: "(qid \<times> u16) list"
  tn_upstream :: "(txid \<times> u16 \<times> bool \<times> (io_error + bytes) \<times> (io_error + bytes)) list"
  tn_replies :: "(nat \<times> u16) list"
  tn_stub_replies :: "(nat \<times> u16) list"
  tn_udp :: "u16 \<times> (io_error + (bytes \<times> socket_addr)) list"
  tn_tcp :: "u16 \<times> (io_error + ('s \<times> socket_addr \<times> bool)) list"
  tn_stub_clients :: "(nat \<times> u16 \<times> (io_error + bytes) list) list"
  tn_native :: "u16 \<times> (io_error + ('s \<times> bool)) list"
  tn_clients :: "(nat \<times> u16 \<times> arrivals) list"
  tn_netd :: "(u16 \<times> arrivals) option"
  tn_snapshot :: "bytes \<Rightarrow> snapshot netd_reply option"
  tn_watch :: "(u16 \<times> (io_error + bool) \<times> (io_error + registry option) \<times> bool) option"
  tn_connect :: "io_error + 's"

text \<open>A \<open>for\<close> loop whose body may panic.\<close>

fun for_each :: "('a \<Rightarrow> 'd \<Rightarrow> 'd option) \<Rightarrow> 'a list \<Rightarrow> 'd \<Rightarrow> 'd option" where
  "for_each f [] d = Some d"
| "for_each f (x # xs) d = Option.bind (f x d) (for_each f xs)"

definition hangup_step ::
  "('u, 's, 'sd, 'tok) system \<Rightarrow> instant \<Rightarrow> qid \<times> u16 \<Rightarrow> ('u, 's, 'sd) resolvd \<Rightarrow> ('u, 's, 'sd) resolvd option" where
  "hangup_step os now slot d =
     (case slot of (q, revents) \<Rightarrow>
        if revents AND (POLLHUP OR POLLERR OR POLLNVAL) \<noteq> 0 \<and> hm_get (=) q (d_waiters d) \<noteq> None then
          let (e, acts) = abandon q (d_engine d)
          in perform os now acts (d\<lparr>d_waiters := hm_remove (=) q (d_waiters d), d_engine := e\<rparr>)
        else Some d)"

definition upstream_step ::
  "('u, 's, 'sd, 'tok) system \<Rightarrow> instant \<Rightarrow> txid \<times> u16 \<times> bool \<times> (io_error + bytes) \<times> (io_error + bytes) \<Rightarrow>
   ('u, 's, 'sd) resolvd \<Rightarrow> ('u, 's, 'sd) resolvd option" where
  "upstream_step os now slot d =
     (case slot of (tx, revents, take_error, recv, rd) \<Rightarrow>
        if revents = 0 then Some d
        else
          (case upstream_service (os_write os) take_error recv rd tx revents
                  (response_matches (d_engine d) tx) (d_upstream d) of
             None \<Rightarrow> None
           | Some (None, up) \<Rightarrow> Some (d\<lparr>d_upstream := up\<rparr>)
           | Some (Some ev, up) \<Rightarrow>
               (case (case ev of
                        Received b \<Rightarrow> received tx b now (d_engine d)
                      | Failed \<Rightarrow> failed tx now (d_engine d)) of
                  None \<Rightarrow> None
                | Some (e, acts) \<Rightarrow> perform os now acts (d\<lparr>d_upstream := up, d_engine := e\<rparr>))))"

definition reply_step ::
  "('u, 's, 'sd, 'tok) system \<Rightarrow> nat \<times> u16 \<Rightarrow> ('u, 's, 'sd) resolvd \<Rightarrow> ('u, 's, 'sd) resolvd option" where
  "reply_step os slot d =
     (case slot of (i, revents) \<Rightarrow>
        if revents \<noteq> 0 then
          let (clock, d) = read_clock os d in
          map_option (\<lambda>(r, closed, q). d\<lparr>d_replies := q\<rparr>) (service_reply (os_write os) i clock (d_replies d))
        else Some d)"

definition stub_reply_step ::
  "('u, 's, 'sd, 'tok) system \<Rightarrow> nat \<times> u16 \<Rightarrow> ('u, 's, 'sd) resolvd \<Rightarrow> ('u, 's, 'sd) resolvd option" where
  "stub_reply_step os slot d =
     (case slot of (i, revents) \<Rightarrow>
        if revents \<noteq> 0 then
          let (clock, d) = read_clock os d in
          map_option (\<lambda>st. d\<lparr>d_stub := st\<rparr>) (stub_service_reply (os_write os) i clock (d_stub d))
        else Some d)"

definition udp_step ::
  "('u, 's, 'sd, 'tok) system \<Rightarrow> instant \<Rightarrow> u16 \<times> (io_error + (bytes \<times> socket_addr)) list \<Rightarrow>
   ('u, 's, 'sd) resolvd \<Rightarrow> ('u, 's, 'sd) resolvd option" where
  "udp_step os now input d =
     (if fst input \<noteq> 0 then
        let (incoming, sent) = receive_udp (snd input)
        in handle_stub os incoming now (d\<lparr>d_sent := d_sent d @ sent\<rparr>)
      else Some d)"

definition is_tcp_waiter :: "'s waiter \<Rightarrow> bool" where
  "is_tcp_waiter w = (case w of WStub (OTcp stream query) \<Rightarrow> True | _ \<Rightarrow> False)"

definition is_native_waiter :: "'s waiter \<Rightarrow> bool" where
  "is_native_waiter w = (case w of WNative stream \<Rightarrow> True | _ \<Rightarrow> False)"

definition tcp_accept_step ::
  "('u, 's, 'sd, 'tok) system \<Rightarrow> instant \<Rightarrow> u16 \<times> (io_error + ('s \<times> socket_addr \<times> bool)) list \<Rightarrow>
   ('u, 's, 'sd) resolvd \<Rightarrow> ('u, 's, 'sd) resolvd" where
  "tcp_accept_step os now input d =
     (if fst input \<noteq> 0 then
        let pending = count_waiters is_tcp_waiter (d_waiters d); (clock, d) = read_clock os d
        in d\<lparr>d_stub := stub_accept clock now (MAX_PENDING_CLIENTS - pending) (snd input) (d_stub d)\<rparr>
      else d)"

definition stub_client_step ::
  "('u, 's, 'sd, 'tok) system \<Rightarrow> instant \<Rightarrow> nat \<times> u16 \<times> (io_error + bytes) list \<Rightarrow>
   ('u, 's, 'sd) resolvd \<Rightarrow> ('u, 's, 'sd) resolvd option" where
  "stub_client_step os now slot d =
     (case slot of (i, revents, arrived) \<Rightarrow>
        if revents \<noteq> 0 then
          let (clock, d) = read_clock os d in
          (case service_client (os_write os) clock arrived i (d_stub d) of
             (Some incoming, st) \<Rightarrow> handle_stub os [incoming] now (d\<lparr>d_stub := st\<rparr>)
           | (None, st) \<Rightarrow> Some (d\<lparr>d_stub := st\<rparr>))
        else Some d)"

fun native_accept_loop ::
  "('u, 's, 'sd, 'tok) system \<Rightarrow> nat \<Rightarrow> instant \<Rightarrow> nat \<Rightarrow> (io_error + ('s \<times> bool)) list \<Rightarrow>
   ('u, 's, 'sd) resolvd \<Rightarrow> ('u, 's, 'sd) resolvd" where
  "native_accept_loop os 0 now pending inputs d = d"
| "native_accept_loop os (Suc n) now pending [] d = d"
| "native_accept_loop os (Suc n) now pending (Inl e # inputs) d =
     (if e = WouldBlock then d
      else if e = Interrupted then native_accept_loop os n now pending inputs d
      else
        let (clock, d) = read_clock os d
        in d\<lparr>d_accept_backoff := backoff_failed clock (d_accept_backoff d)\<rparr>)"
| "native_accept_loop os (Suc n) now pending (Inr (stream, nonblocking) # inputs) d =
     (if length (d_clients d) + pending \<ge> MAX_PENDING_CLIENTS then native_accept_loop os n now pending inputs d
      else
        (case client_new stream nonblocking now of
           None \<Rightarrow> native_accept_loop os n now pending inputs d
         | Some c \<Rightarrow>
             let (i, d) = daemon_fresh_id d
             in native_accept_loop os n now pending inputs (d\<lparr>d_clients := hm_insert (=) i c (d_clients d)\<rparr>)))"

definition native_accept_step ::
  "('u, 's, 'sd, 'tok) system \<Rightarrow> instant \<Rightarrow> u16 \<times> (io_error + ('s \<times> bool)) list \<Rightarrow>
   ('u, 's, 'sd) resolvd \<Rightarrow> ('u, 's, 'sd) resolvd" where
  "native_accept_step os now input d =
     (if fst input \<noteq> 0 then
        native_accept_loop os IO_BATCH_LIMIT now (count_waiters is_native_waiter (d_waiters d)) (snd input) d
      else d)"

definition client_step ::
  "('u, 's, 'sd, 'tok) system \<Rightarrow> instant \<Rightarrow> nat \<times> u16 \<times> arrivals \<Rightarrow> ('u, 's, 'sd) resolvd \<Rightarrow> ('u, 's, 'sd) resolvd option" where
  "client_step os now slot d =
     (case slot of (i, revents, arrived) \<Rightarrow>
        if revents = 0 then Some d
        else
          (case hm_get (=) i (d_clients d) of
             None \<Rightarrow> Some d
           | Some c \<Rightarrow>
               (case client_read (os_text os) arrived (cl_buf c) of
                  None \<Rightarrow> None
                | Some (p, buf, rest) \<Rightarrow>
                    let gone = d\<lparr>d_clients := hm_remove (=) i (d_clients d)\<rparr> in
                    (case p of
                       PIncomplete \<Rightarrow> Some (d\<lparr>d_clients := hm_insert (=) i (c\<lparr>cl_buf := buf\<rparr>) (d_clients d)\<rparr>)
                     | PClosed \<Rightarrow> Some gone
                     | PReply rp \<Rightarrow> Some (daemon_reply os (cl_stream c) rp gone)
                     | PRequest rq \<Rightarrow> handle_request os (cl_stream c) rq now gone))))"

definition netd_step ::
  "('u, 's, 'sd, 'tok) system \<Rightarrow> (bytes \<Rightarrow> snapshot netd_reply option) \<Rightarrow> instant \<Rightarrow> (u16 \<times> arrivals) option \<Rightarrow>
   ('u, 's, 'sd) resolvd \<Rightarrow> ('u, 's, 'sd) resolvd" where
  "netd_step os dec now slot d =
     (case slot of
        Some (revents, arrived) \<Rightarrow>
          if revents \<noteq> 0 then
            let (snapshots, l) = netd_service dec arrived now (d_netd d)
            in fold (apply_snapshot os) snapshots (d\<lparr>d_netd := l\<rparr>)
          else d
      | None \<Rightarrow> d)"

text \<open>The watch: whether there were events, the registry as \<open>load\<close> opens it, and whether a new watch can be armed.\<close>

definition watch_step ::
  "('u, 's, 'sd, 'tok) system \<Rightarrow> (u16 \<times> (io_error + bool) \<times> (io_error + registry option) \<times> bool) option \<Rightarrow>
   ('u, 's, 'sd) resolvd \<Rightarrow> ('u, 's, 'sd) resolvd" where
  "watch_step os slot d =
     (case slot of
        Some (revents, events, opened, rearmed) \<Rightarrow>
          if revents \<noteq> 0 \<and> d_watch d then
            (case events of
               Inr True \<Rightarrow>
                 (case and_then opened load_from of
                    Inr fresh \<Rightarrow> apply_config os fresh d
                  | Inl e \<Rightarrow> d)
             | Inr False \<Rightarrow> d
             | Inl e \<Rightarrow> d\<lparr>d_watch := rearmed\<rparr>)
          else d
      | None \<Rightarrow> d)"

definition timers_step ::
  "('u, 's, 'sd, 'tok) system \<Rightarrow> instant \<Rightarrow> io_error + 's \<Rightarrow> ('u, 's, 'sd) resolvd \<Rightarrow> ('u, 's, 'sd) resolvd option" where
  "timers_step os now connect d =
     (case tick now (d_engine d) of
        None \<Rightarrow> None
      | Some (e, acts) \<Rightarrow>
          map_option (\<lambda>d.
            d\<lparr>d_netd := maintain connect now (d_netd d),
              d_stub := expire_stub now (d_stub d),
              d_replies := snd (snd (expire_replies now (d_replies d))),
              d_clients := filter (\<lambda>(i, c). now - cl_since c < CLIENT_TIMEOUT) (d_clients d)\<rparr>)
            (perform os now acts (d\<lparr>d_engine := e\<rparr>)))"

definition daemon_turn ::
  "('u, 's, 'sd, 'tok) system \<Rightarrow> 's turn \<Rightarrow> ('u, 's, 'sd) resolvd \<Rightarrow> ('u, 's, 'sd) resolvd option" where
  "daemon_turn os tn d =
     (let now = tn_now tn in
      Option.bind (for_each (hangup_step os now) (tn_hangups tn) d) (\<lambda>d.
      Option.bind (for_each (upstream_step os now) (tn_upstream tn) d) (\<lambda>d.
      Option.bind (for_each (reply_step os) (tn_replies tn) d) (\<lambda>d.
      Option.bind (for_each (stub_reply_step os) (tn_stub_replies tn) d) (\<lambda>d.
      Option.bind (udp_step os now (tn_udp tn) d) (\<lambda>d.
      Option.bind (for_each (stub_client_step os now) (tn_stub_clients tn) (tcp_accept_step os now (tn_tcp tn) d)) (\<lambda>d.
      Option.bind (for_each (client_step os now) (tn_clients tn) (native_accept_step os now (tn_native tn) d)) (\<lambda>d.
      timers_step os now (tn_connect tn)
        (watch_step os (tn_watch tn) (netd_step os (tn_snapshot tn) now (tn_netd tn) d))))))))))"

section \<open>Start, waiting and the loop\<close>

definition daemon_start ::
  "('u, 's, 'sd, 'tok) system \<Rightarrow> (nat \<Rightarrow> bytes option) \<Rightarrow> config \<Rightarrow> bool \<Rightarrow> io_error + 's \<Rightarrow> instant \<Rightarrow> ('u, 's, 'sd) resolvd" where
  "daemon_start os ent cfg watch connect now =
     \<lparr>d_engine = set_hosts (cf_hosts cfg) (set_fallback (cf_servers cfg) (cf_search cfg)
        (set_hostname (kernel_hostname (os_gethostname os)) (with_entropy ent))),
      d_config = cfg,
      d_control = control_new (os_validate os) (os_build os) (cf_control_security cfg),
      d_upstream = upstream_new, d_stub = stub_open, d_netd = maintain connect now (netd_new now),
      d_clients = [], d_replies = replies_new, d_waiters = [], d_next_id = 1,
      d_accept_backoff = backoff_new, d_watch = watch, d_sent = [], d_reads = 0\<rparr>"

definition poll_deadlines :: "instant \<Rightarrow> ('u, 's, 'sd) resolvd \<Rightarrow> instant list" where
  "poll_deadlines now d =
     concat (map (\<lambda>t. case t of Some t \<Rightarrow> [t] | None \<Rightarrow> [])
       [next_deadline (d_engine d), netd_deadline (d_netd d), stub_deadline now (d_stub d),
        replies_deadline (d_replies d), backoff_deadline now (d_accept_backoff d),
        min_opt (map (\<lambda>(i, c). cl_since c + CLIENT_TIMEOUT) (d_clients d))])"

text \<open>The timeout handed to \<open>poll\<close>, in milliseconds; an instant counts nanoseconds.\<close>

definition poll_timeout :: "instant \<Rightarrow> ('u, 's, 'sd) resolvd \<Rightarrow> int" where
  "poll_timeout now d =
     (case min_opt (poll_deadlines now d) of
        Some t \<Rightarrow> int (min ((t - now) div 1000000) 2147483647)
      | None \<Rightarrow> -1)"

text \<open>The descriptors of the three listening sockets and of the watch, and the poll set over all of them.\<close>

definition poll_set ::
  "('u, 's, 'sd, 'tok) system \<Rightarrow> int \<times> nat \<times> int \<times> nat \<Rightarrow> instant \<Rightarrow> ('u, 's, 'sd) resolvd \<Rightarrow> (int \<times> u16) list" where
  "poll_set os fds now d =
     (case fds of (listener, udp, tcp, watch) \<Rightarrow>
        [(backoff_poll_fd listener now (d_accept_backoff d), POLLIN), (int udp, POLLIN),
         (listener_fd tcp now (d_stub d), POLLIN)]
        @ (case netd_fd (os_fd os) (d_netd d) of Some fd \<Rightarrow> [(int fd, POLLIN)] | None \<Rightarrow> [])
        @ (if d_watch d then [(int watch, POLLIN)] else [])
        @ map (\<lambda>(i, c). (int (os_fd os (cl_stream c)), POLLIN)) (d_clients d)
        @ map (\<lambda>(i, fd). (int fd, POLLIN)) (client_fds (os_fd os) (d_stub d))
        @ map (\<lambda>(i, fd). (int fd, POLLOUT)) (reply_fds (os_fd os) (d_replies d))
        @ map (\<lambda>(i, fd). (int fd, POLLOUT)) (reply_fds (os_fd os) (sb_replies (d_stub d)))
        @ List.map_filter (\<lambda>(q, w). map_option (\<lambda>fd. (int fd, 0)) (stream_fd (os_fd os) w)) (d_waiters d)
        @ map (\<lambda>(tx, fd, ev). (int fd, ev)) (upstream_fds (os_udp_fd os) (os_fd os) (d_upstream d)))"

text \<open>
  The loop over the results of successive polls, each with the system as it then is. An interrupted
  poll is repeated; any other error ends the program, which the flag of the result says.
\<close>

fun daemon_run ::
  "(io_error + ('u, 's, 'sd, 'tok) system \<times> 's turn) list \<Rightarrow> ('u, 's, 'sd) resolvd \<Rightarrow> (bool \<times> ('u, 's, 'sd) resolvd) option" where
  "daemon_run [] d = Some (True, d)"
| "daemon_run (Inl e # polls) d = (if e = Interrupted then daemon_run polls d else Some (False, d))"
| "daemon_run (Inr (os, tn) # polls) d = Option.bind (daemon_turn os tn d) (daemon_run polls)"

end
