(* ===== verification/Daemon_Invariant.thy ===== *)
theory Daemon_Invariant
  imports Daemon
begin

text \<open>
  The invariant of the daemon's state: one socket per live transaction, one waiter per open
  question, the bounds of admission, and streams that carry nothing but their reply. Every step
  keeps it and none panics, whatever the operating system answers; in particular \<open>perform\<close> ends.
\<close>

section \<open>Maps of the daemon\<close>

definition keyset :: "('k \<times> 'v) list \<Rightarrow> 'k set" where
  "keyset xs = fst ` set xs"

lemma keyset_simps [simp]: "keyset [] = {}" "keyset (x # xs) = insert (fst x) (keyset xs)"
  by (simp_all add: keyset_def)

lemma in_keyset: "(k, v) \<in> set xs \<Longrightarrow> k \<in> keyset xs"
  by (force simp: keyset_def)

lemma get_none: "hm_get (=) k xs = None \<longleftrightarrow> k \<notin> keyset xs"
  by (induction xs) (auto split: if_splits)

lemma keyset_insert [simp]: "keyset (hm_insert (=) k v xs) = insert k (keyset xs)"
proof (induction xs)
  case (Cons x xs)
  then show ?case by (cases x) (simp add: insert_commute)
qed simp

lemma keyset_remove [simp]: "keyset (hm_remove (=) k xs) = keyset xs - {k}"
proof (induction xs)
  case (Cons x xs)
  then show ?case by (cases x) (simp add: hm_remove_def insert_Diff_if)
qed (simp add: hm_remove_def)

lemma insert_new: "k \<notin> keyset xs \<Longrightarrow> hm_insert (=) k v xs = xs @ [(k, v)]"
proof (induction xs)
  case (Cons x xs)
  then show ?case by (cases x) simp
qed simp

lemma count_new [simp]:
  "q \<notin> keyset ws \<Longrightarrow> count_waiters P (hm_insert (=) q w ws) = count_waiters P ws + of_bool (P w)"
  by (simp add: count_waiters_def insert_new)

lemma count_remove: "count_waiters P (hm_remove (=) q ws) \<le> count_waiters P ws"
  by (induction ws) (auto simp: count_waiters_def hm_remove_def)

section \<open>The invariant\<close>

definition up_keys :: "('u, 's) upstream \<Rightarrow> txid set" where
  "up_keys up = keyset (up_udp up) \<union> keyset (up_tcp up)"

definition socks_ok :: "('s \<Rightarrow> bytes) \<Rightarrow> ('u, 's) upstream \<Rightarrow> bool" where
  "socks_ok out up \<longleftrightarrow>
     hm_wf (=) (up_udp up) \<and> hm_wf (=) (up_tcp up) \<and>
     keyset (up_udp up) \<inter> keyset (up_tcp up) = {} \<and> upstream_ok out up"

text \<open>
  The engine against the sockets and the waiters, while the actions \<open>acts\<close> are still to be carried
  out: when none is left, there is one socket per live transaction and one waiter per open question.
\<close>

definition work_ok :: "('s \<Rightarrow> bytes) \<Rightarrow> action list \<Rightarrow> ('u, 's, 'sd) resolvd \<Rightarrow> bool" where
  "work_ok out acts d \<longleftrightarrow>
     engine_ok {} (d_engine d) \<and> socks_ok out (d_upstream d) \<and> distinct (sents acts) \<and>
     set (sents acts) \<inter> (up_keys (d_upstream d) \<union> set (cancels acts)) = {} \<and>
     live (d_engine d) = up_keys (d_upstream d) \<union> set (sents acts) - set (cancels acts) \<and>
     (\<forall>x \<in> up_keys (d_upstream d) \<union> set (sents acts) \<union> set (cancels acts). x < next_id (d_engine d)) \<and>
     hm_wf (=) (d_waiters d) \<and> distinct (dones acts) \<and> set (dones acts) \<inter> opens (d_engine d) = {} \<and>
     keyset (d_waiters d) = opens (d_engine d) \<union> set (dones acts)"

text \<open>How many readers and waiting questions each door holds.\<close>

definition admitted :: "('u, 's, 'sd) resolvd \<Rightarrow> bool" where
  "admitted d \<longleftrightarrow>
     length (d_clients d) + count_waiters is_native_waiter (d_waiters d) \<le> MAX_PENDING_CLIENTS \<and>
     length (sb_clients (d_stub d)) + count_waiters is_tcp_waiter (d_waiters d) \<le> MAX_PENDING_CLIENTS \<and>
     count_waiters (\<lambda>w. udp_peer w \<noteq> None) (d_waiters d) \<le> MAX_PENDING_UDP \<and>
     (\<forall>peer. count_waiters (\<lambda>w. udp_peer w = Some peer) (d_waiters d) \<le> MAX_PENDING_UDP_PER_PEER)"

fun waiter_stream :: "'s waiter \<Rightarrow> 's option" where
  "waiter_stream (WNative s) = Some s"
| "waiter_stream (WStub (OTcp s query)) = Some s"
| "waiter_stream (WStub (OUdp peer query)) = None"

text \<open>A stream that still waits for its request or its answer has carried nothing yet.\<close>

definition waiters_ok :: "('s \<Rightarrow> bytes) \<Rightarrow> nat \<Rightarrow> (qid \<times> 's waiter) list \<Rightarrow> bool" where
  "waiters_ok out n ws \<longleftrightarrow> (\<forall>(q, w) \<in> set ws. q < n \<and> (\<forall>s. waiter_stream w = Some s \<longrightarrow> out s = []))"

definition clients_ok :: "('s \<Rightarrow> bytes) \<Rightarrow> nat \<Rightarrow> (nat \<times> 's client) list \<Rightarrow> bool" where
  "clients_ok out n cs \<longleftrightarrow>
     hm_wf (=) cs \<and> (\<forall>(i, c) \<in> set cs. i < n \<and> buf_ok (cl_buf c) \<and> out (cl_stream c) = [])"

definition stub_ok :: "('s \<Rightarrow> bytes) \<Rightarrow> 's stub \<Rightarrow> bool" where
  "stub_ok out st \<longleftrightarrow>
     queue_ok out (sb_replies st, []) \<and> hm_wf (=) (sb_clients st) \<and>
     (\<forall>(i, c) \<in> set (sb_clients st). i < sb_next_client st \<and> out (tc_stream c) = [])"

definition doors_ok :: "('s \<Rightarrow> bytes) \<Rightarrow> ('u, 's, 'sd) resolvd \<Rightarrow> bool" where
  "doors_ok out d \<longleftrightarrow>
     queue_ok out (d_replies d, []) \<and> stub_ok out (d_stub d) \<and> clients_ok out (d_next_id d) (d_clients d) \<and>
     waiters_ok out (d_next_id d) (d_waiters d) \<and> link_ok (d_netd d) \<and> admitted d"

definition daemon_inv :: "('s \<Rightarrow> bytes) \<Rightarrow> action list \<Rightarrow> ('u, 's, 'sd) resolvd \<Rightarrow> bool" where
  "daemon_inv out acts d \<longleftrightarrow> work_ok out acts d \<and> doors_ok out d"

section \<open>Sending\<close>

lemma send_error: "upstream_send ni tcp_open udp_open tx server i tcp payload up = (Inl e, up') \<Longrightarrow> up' = up"
  by (auto simp: upstream_send_def Let_def split: sum.splits if_splits)

lemma send_sockets:
  assumes "upstream_send ni tcp_open udp_open tx server i tcp payload up = (Inr u, up')"
    and "socks_ok out up" "tx \<notin> up_keys up" "\<And>a s. tcp_open a = Inr s \<Longrightarrow> out s = []"
  shows "socks_ok out up' \<and> up_keys up' = insert tx (up_keys up)"
proof -
  have keep: "up_tcp_ok out \<lparr>ut_stream = s, ut_state = Sending frame 0\<rparr>" if "tcp_open a = Inr s" for a s frame
    using assms(4) [OF that] by (simp add: up_tcp_ok_def)
  show ?thesis
    using assms(1-3) keep
    by (auto simp: upstream_send_def Let_def socks_ok_def up_keys_def upstream_ok_def ids.wf_insert
        split: sum.splits if_splits dest!: ids.insert_keys)
qed

lemma set_remove: "set (hm_remove (=) k xs) \<subseteq> set xs"
  by (auto simp: hm_remove_def)

lemma cancel_sockets:
  assumes "socks_ok out up"
  shows "socks_ok out (upstream_cancel tx up) \<and> up_keys (upstream_cancel tx up) = up_keys up - {tx}"
proof -
  have "upstream_ok out (upstream_cancel tx up)"
    using assms set_remove [of tx "up_tcp up"] unfolding socks_ok_def upstream_ok_def upstream_cancel_def by auto
  then show ?thesis
    using assms unfolding socks_ok_def up_keys_def by (simp add: upstream_cancel_def ids.wf_remove) blast
qed
section \<open>Queues\<close>

context nonblocking_stream
begin

lemma enqueue_queue:
  assumes "queue_ok out (q, [])" "out s = []"
  shows "queue_ok out (snd (snd (enqueue wr s frame now q)), [])"
  using enqueue_ok [OF assms, of frame now]
  by (auto simp: queue_ok_def split: prod.splits option.splits)

lemma service_queue:
  assumes "queue_ok out (q, [])"
  shows "\<exists>r. service_reply wr i now q = Some r \<and> queue_ok out (snd (snd r), [])"
proof (cases "hm_get (=) i (rp_pending q)")
  case None
  then show ?thesis using assms by (simp add: service_reply_def)
next
  case (Some p)
  obtain st where st: "q_step wr (Service i now) (q, []) = Some st" "queue_ok out st"
    using service_ok [OF assms, of i now] by blast
  show ?thesis
    using st Some by (auto simp: queue_ok_def split: prod.splits option.splits)
qed

end

lemma expire_queue: "queue_ok out (q, []) \<Longrightarrow> queue_ok out (snd (snd (expire_replies now q)), [])"
  using le_trans [OF length_filter_le] by (auto simp: queue_ok_def expire_replies_def Let_def ids.wf_filter)

section \<open>Carrying out actions\<close>

text \<open>A transaction that could not be sent is over, and its follow-ups join what is left to do.\<close>

lemma ended_work:
  assumes wk: "work_ok out (Send x server i tcp payload # acts) d" and en: "ended x (d_engine d) e' fs"
  shows "work_ok out (acts @ fs) (d\<lparr>d_engine := e'\<rparr>)"
proof -
  let ?K = "up_keys (d_upstream d)" and ?S = "set (sents acts)" and ?C = "set (cancels acts)"
  have old: "x \<notin> ?K" "x \<notin> ?S" "x \<notin> ?C" "distinct (sents acts)" "?S \<inter> ?K = {}" "?S \<inter> ?C = {}"
    "live (d_engine d) = insert x (?K \<union> ?S) - ?C" "\<forall>y \<in> ?K \<union> ?S \<union> ?C. y < next_id (d_engine d)"
    using wk by (auto simp: work_ok_def)
  have new: "engine_ok {} e'" "distinct (sents fs)" "cancels fs = []" "live e' = live (d_engine d) - {x} \<union> set (sents fs)"
    "next_id (d_engine d) \<le> next_id e'" "\<forall>y \<in> set (sents fs). next_id (d_engine d) \<le> y \<and> y < next_id e'"
    using en by (auto simp: ended_def)
  have "y \<notin> ?K \<union> ?S \<union> ?C" if "y \<in> set (sents fs)" for y using old(8) new(6) that by (meson linorder_not_less)
  then have apart: "set (sents fs) \<inter> ?K = {}" "set (sents fs) \<inter> ?S = {}" "set (sents fs) \<inter> ?C = {}" by auto
  have "live e' = ?K \<union> (?S \<union> set (sents fs)) - ?C" using old new(4) apart by blast
  moreover have "\<forall>y \<in> ?K \<union> (?S \<union> set (sents fs)) \<union> ?C. y < next_id e'" using old(8) new(5,6) by (meson Un_iff order_less_le_trans)
  moreover have "distinct (dones (acts @ fs)) \<and> set (dones (acts @ fs)) \<inter> opens e' = {} \<and>
      keyset (d_waiters d) = opens e' \<union> set (dones (acts @ fs))"
    using wk en unfolding work_ok_def ended_def serves_def by (simp only: action_lists_append action_lists) auto
  ultimately show ?thesis
    using wk old new apart unfolding work_ok_def by (simp add: Int_Un_distrib Int_Un_distrib2 Int_commute)
qed

locale daemon_os = nonblocking_stream "os_write os" out
  for os :: "('u, 's, 'sd, 'tok) system" and out :: "'s \<Rightarrow> bytes" +
  assumes tcp_fresh: "os_tcp_open os tx addr = Inr s \<Longrightarrow> out s = []"
begin

lemma reply_doors:
  assumes "doors_ok out d" "out s = []"
  shows "doors_ok out (daemon_reply os s rp d)"
  using assms enqueue_queue [OF _ assms(2)]
  by (simp add: doors_ok_def daemon_reply_def read_clock_def admitted_def)

lemma reply_work: "work_ok out acts (daemon_reply os s rp d) \<longleftrightarrow> work_ok out acts d"
  by (simp add: work_ok_def daemon_reply_def read_clock_def)

lemma stub_answer_facts:
  assumes "stub_ok out st" "\<forall>s query. orig = OTcp s query \<longrightarrow> out s = []"
    "stub_answer (os_write os) clock orig ans st = (sent, st')"
  shows "stub_ok out st' \<and> sb_clients st' = sb_clients st"
proof (cases orig)
  case (OUdp peer query)
  then show ?thesis using assms by (auto simp: stub_answer_def split: sum.splits)
next
  case (OTcp s query)
  then have "queue_ok out (snd (snd (enqueue (os_write os) s frame clock (sb_replies st))), [])" for frame
    using enqueue_queue assms(1,2) by (simp add: stub_ok_def)
  then show ?thesis using assms OTcp by (auto simp: stub_answer_def send_tcp_def stub_ok_def Let_def split: sum.splits)
qed

lemma stub_answer_doors:
  assumes "doors_ok out d" "\<forall>s query. orig = OTcp s query \<longrightarrow> out s = []"
  shows "doors_ok out (daemon_stub_answer os orig ans d)"
proof -
  let ?c = "os_clock os (d_reads d)"
  obtain sent st where st: "stub_answer (os_write os) ?c orig ans (d_stub d) = (sent, st)" by force
  have "stub_ok out st \<and> sb_clients st = sb_clients (d_stub d)"
    using assms stub_answer_facts [OF _ assms(2) st] by (simp add: doors_ok_def)
  then show ?thesis
    using assms(1) st by (simp add: doors_ok_def daemon_stub_answer_def read_clock_def admitted_def)
qed

lemma stub_answer_work: "work_ok out acts (daemon_stub_answer os orig ans d) \<longleftrightarrow> work_ok out acts d"
  by (simp add: work_ok_def daemon_stub_answer_def read_clock_def split: prod.split)

lemma remove_waiter_doors:
  assumes "doors_ok out d"
  shows "doors_ok out (d\<lparr>d_waiters := hm_remove (=) q (d_waiters d)\<rparr>)"
proof -
  have "waiters_ok out (d_next_id d) (hm_remove (=) q (d_waiters d))"
    using assms set_remove [of q "d_waiters d"] unfolding doors_ok_def waiters_ok_def by blast
  moreover have "admitted (d\<lparr>d_waiters := hm_remove (=) q (d_waiters d)\<rparr>)"
    using assms count_remove [of _ q "d_waiters d"] unfolding doors_ok_def admitted_def
    by (simp del: not_None_eq) (meson add_left_mono order_trans)
  ultimately show ?thesis using assms by (simp add: doors_ok_def)
qed

lemma deliver_inv:
  assumes inv: "daemon_inv out (Done q c # acts) d"
  shows "daemon_inv out acts (deliver os q c d)"
proof -
  have wk: "work_ok out (Done q c # acts) d" and dr: "doors_ok out d" using inv by (auto simp: daemon_inv_def)
  have "q \<in> keyset (d_waiters d)" using wk by (simp add: work_ok_def)
  then obtain w where w: "hm_get (=) q (d_waiters d) = Some w" using get_none [of q "d_waiters d"] by auto
  let ?d = "d\<lparr>d_waiters := hm_remove (=) q (d_waiters d)\<rparr>"
  have wk': "work_ok out acts ?d" using wk by (auto simp: work_ok_def ids.wf_remove)
  have dr': "doors_ok out ?d" using remove_waiter_doors [OF dr] .
  have s: "\<forall>s. waiter_stream w = Some s \<longrightarrow> out s = []"
    using dr ids.get_in_set [OF w] by (auto simp: doors_ok_def waiters_ok_def)
  have o: "\<forall>s query. orig = OTcp s query \<longrightarrow> out s = []" if "w = WStub orig" for orig using s that by auto
  show ?thesis
    using w wk' dr' s o
    by (cases w; cases c)
      (simp_all add: deliver_def daemon_inv_def reply_doors reply_work stub_answer_doors stub_answer_work)
qed

lemma send_inv:
  assumes inv: "daemon_inv out (Send x server i tcp payload # acts) d"
  shows "\<exists>d' fs. perform_action os now (Send x server i tcp payload) d = Some (d', fs) \<and>
    daemon_inv out (acts @ fs) d' \<and> energy (d_engine d') \<le> energy (d_engine d) \<and>
    (fs \<noteq> [] \<longrightarrow> energy (d_engine d') < energy (d_engine d))"
proof -
  have wk: "work_ok out (Send x server i tcp payload # acts) d" and dr: "doors_ok out d"
    using inv by (auto simp: daemon_inv_def)
  have x: "x \<notin> up_keys (d_upstream d)" "x \<in> live (d_engine d)" and ok: "engine_ok {} (d_engine d)"
    using wk by (auto simp: work_ok_def)
  obtain r up where r: "upstream_send (os_nametoindex os) (os_tcp_open os x) (os_udp_open os x) x server
      (map_option byte_str i) tcp payload (d_upstream d) = (r, up)" by force
  show ?thesis
  proof (cases r)
    case (Inr u)
    have "socks_ok out up \<and> up_keys up = insert x (up_keys (d_upstream d))"
      by (rule send_sockets [OF r [unfolded Inr]]) (use wk x tcp_fresh in \<open>auto simp: work_ok_def\<close>)
    then have "work_ok out acts (d\<lparr>d_upstream := up\<rparr>)" using wk by (auto simp: work_ok_def)
    moreover have "doors_ok out (d\<lparr>d_upstream := up\<rparr>)" using dr by (simp add: doors_ok_def admitted_def)
    ultimately show ?thesis using r Inr by (simp add: daemon_inv_def)
  next
    case (Inl err)
    have up: "up = d_upstream d" using send_error r Inl by blast
    let ?res = "if is_local_failure err then local_failed x now (d_engine d) else failed x now (d_engine d)"
    obtain e' fs where f: "?res = Some (e', fs)" "ended x (d_engine d) e' fs"
      using failed_ended [OF ok, of x now] local_failed_ended [OF ok, of x now]
      by (cases "is_local_failure err") (auto simp: no_panic_def split: option.splits)
    have en: "energy e' < energy (d_engine d)"
      by (rule failed_energy [OF ok x(2)]) (use f(1) in \<open>auto split: if_splits\<close>)
    have "work_ok out (acts @ fs) (d\<lparr>d_upstream := up, d_engine := e'\<rparr>)"
      using ended_work [OF wk f(2)] by (simp add: up)
    moreover have "doors_ok out (d\<lparr>d_upstream := up, d_engine := e'\<rparr>)" using dr by (simp add: doors_ok_def admitted_def)
    ultimately show ?thesis using r Inl f en by (simp add: daemon_inv_def)
  qed
qed

lemma action_inv:
  assumes inv: "daemon_inv out (a # acts) d"
  shows "\<exists>d' fs. perform_action os now a d = Some (d', fs) \<and> daemon_inv out (acts @ fs) d' \<and>
    energy (d_engine d') \<le> energy (d_engine d) \<and> (fs \<noteq> [] \<longrightarrow> energy (d_engine d') < energy (d_engine d))"
proof (cases a)
  case (Send x server i tcp payload)
  then show ?thesis using send_inv inv by blast
next
  case (Cancel x)
  have wk: "work_ok out (Cancel x # acts) d" and dr: "doors_ok out d" using inv Cancel by (auto simp: daemon_inv_def)
  have "work_ok out acts (d\<lparr>d_upstream := upstream_cancel x (d_upstream d)\<rparr>)"
    using wk cancel_sockets [of out "d_upstream d" x] by (auto simp: work_ok_def)
  moreover have "doors_ok out (d\<lparr>d_upstream := upstream_cancel x (d_upstream d)\<rparr>)"
    using dr by (simp add: doors_ok_def admitted_def)
  ultimately show ?thesis using Cancel by (simp add: daemon_inv_def)
next
  case (Done q c)
  have "d_engine (deliver os q c d) = d_engine d"
    by (auto simp: deliver_def daemon_reply_def daemon_stub_answer_def read_clock_def Let_def
        split: option.splits waiter.splits completion.splits prod.splits)
  then show ?thesis using deliver_inv inv Done by simp
qed

lemma perform_all_inv:
  "daemon_inv out (acts @ rest) d \<Longrightarrow> \<exists>d' fs. perform_all os now acts d = Some (d', fs) \<and>
    daemon_inv out (rest @ fs) d' \<and> energy (d_engine d') \<le> energy (d_engine d) \<and>
    (fs \<noteq> [] \<longrightarrow> energy (d_engine d') < energy (d_engine d))"
proof (induction acts arbitrary: rest d)
  case (Cons a acts)
  obtain d1 f1 where 1: "perform_action os now a d = Some (d1, f1)" "daemon_inv out (acts @ rest @ f1) d1"
    "energy (d_engine d1) \<le> energy (d_engine d)" "f1 \<noteq> [] \<longrightarrow> energy (d_engine d1) < energy (d_engine d)"
    using action_inv [of a "acts @ rest" d now] Cons.prems by auto
  obtain d2 f2 where "perform_all os now acts d1 = Some (d2, f2)" "daemon_inv out ((rest @ f1) @ f2) d2"
    "energy (d_engine d2) \<le> energy (d_engine d1)" "f2 \<noteq> [] \<longrightarrow> energy (d_engine d2) < energy (d_engine d1)"
    using Cons.IH [OF 1(2)] by auto
  with 1 show ?case by auto
qed simp

text \<open>\<open>perform\<close> ends, whatever fails on the way, and leaves nothing undone.\<close>

lemma perform_inv: "daemon_inv out acts d \<Longrightarrow> \<exists>d'. perform os now acts d = Some d' \<and> daemon_inv out [] d'"
proof (induction "energy (d_engine d)" arbitrary: acts d rule: less_induct)
  case less
  obtain d1 fs where 1: "perform_all os now acts d = Some (d1, fs)" "daemon_inv out fs d1"
    "fs \<noteq> [] \<longrightarrow> energy (d_engine d1) < energy (d_engine d)"
    using perform_all_inv [of acts "[]" d now] less.prems by auto
  show ?case
  proof (cases "fs = []")
    case True
    then show ?thesis using 1 by (simp add: perform.simps)
  next
    case False
    with less.hyps [of d1 fs] 1 show ?thesis by (simp add: perform.simps)
  qed
qed

end

section \<open>The system over scripted sockets\<close>

text \<open>
  Any system whose streams are \<open>sock\<close>s and whose \<open>connect\<close> gives a new one, with whatever results
  its writes are going to have: \<open>dial\<close> says which, everything else is \<open>os\<close>.
\<close>

definition sock_os ::
  "(txid \<Rightarrow> socket_addr \<Rightarrow> io_error + nat \<times> (io_error + nat) list) \<Rightarrow> ('u, sock, 'sd, 'tok) system \<Rightarrow> ('u, sock, 'sd, 'tok) system" where
  "sock_os dial os =
     os\<lparr>os_write := sock_write,
        os_tcp_open := (\<lambda>tx addr. case dial tx addr of Inl e \<Rightarrow> Inl e | Inr (fd, ws) \<Rightarrow> Inr \<lparr>sk_fd = fd, sk_writes = ws, sk_out = []\<rparr>)\<rparr>"

interpretation sock_sys: daemon_os "sock_os dial os" sk_out
  for dial and os :: "('u, sock, 'sd, 'tok) system"
proof unfold_locales
  fix s b n s'
  show "os_write (sock_os dial os) s b = (Inr n, s') \<Longrightarrow> n \<le> length b \<and> sk_out s' = sk_out s @ take n b"
    using sock.wr_ok [of s b n s'] by (simp add: sock_os_def)
next
  fix s b e s'
  show "os_write (sock_os dial os) s b = (Inl e, s') \<Longrightarrow> sk_out s' = sk_out s"
    using sock.wr_err [of s b e s'] by (simp add: sock_os_def)
next
  fix tx addr s
  show "os_tcp_open (sock_os dial os) tx addr = Inr s \<Longrightarrow> sk_out s = []"
    by (auto simp: sock_os_def split: sum.splits)
qed

end
