(* ===== verification/Daemon_Steps.thy ===== *)
theory Daemon_Steps
  imports Daemon_Invariant
begin

text \<open>
  Every step of the daemon's loop keeps the invariant of the daemon and none panics: the slots of a
  poll one after the other, a whole turn, and runs from the start of the program.
\<close>

section \<open>Events of the engine\<close>

lemma work_cong:
  "d_engine d' = d_engine d \<Longrightarrow> d_upstream d' = d_upstream d \<Longrightarrow> d_waiters d' = d_waiters d \<Longrightarrow>
   work_ok out acts d' = work_ok out acts d"
  by (simp add: work_ok_def)

lemma event_work:
  assumes wk: "work_ok out [] d" and ef: "effect ev (d_engine d) (d_engine d') acts"
    and socks: "socks_ok out (d_upstream d')" "up_keys (d_upstream d') = live (d_engine d) - over (d_engine d) ev"
    and ws: "hm_wf (=) (d_waiters d')" "keyset (d_waiters d') = opens (d_engine d) \<union> asks ev - drops ev"
  shows "work_ok out acts d'"
proof -
  let ?e = "d_engine d" and ?e' = "d_engine d'" and ?K = "up_keys (d_upstream d')"
  have ok: "engine_ok {} ?e" using wk by (simp add: work_ok_def)
  have new: "engine_ok {} ?e'" "next_id ?e \<le> next_id ?e'" "\<forall>x \<in> set (sents acts). next_id ?e \<le> x \<and> x < next_id ?e'"
    "\<forall>x \<in> set (cancels acts). x < next_id ?e"
    using ef by (auto simp: effect_def)
  have desk: "distinct (dones acts)" "set (dones acts) \<subseteq> opens ?e \<union> asks ev - drops ev"
    "opens ?e' = opens ?e \<union> asks ev - drops ev - set (dones acts)" "distinct (sents acts)"
    "set (sents acts) \<inter> live ?e = {}" "set (sents acts) \<inter> set (cancels acts) = {}"
    "live ?e' = live ?e - over ?e ev \<union> set (sents acts) - set (cancels acts)"
    using ef by (auto simp: effect_def desk_step_def desk_of_def)
  have "\<forall>x \<in> ?K. x < next_id ?e" using live_below [OF ok] socks(2) by auto
  then have "\<forall>x \<in> ?K \<union> set (sents acts) \<union> set (cancels acts). x < next_id ?e'" using new by fastforce
  moreover have "set (sents acts) \<inter> (?K \<union> set (cancels acts)) = {}" using desk(5,6) socks(2) by auto
  moreover have "live ?e' = ?K \<union> set (sents acts) - set (cancels acts)" using desk(7) socks(2) by simp
  moreover have "keyset (d_waiters d') = opens ?e' \<union> set (dones acts)" "set (dones acts) \<inter> opens ?e' = {}"
    using desk(2,3) ws(2) by auto
  ultimately show ?thesis using new(1) desk(1,4) socks(1) ws(1) by (simp add: work_ok_def)
qed

lemma quiet_facts:
  assumes "work_ok out [] d"
  shows "up_keys (d_upstream d) = live (d_engine d)" "keyset (d_waiters d) = opens (d_engine d)"
    "socks_ok out (d_upstream d)" "hm_wf (=) (d_waiters d)" "engine_ok {} (d_engine d)"
  using assms by (simp_all add: work_ok_def)

lemma reconfigured_work:
  assumes "work_ok out [] d" "reconfigured (d_engine d) e'"
  shows "work_ok out [] (d\<lparr>d_engine := e'\<rparr>)"
proof -
  note q = quiet_facts [OF assms(1)]
  have "effect ETick (d_engine d) e' []" by (rule reconfigured_effect [OF q(5) assms(2)]) simp_all
  then show ?thesis using event_work [OF assms(1), of ETick "d\<lparr>d_engine := e'\<rparr>" "[]"] q by simp
qed

lemma doors_engine [simp]: "doors_ok out (d\<lparr>d_engine := e\<rparr>) = doors_ok out d"
  by (simp add: doors_ok_def admitted_def)

lemma reconfigured_inv:
  "daemon_inv out [] d \<Longrightarrow> reconfigured (d_engine d) e' \<Longrightarrow> daemon_inv out [] (d\<lparr>d_engine := e'\<rparr>)"
  by (simp add: daemon_inv_def reconfigured_work)

section \<open>Sockets that are ready\<close>

lemma receive_accepted: "receive_step accepts rd buf = (Some (Received b), buf') \<Longrightarrow> accepts b"
proof -
  have drain: "accepts m" if "drain_frames accepts b = Inl m" for b m
    using that
  proof (induction accepts b rule: drain_frames.induct)
    case (1 accepts buf)
    from 1(2) show ?case
      by (subst (asm) drain_frames.simps)
        (auto simp: Let_def simp del: One_nat_def add_2_eq_Suc add_2_eq_Suc' split: if_splits intro: 1(1))
  qed
  assume "receive_step accepts rd buf = (Some (Received b), buf')"
  then show ?thesis using drain by (auto simp: receive_step_def split: sum.splits if_splits)
qed

context nonblocking_stream
begin

lemma service_sockets:
  assumes socks: "socks_ok out up"
  shows "\<exists>ev up'. upstream_service wr err recv rd tx revents accepts up = Some (ev, up') \<and> socks_ok out up' \<and>
    up_keys up' = (if ev = None then up_keys up else up_keys up - {tx}) \<and> (ev \<noteq> None \<longrightarrow> tx \<in> up_keys up) \<and>
    (\<forall>b. ev = Some (Received b) \<longrightarrow> accepts b)"
proof -
  have up: "upstream_ok out up" "hm_wf (=) (up_udp up)" "hm_wf (=) (up_tcp up)" "keyset (up_udp up) \<inter> keyset (up_tcp up) = {}"
    using socks by (simp_all add: socks_ok_def)
  obtain ev up' where s: "upstream_service wr err recv rd tx revents accepts up = Some (ev, up')" "upstream_ok out up'"
    using service_keeps [OF up(1)] by blast
  let ?shape = "up' = up \<and> ev = None \<or> ev \<noteq> None \<and> up' = up\<lparr>up_udp := hm_remove (=) tx (up_udp up)\<rparr> \<and> tx \<in> keyset (up_udp up) \<or>
    ev \<noteq> None \<and> up' = up\<lparr>up_tcp := hm_remove (=) tx (up_tcp up)\<rparr> \<and> tx \<in> keyset (up_tcp up) \<or>
    (\<exists>t. ev = None \<and> up' = up\<lparr>up_tcp := hm_insert (=) tx t (up_tcp up)\<rparr> \<and> tx \<in> keyset (up_tcp up))"
  have shape: "?shape \<and> (\<forall>b. ev = Some (Received b) \<longrightarrow> accepts b)"
  proof (cases "hm_get (=) tx (up_udp up)")
    case (Some u)
    then have "tx \<in> keyset (up_udp up)" using get_none [of tx "up_udp up"] by auto
    then show ?thesis using s(1) Some by (auto simp: upstream_service_def Let_def split: sum.splits if_splits)
  next
    case None
    show ?thesis
    proof (cases "hm_get (=) tx (up_tcp up)")
      case None': None
      then show ?thesis using s(1) None by (simp add: upstream_service_def)
    next
      case (Some t)
      then have "tx \<in> keyset (up_tcp up)" using get_none [of tx "up_tcp up"] by auto
      then show ?thesis
        using s(1) None Some receive_accepted
        by (auto simp: upstream_service_def Let_def split: tcp_state.splits sum.splits if_splits prod.splits option.splits)
    qed
  qed
  then have "socks_ok out up' \<and> up_keys up' = (if ev = None then up_keys up else up_keys up - {tx}) \<and> (ev \<noteq> None \<longrightarrow> tx \<in> up_keys up)"
    using up s(2) unfolding socks_ok_def up_keys_def
    by (elim conjE disjE exE) (auto simp: ids.wf_remove ids.wf_insert)
  then show ?thesis using s shape by blast
qed

end

section \<open>Steps of the loop\<close>

lemma removed_shorter: "hm_get (=) i xs = Some v \<Longrightarrow> length (hm_remove (=) i xs) < length xs"
proof (induction xs)
  case (Cons x xs)
  have "length (hm_remove (=) i xs) \<le> length xs" by (simp add: hm_remove_def)
  with Cons show ?case by (cases x) (auto simp: hm_remove_def less_Suc_eq_le split: if_splits)
qed simp

lemma replaced_length: "hm_get (=) i xs = Some v \<Longrightarrow> length (hm_insert (=) i w xs) = length xs"
  by (induction xs) (auto split: if_splits)

lemma set_insert: "set (hm_insert (=) k v xs) \<subseteq> insert (k, v) (set xs)"
  by (induction xs) (auto split: if_splits)

lemma quiet_admitted: "daemon_inv out [] d \<Longrightarrow> admitted d"
  by (simp add: daemon_inv_def doors_ok_def)

lemma clock_inv [simp]: "daemon_inv out acts (d\<lparr>d_reads := n\<rparr>) = daemon_inv out acts d"
  by (simp add: daemon_inv_def work_ok_def doors_ok_def admitted_def)

lemma sent_inv [simp]: "daemon_inv out acts (d\<lparr>d_sent := n\<rparr>) = daemon_inv out acts d"
  by (simp add: daemon_inv_def work_ok_def doors_ok_def admitted_def)

lemma next_id_inv: "daemon_inv out acts d \<Longrightarrow> daemon_inv out acts (d\<lparr>d_next_id := Suc (d_next_id d)\<rparr>)"
  unfolding daemon_inv_def work_ok_def doors_ok_def admitted_def clients_ok_def waiters_ok_def by (auto split: prod.splits)

lemma gone_client:
  assumes "daemon_inv out acts d"
  shows "daemon_inv out acts (d\<lparr>d_clients := hm_remove (=) i (d_clients d)\<rparr>)"
proof -
  have "length (hm_remove (=) i (d_clients d)) \<le> length (d_clients d)" by (simp add: hm_remove_def)
  then show ?thesis
    using assms set_remove [of i "d_clients d"]
    unfolding daemon_inv_def work_ok_def doors_ok_def admitted_def clients_ok_def by (auto simp: ids.wf_remove)
qed

context daemon_os
begin

lemma event_inv:
  assumes wk: "work_ok out [] d" and ev: "event_ok ev (d_engine d)"
    and socks: "socks_ok out up" "up_keys up = live (d_engine d) - over (d_engine d) ev"
    and ws: "hm_wf (=) ws" "keyset ws = opens (d_engine d) \<union> asks ev - drops ev"
  shows "\<exists>e acts. engine_step now ev (d_engine d) = Some (e, acts) \<and>
    (\<forall>d'. d_engine d' = e \<and> d_upstream d' = up \<and> d_waiters d' = ws \<and> doors_ok out d' \<longrightarrow>
      (\<exists>d''. perform os now acts d' = Some d'' \<and> daemon_inv out [] d''))"
proof -
  have ok: "engine_ok {} (d_engine d)" using wk by (simp add: work_ok_def)
  obtain e acts where e: "engine_step now ev (d_engine d) = Some (e, acts)" "effect ev (d_engine d) e acts"
    using step_effect [OF ok ev, of now] by (auto simp: no_panic_def split: option.splits)
  have "\<exists>d''. perform os now acts d' = Some d'' \<and> daemon_inv out [] d''"
    if "d_engine d' = e" "d_upstream d' = up" "d_waiters d' = ws" "doors_ok out d'" for d'
    using perform_inv [of acts d' now] event_work [OF wk, of ev d' acts] that e(2) socks ws by (simp add: daemon_inv_def)
  then show ?thesis using e(1) by auto
qed

lemma ask_inv:
  assumes inv: "daemon_inv out [] d" and res: "engine_step now ev (d_engine d) = res"
    and ev: "asks ev = {d_next_id d}" "drops ev = {}" "over (d_engine d) ev = {}"
      "d_next_id d \<notin> opens (d_engine d) \<Longrightarrow> event_ok ev (d_engine d)"
    and w: "\<forall>s. waiter_stream w = Some s \<longrightarrow> out s = []"
    and room: "admitted (d\<lparr>d_waiters := hm_insert (=) (d_next_id d) w (d_waiters d)\<rparr>)"
  shows "\<exists>d'. ask_engine os now (d_next_id d) w res (d\<lparr>d_next_id := Suc (d_next_id d)\<rparr>) = Some d' \<and> daemon_inv out [] d'"
proof -
  let ?q = "d_next_id d" and ?ws = "hm_insert (=) (d_next_id d) w (d_waiters d)"
  have wk: "work_ok out [] d" and dr: "doors_ok out d" using inv by (auto simp: daemon_inv_def)
  note quiet = quiet_facts [OF wk]
  have "?q \<notin> keyset (d_waiters d)" using dr unfolding doors_ok_def waiters_ok_def keyset_def by fastforce
  then have ok: "event_ok ev (d_engine d)" using ev(4) quiet(2) by simp
  obtain e acts where e: "res = Some (e, acts)"
    "\<forall>d'. d_engine d' = e \<and> d_upstream d' = d_upstream d \<and> d_waiters d' = ?ws \<and> doors_ok out d' \<longrightarrow>
      (\<exists>d''. perform os now acts d' = Some d'' \<and> daemon_inv out [] d'')"
    using event_inv [OF wk ok quiet(3), of ?ws now] res ev quiet by (auto simp: ids.wf_insert)
  have "waiters_ok out (Suc ?q) ?ws"
    using dr w set_insert [of ?q w "d_waiters d"] unfolding doors_ok_def waiters_ok_def by fastforce
  moreover have "clients_ok out (Suc ?q) (d_clients d)" using dr by (auto simp: doors_ok_def clients_ok_def)
  ultimately have "doors_ok out (d\<lparr>d_next_id := Suc ?q, d_engine := e, d_waiters := ?ws\<rparr>)"
    using dr room by (simp add: doors_ok_def admitted_def)
  with e show ?thesis by (simp add: ask_engine_def)
qed

lemma hangup_inv: "daemon_inv out [] d \<Longrightarrow> \<exists>d'. hangup_step os now slot d = Some d' \<and> daemon_inv out [] d'"
proof -
  assume inv: "daemon_inv out [] d"
  obtain q revents where slot: "slot = (q, revents)" by force
  have wk: "work_ok out [] d" and dr: "doors_ok out d" using inv by (auto simp: daemon_inv_def)
  note quiet = quiet_facts [OF wk]
  let ?ws = "hm_remove (=) q (d_waiters d)"
  have "\<exists>e acts. engine_step now (EAbandon q) (d_engine d) = Some (e, acts) \<and>
    (\<forall>d'. d_engine d' = e \<and> d_upstream d' = d_upstream d \<and> d_waiters d' = ?ws \<and> doors_ok out d' \<longrightarrow>
      (\<exists>d''. perform os now acts d' = Some d'' \<and> daemon_inv out [] d''))"
    by (rule event_inv [OF wk]) (simp_all add: quiet ids.wf_remove)
  then obtain e acts where e: "abandon q (d_engine d) = (e, acts)"
    "\<forall>d'. d_engine d' = e \<and> d_upstream d' = d_upstream d \<and> d_waiters d' = ?ws \<and> doors_ok out d' \<longrightarrow>
      (\<exists>d''. perform os now acts d' = Some d'' \<and> daemon_inv out [] d'')"
    by auto
  have "doors_ok out (d\<lparr>d_waiters := ?ws, d_engine := e\<rparr>)" using remove_waiter_doors [OF dr, of q] by simp
  then show ?thesis using e inv by (simp add: hangup_step_def slot)
qed

lemma upstream_inv: "daemon_inv out [] d \<Longrightarrow> \<exists>d'. upstream_step os now slot d = Some d' \<and> daemon_inv out [] d'"
proof -
  assume inv: "daemon_inv out [] d"
  obtain tx revents err recv rd where slot: "slot = (tx, revents, err, recv, rd)" by (cases slot)
  have wk: "work_ok out [] d" and dr: "doors_ok out d" using inv by (auto simp: daemon_inv_def)
  note quiet = quiet_facts [OF wk]
  let ?e = "d_engine d"
  obtain ev up where s: "upstream_service (os_write os) err recv rd tx revents (response_matches ?e tx) (d_upstream d) = Some (ev, up)"
    "socks_ok out up" "up_keys up = (if ev = None then up_keys (d_upstream d) else up_keys (d_upstream d) - {tx})"
    "\<forall>b. ev = Some (Received b) \<longrightarrow> response_matches ?e tx b"
    using service_sockets [OF quiet(3)] by blast
  have dr': "doors_ok out (d\<lparr>d_upstream := up, d_engine := e\<rparr>)" for e using dr by (simp add: doors_ok_def admitted_def)
  show ?thesis
  proof (cases ev)
    case None
    then have "daemon_inv out [] (d\<lparr>d_upstream := up\<rparr>)"
      using inv s(2,3) by (simp add: daemon_inv_def work_ok_def doors_ok_def admitted_def)
    then show ?thesis using inv s(1) None by (simp add: upstream_step_def slot)
  next
    case (Some ev')
    let ?ev = "case ev' of Received b \<Rightarrow> EReceived tx b | Failed \<Rightarrow> EFailed tx"
    have over: "over ?e ?ev = {tx}" "asks ?ev = {}" "drops ?ev = {}" "event_ok ?ev ?e"
      using s(4) Some by (auto split: up_event.split)
    obtain e acts where e: "engine_step now ?ev ?e = Some (e, acts)"
      "\<forall>d'. d_engine d' = e \<and> d_upstream d' = up \<and> d_waiters d' = d_waiters d \<and> doors_ok out d' \<longrightarrow>
        (\<exists>d''. perform os now acts d' = Some d'' \<and> daemon_inv out [] d'')"
      using event_inv [OF wk over(4) s(2), of "d_waiters d" now] over quiet s(3) Some by auto
    then show ?thesis using inv s(1) Some dr' by (cases ev') (simp_all add: upstream_step_def slot)
  qed
qed

lemma reply_step_inv: "daemon_inv out [] d \<Longrightarrow> \<exists>d'. reply_step os slot d = Some d' \<and> daemon_inv out [] d'"
proof -
  assume inv: "daemon_inv out [] d"
  obtain i revents where slot: "slot = (i, revents)" by force
  have q: "queue_ok out (d_replies d, [])" using inv by (simp add: daemon_inv_def doors_ok_def)
  obtain r c qu where r: "service_reply (os_write os) i (os_clock os (d_reads d)) (d_replies d) = Some (r, c, qu)"
    "queue_ok out (qu, [])"
    using service_queue [OF q, of i "os_clock os (d_reads d)"] by auto
  have "daemon_inv out [] (d\<lparr>d_reads := n, d_replies := qu\<rparr>)" for n using inv r(2) by (simp add: daemon_inv_def work_ok_def doors_ok_def admitted_def)
  then show ?thesis using inv r(1) by (simp add: reply_step_def slot read_clock_def)
qed

lemma stub_reply_step_inv: "daemon_inv out [] d \<Longrightarrow> \<exists>d'. stub_reply_step os slot d = Some d' \<and> daemon_inv out [] d'"
proof -
  assume inv: "daemon_inv out [] d"
  obtain i revents where slot: "slot = (i, revents)" by force
  let ?st = "d_stub d"
  have q: "queue_ok out (sb_replies ?st, [])" using inv by (simp add: daemon_inv_def doors_ok_def stub_ok_def)
  obtain r c qu where r: "service_reply (os_write os) i (os_clock os (d_reads d)) (sb_replies ?st) = Some (r, c, qu)"
    "queue_ok out (qu, [])"
    using service_queue [OF q, of i "os_clock os (d_reads d)"] by auto
  have "daemon_inv out [] (d\<lparr>d_reads := n, d_stub := ?st\<lparr>sb_replies := qu\<rparr>\<rparr>)" for n
    using inv r(2) by (simp add: daemon_inv_def work_ok_def doors_ok_def admitted_def stub_ok_def)
  then show ?thesis
    using inv r(1)
    by (simp add: stub_reply_step_def stub_service_reply_def slot read_clock_def)
qed

end

lemma fresh_waiter: "doors_ok out d \<Longrightarrow> d_next_id d \<notin> keyset (d_waiters d)"
  unfolding doors_ok_def waiters_ok_def keyset_def by fastforce

lemma handle_stub_cons:
  "handle_stub os (x # xs) now d = Option.bind (handle_stub os [x] now d) (handle_stub os xs now)"
proof (cases x)
  case (IQuery orig)
  have "Option.bind m Some = m" for m :: "'z option" by (cases m) simp_all
  then show ?thesis
    using IQuery by (simp add: fun_eq_iff Let_def split: option.splits prod.splits cong: if_cong) 
qed simp

lemma parsed_question:
  assumes "parse_query b = Inr m" "message_question m = Some qu"
  shows "wf_name (q_name qu)"
proof -
  have "decode b = Inr m" "questions m = [qu]"
    using assms parse_query_accepts [of b m] by (auto simp: message_question_def split: list.splits)
  then show ?thesis using decode_sound [of b m] by (auto simp: wf_message_def)
qed

lemma accept_stub:
  assumes "stub_ok out st" "\<forall>s peer nb. Inr (s, peer, nb) \<in> set inputs \<longrightarrow> out s = []"
  shows "stub_ok out (accept_loop n clock now limit inputs st)"
  using assms
proof (induction n clock now limit inputs st rule: accept_loop.induct)
  case (4 n clock now limit stream peer nonblocking inputs st)
  let ?c = "\<lparr>tc_stream = stream, tc_buf = [], tc_since = now\<rparr>"
  have "out stream = []" using 4(4) by auto
  then have "stub_ok out (st\<lparr>sb_next_client := sb_next_client st + 1,
      sb_clients := hm_insert (=) (sb_next_client st) ?c (sb_clients st)\<rparr>)"
    using 4(3) set_insert [of "sb_next_client st" ?c "sb_clients st"] unfolding stub_ok_def
    by (auto simp: ids.wf_insert dest!: subsetD)
  then show ?case using 4 by (auto simp del: One_nat_def)
qed (auto simp: stub_ok_def)

context nonblocking_stream
begin

lemma client_facts:
  assumes ok: "stub_ok out st" and s: "service_client wr clock rds i st = (inc, st')"
  shows "stub_ok out st'" "length (sb_clients st') \<le> length (sb_clients st)"
    "inc = Some (IQuery orig) \<Longrightarrow> \<exists>stream query b. orig = OTcp stream query \<and> out stream = [] \<and>
       parse_query b = Inr query \<and> length (sb_clients st') < length (sb_clients st)"
proof -
  let ?goal = "stub_ok out st' \<and> length (sb_clients st') \<le> length (sb_clients st) \<and>
    (inc = Some (IQuery orig) \<longrightarrow> (\<exists>stream query b. orig = OTcp stream query \<and> out stream = [] \<and>
       parse_query b = Inr query \<and> length (sb_clients st') < length (sb_clients st)))"
  have ?goal
  proof (cases "hm_get (=) i (sb_clients st)")
    case None
    then show ?thesis using assms by (auto simp: service_client_def)
  next
    case (Some c)
    let ?gone = "st\<lparr>sb_clients := hm_remove (=) i (sb_clients st)\<rparr>"
    have c: "out (tc_stream c) = []" "i < sb_next_client st"
      using ok ids.get_in_set [OF Some] by (auto simp: stub_ok_def)
    have gone: "stub_ok out ?gone"
      using ok set_remove [of i "sb_clients st"] unfolding stub_ok_def by (auto simp: ids.wf_remove)
    have kept: "stub_ok out (st\<lparr>sb_clients := hm_insert (=) i (c\<lparr>tc_buf := b\<rparr>) (sb_clients st)\<rparr>)" for b
      using ok c set_insert [of i "c\<lparr>tc_buf := b\<rparr>" "sb_clients st"] unfolding stub_ok_def
      by (auto simp: ids.wf_insert dest!: subsetD)
    have sent: "stub_ok out (send_tcp wr clock (tc_stream c) b ?gone)" for b
      using gone enqueue_queue [of "sb_replies st" "tc_stream c"] c(1) by (simp add: stub_ok_def send_tcp_def)
    have clients: "sb_clients (send_tcp wr clock (tc_stream c) b ?gone) = hm_remove (=) i (sb_clients st)" for b
      by (simp add: send_tcp_def)
    show ?thesis
      using s Some gone kept sent clients c(1) removed_shorter [OF Some] replaced_length [OF Some]
      by (auto simp: service_client_def Let_def split: option.splits prod.splits if_splits sum.splits)
  qed
  then show "stub_ok out st'" "length (sb_clients st') \<le> length (sb_clients st)"
    "inc = Some (IQuery orig) \<Longrightarrow> \<exists>stream query b. orig = OTcp stream query \<and> out stream = [] \<and>
       parse_query b = Inr query \<and> length (sb_clients st') < length (sb_clients st)"
    by simp_all
qed

end

context daemon_os
begin

text \<open>A query that got in is admitted by the bounds on its door.\<close>

lemma stub_query_inv:
  assumes inv: "daemon_inv out [] d"
    and query: "parse_query b = Inr (origin_query orig)"
    and tcp: "\<forall>s query. orig = OTcp s query \<longrightarrow>
      out s = [] \<and> length (sb_clients (d_stub d)) + count_waiters is_tcp_waiter (d_waiters d) < MAX_PENDING_CLIENTS"
  shows "\<exists>d'. handle_stub os [IQuery orig] now d = Some d' \<and> daemon_inv out [] d'"
proof -
  have wk: "work_ok out [] d" and dr: "doors_ok out d" using inv by (auto simp: daemon_inv_def)
  obtain qu where qu: "message_question (origin_query orig) = Some qu"
    using query parse_query_accepts [of b] by (auto simp: resolvable_def message_question_def)
  have wf: "wf_name (q_name qu)" by (rule parsed_question [OF query qu])
  show ?thesis
  proof (cases "over_capacity (d_waiters d) orig")
    case True
    let ?e = "count_refused (d_engine d)"
    have "daemon_inv out [] (d\<lparr>d_engine := ?e\<rparr>)"
      using inv by (simp add: daemon_inv_def work_ok_def count_refused_def live_def)
    then have "daemon_inv out [] (daemon_stub_answer os orig ans (d\<lparr>d_engine := ?e\<rparr>))" for ans
      using stub_answer_doors stub_answer_work tcp by (auto simp: daemon_inv_def)
    then show ?thesis using qu True by simp
  next
    case False
    have "admitted (d\<lparr>d_waiters := hm_insert (=) (d_next_id d) (WStub orig) (d_waiters d)\<rparr>)"
    proof (cases orig)
      case (OUdp peer query)
      then have "udp_has_capacity (d_waiters d) peer" using False by simp
      then show ?thesis
        using OUdp dr fresh_waiter [OF dr]
        by (auto simp: doors_ok_def admitted_def udp_has_capacity_def is_native_waiter_def is_tcp_waiter_def simp del: not_None_eq)
    next
      case (OTcp s query)
      then show ?thesis
        using tcp dr fresh_waiter [OF dr]
        by (auto simp: doors_ok_def admitted_def is_native_waiter_def is_tcp_waiter_def simp del: not_None_eq)
    qed
    moreover have "\<forall>s. waiter_stream (WStub orig) = Some s \<longrightarrow> out s = []" using tcp by (cases orig) auto
    ultimately obtain d' where "ask_engine os now (d_next_id d) (WStub orig)
        (resolve_question (d_next_id d) qu now (d_engine d)) (d\<lparr>d_next_id := Suc (d_next_id d)\<rparr>) = Some d'" "daemon_inv out [] d'"
      using ask_inv [OF inv refl, of "EQuestion (d_next_id d) qu" "WStub orig" now] wf by auto
    then show ?thesis using qu False by (simp add: daemon_fresh_id_def)
  qed
qed

lemma udp_queries_inv:
  assumes "\<forall>x \<in> set xs. \<exists>peer query b. x = IQuery (OUdp peer query) \<and> parse_query b = Inr query" "daemon_inv out [] d"
  shows "\<exists>d'. handle_stub os xs now d = Some d' \<and> daemon_inv out [] d'"
  using assms
proof (induction xs arbitrary: d)
  case (Cons x xs)
  then obtain peer query b where x: "x = IQuery (OUdp peer query)" "parse_query b = Inr query" by auto
  then obtain d1 where "handle_stub os [x] now d = Some d1" "daemon_inv out [] d1"
    using stub_query_inv [OF Cons.prems(2), of b "OUdp peer query" now] by auto
  then show ?case using Cons.IH Cons.prems(1) handle_stub_cons [of os x xs now d] by simp
qed simp

lemma udp_inv: "daemon_inv out [] d \<Longrightarrow> \<exists>d'. udp_step os now input d = Some d' \<and> daemon_inv out [] d'"
proof -
  assume inv: "daemon_inv out [] d"
  obtain incoming :: "'s incoming list" and sent where r: "receive_loop IO_BATCH_LIMIT (snd input) = (incoming, sent)" by force
  have "\<forall>x \<in> set incoming. \<exists>peer query b. x = IQuery (OUdp peer query) \<and> parse_query b = Inr query"
    using receive_loopback_only [OF r] by blast
  then have "\<exists>d'. handle_stub os incoming now (d\<lparr>d_sent := d_sent d @ sent\<rparr>) = Some d' \<and> daemon_inv out [] d'"
    using udp_queries_inv inv by simp
  then show ?thesis using inv r by (simp add: udp_step_def receive_udp_def)
qed

lemma tcp_accept_inv:
  assumes inv: "daemon_inv out [] d" and fresh: "\<forall>s peer nb. Inr (s, peer, nb) \<in> set (snd input) \<longrightarrow> out s = []"
  shows "daemon_inv out [] (tcp_accept_step os now input d)"
proof -
  let ?n = "count_waiters is_tcp_waiter (d_waiters d)"
  let ?st = "stub_accept (os_clock os (d_reads d)) now (MAX_PENDING_CLIENTS - ?n) (snd input) (d_stub d)"
  have st: "stub_ok out (d_stub d)" and ad: "admitted d" using inv by (auto simp: daemon_inv_def doors_ok_def)
  have "stub_ok out ?st" using accept_stub [OF st fresh] by (simp add: stub_accept_def)
  moreover have "length (sb_clients ?st) \<le> max (MAX_PENDING_CLIENTS - ?n) (length (sb_clients (d_stub d)))"
    using accept_bounded [of "d_stub d"] st unfolding stub_accept_def stub_ok_def by fast
  then have "length (sb_clients ?st) + ?n \<le> MAX_PENDING_CLIENTS" using ad unfolding admitted_def by linarith
  ultimately show ?thesis
    using inv by (simp add: tcp_accept_step_def read_clock_def daemon_inv_def work_ok_def doors_ok_def admitted_def)
qed

lemma stub_client_inv: "daemon_inv out [] d \<Longrightarrow> \<exists>d'. stub_client_step os now slot d = Some d' \<and> daemon_inv out [] d'"
proof -
  assume inv: "daemon_inv out [] d"
  obtain i revents arrived where slot: "slot = (i, revents, arrived)" by (cases slot)
  let ?n = "count_waiters is_tcp_waiter (d_waiters d)"
  have st: "stub_ok out (d_stub d)" and ad: "length (sb_clients (d_stub d)) + ?n \<le> MAX_PENDING_CLIENTS"
    using inv by (auto simp: daemon_inv_def doors_ok_def admitted_def)
  obtain inc st' where s: "service_client (os_write os) (os_clock os (d_reads d)) arrived i (d_stub d) = (inc, st')" by force
  note f = client_facts [OF st s]
  let ?d = "d\<lparr>d_reads := Suc (d_reads d), d_stub := st'\<rparr>"
  have inv': "daemon_inv out [] ?d"
    using inv f(1,2) ad by (simp add: daemon_inv_def work_ok_def doors_ok_def admitted_def)
  have query: "\<exists>d'. handle_stub os [IQuery orig] now ?d = Some d' \<and> daemon_inv out [] d'" if q: "inc = Some (IQuery orig)" for orig
  proof -
    obtain stream query b where o: "orig = OTcp stream query" "out stream = []" "parse_query b = Inr query"
      "length (sb_clients st') < length (sb_clients (d_stub d))"
      using f(3) [OF q] by blast
    then show ?thesis using stub_query_inv [OF inv', of b orig now] ad by auto
  qed
  show ?thesis
  proof (cases inc)
    case None
    then show ?thesis using inv inv' s by (simp add: stub_client_step_def slot read_clock_def)
  next
    case (Some x)
    then show ?thesis
      using inv inv' s query by (cases x) (simp_all add: stub_client_step_def slot read_clock_def del: handle_stub.simps(3))
  qed
qed

end

section \<open>The native door\<close>

lemma accept_native:
  assumes "daemon_inv out [] d" "count_waiters is_native_waiter (d_waiters d) = pending"
    and "\<forall>s nb. Inr (s, nb) \<in> set inputs \<longrightarrow> out s = []"
  shows "daemon_inv out [] (native_accept_loop os n now pending inputs d)"
  using assms
proof (induction os n now pending inputs d rule: native_accept_loop.induct)
  case (3 os n now pending e inputs d)
  have "daemon_inv out [] (d\<lparr>d_reads := r, d_accept_backoff := b\<rparr>)" for r b
    using 3(2) by (simp add: daemon_inv_def work_ok_def doors_ok_def admitted_def)
  then show ?case using 3 by (auto simp: read_clock_def)
next
  case (4 os n now pending stream nonblocking inputs d)
  have rest: "\<forall>s nb. Inr (s, nb) \<in> set inputs \<longrightarrow> out s = []" using 4(6) by auto
  show ?case
  proof (cases "length (d_clients d) + pending \<ge> MAX_PENDING_CLIENTS \<or> client_new stream nonblocking now = None")
    case True
    then show ?thesis using 4(1,2,4,5) rest by auto
  next
    case False
    then obtain c where c: "client_new stream nonblocking now = Some c" by auto
    have ok: "buf_ok (cl_buf c)" "out (cl_stream c) = []"
      using c 4(6) by (auto simp: client_new_def buf_ok_def split: if_splits)
    let ?i = "d_next_id d" and ?cs = "hm_insert (=) (d_next_id d) c (d_clients d)"
    have cl: "clients_ok out ?i (d_clients d)" using 4(4) by (simp add: daemon_inv_def doors_ok_def)
    then have "?i \<notin> keyset (d_clients d)" unfolding clients_ok_def keyset_def by fastforce
    then have "length ?cs = Suc (length (d_clients d))" by (simp add: insert_new)
    moreover have "clients_ok out (Suc ?i) ?cs"
      using cl ok set_insert [of ?i c "d_clients d"] unfolding clients_ok_def by (fastforce simp: ids.wf_insert)
    ultimately have "daemon_inv out [] (d\<lparr>d_next_id := Suc ?i, d_clients := ?cs\<rparr>)"
      using next_id_inv [OF 4(4)] False 4(5) by (simp add: daemon_inv_def work_ok_def doors_ok_def admitted_def)
    then show ?thesis using 4(3,5) rest False c by (auto simp: daemon_fresh_id_def)
  qed
qed simp_all

context daemon_os
begin

lemma request_inv:
  assumes inv: "daemon_inv out [] d" and s: "out stream = []"
    and room: "length (d_clients d) + count_waiters is_native_waiter (d_waiters d) < MAX_PENDING_CLIENTS"
  shows "\<exists>d'. handle_request os stream rq now d = Some d' \<and> daemon_inv out [] d'"
proof -
  have dr: "doors_ok out d" using inv by (simp add: daemon_inv_def)
  have reply: "daemon_inv out [] (daemon_reply os stream rp d')" if "daemon_inv out [] d'" for rp d'
    using that reply_doors [OF _ s] reply_work by (simp add: daemon_inv_def)
  let ?d = "d\<lparr>d_next_id := Suc (d_next_id d)\<rparr>"
  have inv': "daemon_inv out [] ?d" by (rule next_id_inv [OF inv])
  have room': "admitted (d\<lparr>d_waiters := hm_insert (=) (d_next_id d) (WNative stream) (d_waiters d)\<rparr>)"
    using dr room fresh_waiter [OF dr]
    by (simp add: doors_ok_def admitted_def is_native_waiter_def is_tcp_waiter_def del: not_None_eq)
  have ask: "\<exists>d'. ask_engine os now (d_next_id d) (WNative stream) (engine_step now ev (d_engine d)) ?d = Some d' \<and> daemon_inv out [] d'"
    if "asks ev = {d_next_id d}" "drops ev = {}" "over (d_engine d) ev = {}" "d_next_id d \<notin> opens (d_engine d) \<Longrightarrow> event_ok ev (d_engine d)"
    for ev
    by (rule ask_inv [OF inv refl that]) (use s room' in auto)
  have flush: "daemon_inv out [] (?d\<lparr>d_engine := flush (d_engine d)\<rparr>)"
    using reconfigured_inv [OF inv', of "flush (d_engine d)"] by (simp add: reconfigured_step)
  let ?q = "d_next_id d"
  show ?thesis
    using inv inv' reply flush ask [of "EResolve ?q _ _ _"] ask [of "ELookup ?q _ _"] ask [of "EReverse ?q _"]
    by (cases rq) (simp_all add: handle_request_def daemon_fresh_id_def)
qed

lemma client_inv: "daemon_inv out [] d \<Longrightarrow> \<exists>d'. client_step os now slot d = Some d' \<and> daemon_inv out [] d'"
proof -
  assume inv: "daemon_inv out [] d"
  obtain i revents arrived where slot: "slot = (i, revents, arrived)" by (cases slot)
  show ?thesis
  proof (cases "revents = 0 \<or> hm_get (=) i (d_clients d) = None")
    case True
    then show ?thesis using inv by (auto simp: client_step_def slot)
  next
    case False
    then obtain c where c: "hm_get (=) i (d_clients d) = Some c" by auto
    have cl: "clients_ok out (d_next_id d) (d_clients d)" and ad: "admitted d"
      using inv by (auto simp: daemon_inv_def doors_ok_def)
    have ok: "i < d_next_id d" "buf_ok (cl_buf c)" "out (cl_stream c) = []"
      using cl ids.get_in_set [OF c] by (auto simp: clients_ok_def)
    obtain p buf rest where r: "client_read (os_text os) arrived (cl_buf c) = Some (p, buf, rest)" "buf_ok buf"
      using client_read_total [OF ok(2)] by blast
    let ?gone = "d\<lparr>d_clients := hm_remove (=) i (d_clients d)\<rparr>" and ?c = "c\<lparr>cl_buf := buf\<rparr>"
    have gone: "daemon_inv out [] ?gone" by (rule gone_client [OF inv])
    have "clients_ok out (d_next_id d) (hm_insert (=) i ?c (d_clients d))"
      using cl ok r(2) set_insert [of i ?c "d_clients d"] unfolding clients_ok_def by (fastforce simp: ids.wf_insert)
    then have kept: "daemon_inv out [] (d\<lparr>d_clients := hm_insert (=) i ?c (d_clients d)\<rparr>)"
      using inv replaced_length [OF c] by (simp add: daemon_inv_def work_ok_def doors_ok_def admitted_def)
    have room: "length (d_clients ?gone) + count_waiters is_native_waiter (d_waiters ?gone) < MAX_PENDING_CLIENTS"
      using ad removed_shorter [OF c] by (simp add: admitted_def)
    have "daemon_inv out [] (daemon_reply os (cl_stream c) rp ?gone)" for rp
      using gone reply_doors [OF _ ok(3)] reply_work by (simp add: daemon_inv_def)
    then show ?thesis
      using False c r gone kept request_inv [OF gone ok(3) room] by (cases p) (simp_all add: client_step_def slot)
  qed
qed

section \<open>Links, watch and timers\<close>

lemma config_inv: "daemon_inv out [] d \<Longrightarrow> daemon_inv out [] (apply_config os fresh d)"
proof -
  assume inv: "daemon_inv out [] d"
  let ?e = "set_hosts (cf_hosts fresh) (set_fallback (cf_servers fresh) (cf_search fresh) (d_engine d))"
  have "reconfigured (d_engine d) ?e" by (intro reconfigured_trans [OF reconfigured_step(2) reconfigured_step(4)])
  then have "daemon_inv out [] (d\<lparr>d_engine := ?e\<rparr>)" by (rule reconfigured_inv [OF inv])
  then show ?thesis using inv by (simp add: apply_config_def daemon_inv_def work_ok_def doors_ok_def admitted_def)
qed

lemma snapshot_inv: "daemon_inv out [] d \<Longrightarrow> daemon_inv out [] (apply_snapshot os snap d)"
  unfolding apply_snapshot_def Let_def
  by (rule reconfigured_inv) (auto intro: reconfigured_trans [OF reconfigured_step(3) reconfigured_step(1)])

lemma netd_inv: "daemon_inv out [] d \<Longrightarrow> daemon_inv out [] (netd_step os dec now slot d)"
proof -
  assume inv: "daemon_inv out [] d"
  have fold: "daemon_inv out [] d' \<Longrightarrow> daemon_inv out [] (fold (apply_snapshot os) snaps d')" for snaps d'
    by (induction snaps arbitrary: d') (simp_all add: snapshot_inv)
  have "link_ok (snd (netd_service dec arrived now (d_netd d)))" for arrived
    by (rule service_link_ok) (use inv in \<open>simp add: daemon_inv_def doors_ok_def\<close>)
  then have "daemon_inv out [] (d\<lparr>d_netd := snd (netd_service dec arrived now (d_netd d))\<rparr>)" for arrived
    using inv by (simp add: daemon_inv_def work_ok_def doors_ok_def admitted_def)
  then show ?thesis using inv fold by (auto simp: netd_step_def case_prod_unfold Let_def split: option.split)
qed

lemma watch_inv: "daemon_inv out [] d \<Longrightarrow> daemon_inv out [] (watch_step os slot d)"
  using config_inv [of d]
  by (auto simp: watch_step_def daemon_inv_def work_ok_def doors_ok_def admitted_def
      split: option.split sum.split bool.split)

lemma expire_inv:
  assumes "daemon_inv out [] d"
  shows "daemon_inv out [] (d\<lparr>d_netd := maintain connect now (d_netd d), d_stub := expire_stub now (d_stub d),
    d_replies := snd (snd (expire_replies now (d_replies d))),
    d_clients := filter (\<lambda>(i, c). now - cl_since c < CLIENT_TIMEOUT) (d_clients d)\<rparr>)"
proof -
  have "stub_ok out (expire_stub now (d_stub d))"
    using assms expire_queue by (auto simp: daemon_inv_def doors_ok_def stub_ok_def expire_stub_def ids.wf_filter)
  moreover have "clients_ok out (d_next_id d) (filter (\<lambda>(i, c). now - cl_since c < CLIENT_TIMEOUT) (d_clients d))"
    using assms by (auto simp: daemon_inv_def doors_ok_def clients_ok_def ids.wf_filter)
  moreover have "length (sb_clients (expire_stub now (d_stub d))) \<le> length (sb_clients (d_stub d))"
    by (simp add: expire_stub_def)
  moreover have "length (filter (\<lambda>(i, c). now - cl_since c < CLIENT_TIMEOUT) (d_clients d)) + n \<le> MAX_PENDING_CLIENTS"
    if "length (d_clients d) + n \<le> MAX_PENDING_CLIENTS" for n
    using that length_filter_le [of "\<lambda>(i, c). now - cl_since c < CLIENT_TIMEOUT" "d_clients d"] by linarith
  moreover have "queue_ok out (snd (snd (expire_replies now (d_replies d))), [])" "link_ok (maintain connect now (d_netd d))"
    using assms by (simp_all add: daemon_inv_def doors_ok_def expire_queue maintain_ok)
  ultimately show ?thesis
    using assms by (simp add: daemon_inv_def work_ok_def doors_ok_def admitted_def)
qed

lemma timers_inv: "daemon_inv out [] d \<Longrightarrow> \<exists>d'. timers_step os now connect d = Some d' \<and> daemon_inv out [] d'"
proof -
  assume inv: "daemon_inv out [] d"
  have wk: "work_ok out [] d" and dr: "doors_ok out d" using inv by (auto simp: daemon_inv_def)
  note quiet = quiet_facts [OF wk]
  have "\<exists>e acts. engine_step now ETick (d_engine d) = Some (e, acts) \<and>
    (\<forall>d'. d_engine d' = e \<and> d_upstream d' = d_upstream d \<and> d_waiters d' = d_waiters d \<and> doors_ok out d' \<longrightarrow>
      (\<exists>d''. perform os now acts d' = Some d'' \<and> daemon_inv out [] d''))"
    by (rule event_inv [OF wk]) (simp_all add: quiet)
  then obtain e acts where e: "tick now (d_engine d) = Some (e, acts)"
    "\<exists>d''. perform os now acts (d\<lparr>d_engine := e\<rparr>) = Some d'' \<and> daemon_inv out [] d''"
    using dr by auto
  then show ?thesis using expire_inv by (auto simp: timers_step_def)
qed

end

section \<open>Turns and runs\<close>

text \<open>An accepted stream is new: nothing was written to it.\<close>

definition turn_ok :: "('s \<Rightarrow> bytes) \<Rightarrow> 's turn \<Rightarrow> bool" where
  "turn_ok out tn \<longleftrightarrow>
     (\<forall>s peer nb. Inr (s, peer, nb) \<in> set (snd (tn_tcp tn)) \<longrightarrow> out s = []) \<and>
     (\<forall>s nb. Inr (s, nb) \<in> set (snd (tn_native tn)) \<longrightarrow> out s = [])"

lemma for_each_keeps:
  "(\<And>x d. I d \<Longrightarrow> \<exists>d'. f x d = Some d' \<and> I d') \<Longrightarrow> I d \<Longrightarrow> \<exists>d'. for_each f xs d = Some d' \<and> I d'"
proof (induction xs arbitrary: d)
  case (Cons x xs)
  obtain d1 where "f x d = Some d1" "I d1" using Cons.prems by blast
  with Cons show ?case by simp
qed simp

context daemon_os
begin

lemma turn_inv:
  assumes inv: "daemon_inv out [] d" and tn: "turn_ok out tn"
  shows "\<exists>d'. daemon_turn os tn d = Some d' \<and> daemon_inv out [] d'"
proof -
  let ?now = "tn_now tn" and ?I = "daemon_inv out []"
  obtain d1 where 1: "for_each (hangup_step os ?now) (tn_hangups tn) d = Some d1" "?I d1" using for_each_keeps [where I = ?I and f = "hangup_step os ?now", OF hangup_inv inv] by blast
  obtain d2 where 2: "for_each (upstream_step os ?now) (tn_upstream tn) d1 = Some d2" "?I d2" using for_each_keeps [where I = ?I and f = "upstream_step os ?now", OF upstream_inv 1(2)] by blast
  obtain d3 where 3: "for_each (reply_step os) (tn_replies tn) d2 = Some d3" "?I d3" using for_each_keeps [where I = ?I and f = "reply_step os", OF reply_step_inv 2(2)] by blast
  obtain d4 where 4: "for_each (stub_reply_step os) (tn_stub_replies tn) d3 = Some d4" "?I d4"
    using for_each_keeps [where I = ?I and f = "stub_reply_step os", OF stub_reply_step_inv 3(2)] by blast
  obtain d5 where 5: "udp_step os ?now (tn_udp tn) d4 = Some d5" "?I d5" using udp_inv [OF 4(2)] by blast
  have "?I (tcp_accept_step os ?now (tn_tcp tn) d5)" using tcp_accept_inv [OF 5(2)] tn by (simp add: turn_ok_def)
  then obtain d6 where 6: "for_each (stub_client_step os ?now) (tn_stub_clients tn) (tcp_accept_step os ?now (tn_tcp tn) d5) = Some d6"
    "?I d6" using for_each_keeps [where I = ?I and f = "stub_client_step os ?now", OF stub_client_inv] by blast
  have "?I (native_accept_step os ?now (tn_native tn) d6)"
    using accept_native [OF 6(2) refl, of "snd (tn_native tn)" os] 6(2) tn unfolding turn_ok_def native_accept_step_def by simp
  then obtain d7 where 7: "for_each (client_step os ?now) (tn_clients tn) (native_accept_step os ?now (tn_native tn) d6) = Some d7"
    "?I d7" using for_each_keeps [where I = ?I and f = "client_step os ?now", OF client_inv] by blast
  show ?thesis
    using 1 2 3 4 5 6 7 timers_inv [OF watch_inv [OF netd_inv [OF 7(2)]]] by (simp add: daemon_turn_def Let_def)
qed

end

lemma start_inv: "daemon_inv out [] (daemon_start os ent cfg watch connect now)"
proof -
  let ?e = "set_hosts (cf_hosts cfg) (set_fallback (cf_servers cfg) (cf_search cfg)
    (set_hostname (kernel_hostname (os_gethostname os)) (with_entropy ent)))"
  have r: "reconfigured (with_entropy ent) ?e"
    by (intro reconfigured_trans [OF reconfigured_trans [OF reconfigured_step(3) reconfigured_step(2)] reconfigured_step(4)])
  have "engine_ok {} ?e" "opens ?e = {}" "live ?e = {}"
    using reconfigured_ok [OF r start_ok] by (simp_all add: opens_def live_def with_entropy_def)
  moreover have "link_ok (maintain connect now (netd_new now))"
    using backoff_order by (intro maintain_ok) (simp add: link_ok_def netd_new_def NETD_MESSAGE_BYTES_def)
  ultimately show ?thesis
    by (simp add: daemon_start_def daemon_inv_def work_ok_def doors_ok_def admitted_def socks_ok_def up_keys_def upstream_ok_def
        upstream_new_def stub_ok_def stub_open_def queue_ok_def replies_new_def clients_ok_def waiters_ok_def count_waiters_def)
qed

definition polls_ok :: "('s \<Rightarrow> bytes) \<Rightarrow> (io_error + ('u, 's, 'sd, 'tok) system \<times> 's turn) list \<Rightarrow> bool" where
  "polls_ok out polls \<longleftrightarrow> (\<forall>os tn. Inr (os, tn) \<in> set polls \<longrightarrow> daemon_os os out \<and> turn_ok out tn)"

lemma polls_ok_simps [simp]:
  "polls_ok out []" "polls_ok out (Inl e # polls) = polls_ok out polls"
  "polls_ok out (Inr (os, tn) # polls) \<longleftrightarrow> daemon_os os out \<and> turn_ok out tn \<and> polls_ok out polls"
  by (auto simp: polls_ok_def)

lemma run_inv:
  "daemon_inv out [] d \<Longrightarrow> polls_ok out polls \<Longrightarrow> \<exists>going d'. daemon_run polls d = Some (going, d') \<and> daemon_inv out [] d'"
proof (induction polls d rule: daemon_run.induct)
  case (3 os tn polls d)
  obtain d' where "daemon_turn os tn d = Some d'" "daemon_inv out [] d'"
    using daemon_os.turn_inv [of os out d tn] 3 by auto
  then show ?case using 3 by simp
qed auto

section \<open>Silence\<close>

lemma action_engine:
  "perform_action os now a d = Some (d', fs) \<Longrightarrow> d_engine d' = d_engine d \<or>
    (\<exists>x. failed x now (d_engine d) = Some (d_engine d', fs) \<or> local_failed x now (d_engine d) = Some (d_engine d', fs))"
proof (cases a)
  case (Done q c)
  assume "perform_action os now a d = Some (d', fs)"
  then show ?thesis
    using Done by (auto simp: deliver_def daemon_reply_def daemon_stub_answer_def read_clock_def Let_def
        split: option.splits waiter.splits completion.splits prod.splits)
qed (auto split: prod.splits sum.splits if_splits)

text \<open>What a failed transaction leaves true of the engine, carrying out actions leaves true of it.\<close>

context daemon_os
begin

lemma perform_all_keeps:
  assumes P: "\<And>x e e' fs. engine_ok {} e \<Longrightarrow> P e \<Longrightarrow> failed x now e = Some (e', fs) \<or> local_failed x now e = Some (e', fs) \<Longrightarrow> P e'"
  shows "daemon_inv out (acts @ rest) d \<Longrightarrow> P (d_engine d) \<Longrightarrow> perform_all os now acts d = Some (d', fs) \<Longrightarrow> P (d_engine d')"
proof (induction acts arbitrary: rest d d' fs)
  case (Cons a acts)
  obtain d1 f1 where 1: "perform_action os now a d = Some (d1, f1)" "daemon_inv out (acts @ rest @ f1) d1"
    using action_inv [of a "acts @ rest" d now] Cons.prems by auto
  have "engine_ok {} (d_engine d)" using Cons.prems by (simp add: daemon_inv_def work_ok_def)
  then have "P (d_engine d1)" using action_engine [OF 1(1)] P Cons.prems(2) by metis
  then show ?case using Cons.IH [OF 1(2)] Cons.prems(3) 1(1) by auto
qed simp

lemma perform_keeps:
  assumes P: "\<And>x e e' fs. engine_ok {} e \<Longrightarrow> P e \<Longrightarrow> failed x now e = Some (e', fs) \<or> local_failed x now e = Some (e', fs) \<Longrightarrow> P e'"
  shows "daemon_inv out acts d \<Longrightarrow> P (d_engine d) \<Longrightarrow> perform os now acts d = Some d' \<Longrightarrow> P (d_engine d')"
proof (induction "energy (d_engine d)" arbitrary: acts d rule: less_induct)
  case less
  obtain d1 fs where 1: "perform_all os now acts d = Some (d1, fs)" "daemon_inv out fs d1"
    "fs \<noteq> [] \<longrightarrow> energy (d_engine d1) < energy (d_engine d)"
    using perform_all_inv [of acts "[]" d now] less.prems by auto
  have "P (d_engine d1)" using perform_all_keeps [of P now acts "[]" d d1 fs, OF P] less.prems 1 by simp
  moreover have "if fs = [] then d' = d1 else perform os now fs d1 = Some d'"
    using less.prems(3) 1(1) by (auto simp: perform.simps [of os now acts d] split: if_splits)
  ultimately show ?case using less.hyps [of d1 fs] 1 by (cases "fs = []") simp_all
qed

lemma timers_spent:
  assumes inv: "daemon_inv out [] d" and sp: "spent k now (d_engine d)" and later: "now + SERVER_TIMEOUT \<le> now'"
    and r: "timers_step os now connect d = Some d'"
  shows "spent (k + 1) now' (d_engine d')"
proof -
  have wk: "work_ok out [] d" and dr: "doors_ok out d" using inv by (auto simp: daemon_inv_def)
  note quiet = quiet_facts [OF wk]
  obtain e acts d1 where e: "tick now (d_engine d) = Some (e, acts)" "perform os now acts (d\<lparr>d_engine := e\<rparr>) = Some d1"
    "d_engine d' = d_engine d1"
    using r by (auto simp: timers_step_def split: option.splits)
  have "effect ETick (d_engine d) e acts" using step_effect [OF quiet(5), of ETick now] e(1) by simp
  then have "daemon_inv out acts (d\<lparr>d_engine := e\<rparr>)"
    using event_work [OF wk, of ETick "d\<lparr>d_engine := e\<rparr>" acts] quiet dr by (simp add: daemon_inv_def)
  moreover have "spent (k + 1) now' e" by (rule tick_spent(2) [OF quiet(5) sp later e(1)])
  ultimately have "spent (k + 1) now' (d_engine d1)"
    using perform_keeps [of "spent (k + 1) now'" now acts "d\<lparr>d_engine := e\<rparr>" d1] failed_spent [OF _ _ later] e(2) by auto
  then show ?thesis by (simp add: e(3))
qed

end

text \<open>A turn in which the poll reports nothing: it was its timeout that ended it.\<close>

definition silent_turn :: "instant \<Rightarrow> io_error + 's \<Rightarrow> 's turn" where
  "silent_turn now connect =
     \<lparr>tn_now = now, tn_hangups = [], tn_upstream = [], tn_replies = [], tn_stub_replies = [], tn_udp = (0, []),
      tn_tcp = (0, []), tn_stub_clients = [], tn_native = (0, []), tn_clients = [], tn_netd = None,
      tn_snapshot = (\<lambda>_. None), tn_watch = None, tn_connect = connect\<rparr>"

lemma silent_ok [simp]: "turn_ok out (silent_turn now connect)"
  by (simp add: turn_ok_def silent_turn_def)

lemma silent_timers: "daemon_turn os (silent_turn now connect) d = timers_step os now connect d"
  by (simp add: daemon_turn_def silent_turn_def udp_step_def tcp_accept_step_def native_accept_step_def
      netd_step_def watch_step_def Let_def)

lemma silence_drains:
  assumes inv: "daemon_inv out [] d" and os: "daemon_os os1 out" "daemon_os os2 out" "daemon_os os3 out"
    and d: "\<forall>x y. get_tx (d_engine d) x = Some y \<longrightarrow> x_deadline y \<le> t1"
    and later: "t1 + SERVER_TIMEOUT \<le> t2" "t2 + SERVER_TIMEOUT \<le> t3"
  shows "\<exists>d'. daemon_run [Inr (os1, silent_turn t1 c1), Inr (os2, silent_turn t2 c2), Inr (os3, silent_turn t3 c3)] d = Some (True, d') \<and>
    daemon_inv out [] d' \<and> d_waiters d' = [] \<and> up_keys (d_upstream d') = {}"
proof -
  have ok: "engine_ok {} (d_engine d)" using inv by (simp add: daemon_inv_def work_ok_def)
  obtain d1 where 1: "timers_step os1 t1 c1 d = Some d1" "daemon_inv out [] d1" using daemon_os.timers_inv [OF os(1) inv] by blast
  obtain d2 where 2: "timers_step os2 t2 c2 d1 = Some d2" "daemon_inv out [] d2" using daemon_os.timers_inv [OF os(2) 1(2)] by blast
  obtain d3 where 3: "timers_step os3 t3 c3 d2 = Some d3" "daemon_inv out [] d3" using daemon_os.timers_inv [OF os(3) 2(2)] by blast
  note s1 = daemon_os.timers_spent [OF os(1) inv spent_one [OF ok d] later(1) 1(1)]
  note s2 = daemon_os.timers_spent [OF os(2) 1(2) s1 later(2) 2(1)]
  note s3 = daemon_os.timers_spent [OF os(3) 2(2) s2 order_refl 3(1)]
  have wk: "work_ok out [] d3" using 3(2) by (simp add: daemon_inv_def)
  note quiet = quiet_facts [OF wk]
  have "opens (d_engine d3) = {} \<and> live (d_engine d3) = {}" using spent_none [OF quiet(5)] s3 by (simp add: eval_nat_numeral)
  then have "keyset (d_waiters d3) = {}" "up_keys (d_upstream d3) = {}" using quiet by simp_all
  then show ?thesis using 1 2 3 by (simp add: silent_timers keyset_def)
qed

section \<open>Waiting\<close>

text \<open>A poll ends no later than the first deadline, and with no deadline there is no timeout.\<close>

lemma poll_wait:
  assumes "\<exists>u \<in> set (poll_deadlines now d). u \<le> t"
  shows "0 \<le> poll_timeout now d \<and> poll_timeout now d \<le> 2147483647 \<and> now + nat (poll_timeout now d) * 1000000 \<le> max now t"
proof -
  from assms obtain u where u: "u \<in> set (poll_deadlines now d)" "u \<le> t" by blast
  then obtain m where m: "min_opt (poll_deadlines now d) = Some m" using min_opt_none [of "poll_deadlines now d"] by force
  then have "m \<le> t" using u by (auto simp: min_opt_some)
  have "min ((m - now) div 1000000) 2147483647 * 1000000 \<le> (m - now) div 1000000 * 1000000" by simp
  also have "\<dots> \<le> m - now" by simp
  finally have "now + min ((m - now) div 1000000) 2147483647 * 1000000 \<le> max now t"
    using \<open>m \<le> t\<close> by linarith
  then show ?thesis by (simp add: poll_timeout_def m nat_int)
qed

lemma tx_deadline_listed:
  assumes "get_tx (d_engine d) x = Some y"
  shows "\<exists>u \<in> set (poll_deadlines now d). u \<le> x_deadline y"
proof -
  let ?ts = "map (\<lambda>(_, t). x_deadline t) (txs (d_engine d))"
  have "(x, y) \<in> set (txs (d_engine d))" using ids.get_in_set [OF assms] by auto
  then have m: "x_deadline y \<in> set ?ts" by force
  then have "min_by_key (\<lambda>d. d) ?ts \<noteq> None" by (metis empty_iff list.set(1) min_by_key_eq_None)
  then obtain u where u: "next_deadline (d_engine d) = Some u" unfolding next_deadline_def by blast
  then have "u \<le> x_deadline y" using min_by_key_Some [of "\<lambda>d. d" ?ts u] m unfolding next_deadline_def by blast
  then show ?thesis using u by (auto simp: poll_deadlines_def)
qed

lemma client_deadline_listed:
  assumes "(i, c) \<in> set (d_clients d)"
  shows "\<exists>u \<in> set (poll_deadlines now d). u \<le> cl_since c + CLIENT_TIMEOUT"
proof -
  let ?ts = "map (\<lambda>(i, c). cl_since c + CLIENT_TIMEOUT) (d_clients d)"
  have m: "cl_since c + CLIENT_TIMEOUT \<in> set ?ts" using assms by force
  then obtain u where u: "min_opt ?ts = Some u" using min_opt_none [of ?ts] by (metis empty_iff list.set(1) not_None_eq)
  then have "u \<le> cl_since c + CLIENT_TIMEOUT" using m min_opt_some [of ?ts u] by blast
  then show ?thesis using u by (auto simp: poll_deadlines_def)
qed

lemma replies_deadline_listed:
  assumes "(i, p) \<in> set (rp_pending q)"
  shows "\<exists>u. replies_deadline q = Some u \<and> u \<le> pd_deadline p"
proof -
  let ?ts = "map (\<lambda>(i, p). pd_deadline p) (rp_pending q)"
  have m: "pd_deadline p \<in> set ?ts" using assms by force
  then obtain u where u: "min_opt ?ts = Some u" using min_opt_none [of ?ts] by (metis empty_iff list.set(1) not_None_eq)
  then have "u \<le> pd_deadline p" using m min_opt_some [of ?ts u] by blast
  then show ?thesis using u by (simp add: replies_deadline_def)
qed

lemma stub_deadline_listed:
  assumes "(i, c) \<in> set (sb_clients (d_stub d)) \<and> t = tc_since c + TCP_TIMEOUT
    \<or> (i, p) \<in> set (rp_pending (sb_replies (d_stub d))) \<and> t = pd_deadline p"
  shows "\<exists>u \<in> set (poll_deadlines now d). u \<le> t"
proof -
  let ?st = "d_stub d"
  let ?ts = "map (\<lambda>(i, c). tc_since c + TCP_TIMEOUT) (sb_clients ?st)
    @ (case replies_deadline (sb_replies ?st) of Some t \<Rightarrow> [t] | None \<Rightarrow> [])
    @ (case backoff_deadline now (sb_backoff ?st) of Some t \<Rightarrow> [t] | None \<Rightarrow> [])"
  have m: "\<exists>v \<in> set ?ts. v \<le> t"
    using assms
  proof
    assume "(i, c) \<in> set (sb_clients ?st) \<and> t = tc_since c + TCP_TIMEOUT"
    then have "t \<in> set ?ts" by force
    then show ?thesis by blast
  next
    assume "(i, p) \<in> set (rp_pending (sb_replies ?st)) \<and> t = pd_deadline p"
    then obtain u where "replies_deadline (sb_replies ?st) = Some u" "u \<le> t" using replies_deadline_listed by blast
    then show ?thesis by simp
  qed
  then obtain u where u: "min_opt ?ts = Some u" using min_opt_none [of ?ts] by (metis empty_iff list.set(1) not_None_eq)
  then have "u \<le> t" using m min_opt_some [of ?ts u] by (meson order_trans)
  moreover have "stub_deadline now ?st = Some u" using u by (simp add: stub_deadline_def)
  ultimately show ?thesis by (auto simp: poll_deadlines_def)
qed

text \<open>Every socket of a transaction is in the poll set.\<close>

lemma upstream_polled:
  assumes "x \<in> up_keys (d_upstream d)"
  shows "\<exists>fd ev. (x, fd, ev) \<in> set (upstream_fds (os_udp_fd os) (os_fd os) (d_upstream d)) \<and> (int fd, ev) \<in> set (poll_set os fds now d)"
proof -
  have "\<exists>fd ev. (x, fd, ev) \<in> set (upstream_fds (os_udp_fd os) (os_fd os) (d_upstream d))"
    using assms unfolding up_keys_def keyset_def upstream_fds_def set_append set_map by fastforce
  then obtain fd ev where f: "(x, fd, ev) \<in> set (upstream_fds (os_udp_fd os) (os_fd os) (d_upstream d))" by blast
  then have "(int fd, ev) \<in> set (map (\<lambda>(tx, fd, ev). (int fd, ev)) (upstream_fds (os_udp_fd os) (os_fd os) (d_upstream d)))" by force
  then have "(int fd, ev) \<in> set (poll_set os fds now d)" unfolding poll_set_def by (cases fds) (simp del: set_map)
  with f show ?thesis by blast
qed

lemma waiter_polled:
  assumes "(q, w) \<in> set (d_waiters d)" "waiter_stream w = Some s"
  shows "(int (os_fd os s), 0) \<in> set (poll_set os fds now d)"
proof -
  have "stream_fd (os_fd os) w = Some (os_fd os s)"
    using assms(2) by (cases w rule: waiter_stream.cases) auto
  then have "(int (os_fd os s), 0) \<in> set (List.map_filter (\<lambda>(q, w). map_option (\<lambda>fd. (int fd, 0 :: u16)) (stream_fd (os_fd os) w)) (d_waiters d))"
    using assms(1) by (force simp: List.map_filter_def)
  then show ?thesis by (cases fds) (simp add: poll_set_def)
qed

end
