(* ===== verification/Daemon_Answers.thy ===== *)
theory Daemon_Answers
  imports Daemon_Steps
begin

text \<open>
  Whoever waits for an answer is handed one. The engine completes a question for addresses with
  addresses and any other with an answer, so that no completion finds a waiter it does not fit; the
  calls of the reply queues and the datagrams sent record what was handed over; and when nothing
  arrives any more, every waiter is given the reply of a resolution that failed.
\<close>

section \<open>Which completions the engine gives\<close>

text \<open>
  A question for a record is completed by an answer and one for addresses by addresses: with the
  open address lookups in \<open>K\<close>, an operation completes nothing but members of \<open>K\<close> with addresses, and
  gives no other answers than those that satisfy \<open>U\<close>.
\<close>

definition lookup_qids :: "engine \<Rightarrow> qid set" where
  "lookup_qids e = fst ` set (lookups e)"

definition done_ok :: "qid set \<Rightarrow> (answer \<Rightarrow> bool) \<Rightarrow> action list \<Rightarrow> bool" where
  "done_ok K U acts \<longleftrightarrow>
     (\<forall>q c. Done q c \<in> set acts \<longrightarrow> (case c of CAnswer a \<Rightarrow> U a | CAddresses a \<Rightarrow> q \<in> K))"

definition yields :: "qid set \<Rightarrow> (answer \<Rightarrow> bool) \<Rightarrow> result \<Rightarrow> bool" where
  "yields K U r \<longleftrightarrow> (\<forall>e' acts. r = Some (e', acts) \<longrightarrow> lookup_qids e' \<subseteq> K \<and> done_ok K U acts)"

lemma yields_simps [simp]:
  "yields K U None"
  "yields K U (Some r) \<longleftrightarrow> lookup_qids (fst r) \<subseteq> K \<and> done_ok K U (snd r)"
  by (simp add: yields_def, cases r, simp add: yields_def)

lemma done_ok_simps [simp]:
  "done_ok K U []" "done_ok K U (Send x server i tcp payload # acts) = done_ok K U acts"
  "done_ok K U (Cancel x # acts) = done_ok K U acts"
  "done_ok K U (Done q (CAnswer a) # acts) \<longleftrightarrow> U a \<and> done_ok K U acts"
  "done_ok K U (Done q (CAddresses s) # acts) \<longleftrightarrow> q \<in> K \<and> done_ok K U acts"
  "done_ok K U (acts @ acts') \<longleftrightarrow> done_ok K U acts \<and> done_ok K U acts'"
  by (auto simp: done_ok_def split: completion.splits)

lemma lookup_qids_simps [simp]:
  "lookup_qids (e\<lparr>tasks := ts\<rparr>) = lookup_qids e" "lookup_qids (e\<lparr>txs := xs\<rparr>) = lookup_qids e"
  "lookup_qids (e\<lparr>draws := n\<rparr>) = lookup_qids e" "lookup_qids (e\<lparr>answers_cache := c\<rparr>) = lookup_qids e"
  "lookup_qids (e\<lparr>demoted := m\<rparr>) = lookup_qids e" "lookup_qids (e\<lparr>next_id := j\<rparr>) = lookup_qids e"
  "lookup_qids (bump f e) = lookup_qids e" "lookup_qids (update_task i g e) = lookup_qids e"
  "lookup_qids (snd (draw e)) = lookup_qids e" "lookup_qids (snd (fresh_id e)) = lookup_qids e"
  "lookup_qids (snd (consult_cache task cand sid now e)) = lookup_qids e"
  "lookup_qids (demote server sid now e) = lookup_qids e" "lookup_qids (count_query e) = lookup_qids e"
  by (simp_all add: lookup_qids_def bump_def update_task_def draw_def fresh_id_def consult_cache_def demote_def
      count_query_def split: prod.splits option.splits)

lemma lookup_qids_map:
  "lookup_qids (e\<lparr>lookups := hm_insert (=) q l (lookups e)\<rparr>) = insert q (lookup_qids e)"
  "lookup_qids (e\<lparr>lookups := hm_remove (=) q (lookups e)\<rparr>) = lookup_qids e - {q}"
  using keyset_insert [of q l "lookups e"] keyset_remove [of q "lookups e"]
  by (simp_all add: lookup_qids_def keyset_def)

lemma get_lookup_qid: "get_lookup e q = Some l \<Longrightarrow> q \<in> lookup_qids e"
  using ids.get_in_set [of q "lookups e" l] by (force simp: lookup_qids_def)

lemma settle_yields:
  assumes "lookup_qids e \<subseteq> K" "U ans"
  shows "yields K U (Some (settle i ans e))"
proof (cases "get_task e i")
  case None
  then show ?thesis using assms by (simp add: settle_def)
next
  case (Some task)
  let ?e2 = "case t_tx task of None \<Rightarrow> e\<lparr>tasks := hm_remove (=) i (tasks e)\<rparr>
    | Some x \<Rightarrow> e\<lparr>tasks := hm_remove (=) i (tasks e), txs := hm_remove (=) x (txs e)\<rparr>"
  have e2: "lookup_qids ?e2 = lookup_qids e" by (simp split: option.split)
  show ?thesis
  proof (cases "t_owner task")
    case (OResolve q)
    then show ?thesis using Some assms e2 by (simp add: settle_def Let_def split: option.splits)
  next
    case (OLookup q)
    show ?thesis
    proof (cases "get_lookup ?e2 q")
      case None
      then show ?thesis using Some OLookup assms e2 by (simp add: settle_def Let_def split: option.splits)
    next
      case l: (Some l)
      have "q \<in> K" using get_lookup_qid [OF l] e2 assms(1) by auto
      then show ?thesis
        using Some OLookup l assms e2 by (auto simp: settle_def Let_def lookup_qids_map split: option.splits)
    qed
  qed
qed

lemma refuse_yields: "lookup_qids e \<subseteq> K \<Longrightarrow> U (unavailable None) \<Longrightarrow> yields K U (Some (refuse i e))"
  unfolding refuse_def by (rule settle_yields) simp_all

lemma transmit_yields:
  "lookup_qids e \<subseteq> K \<Longrightarrow> yields K U (Some (transmit i server tcp now iface dns_id q payload e))"
  using lookup_qids_simps(10) [of e] by (cases "fresh_id e") (simp add: transmit_def Let_def)

lemma send_yields:
  assumes "lookup_qids e \<subseteq> K" "\<forall>i. U (unavailable i)"
  shows "yields K U (send i server tcp now e)"
proof (cases "get_task e i")
  case (Some task)
  obtain drawn e1 where d: "draw e = (drawn, e1)" by force
  then have e1: "lookup_qids e1 \<subseteq> K" using assms(1) lookup_qids_simps(9) [of e] by simp
  note ends = settle_yields [OF assms(1), of U _ i] refuse_yields [OF assms(1), of U i]
    refuse_yields [OF e1, of U i] transmit_yields [OF e1, of U i]
  show ?thesis
    using ends assms(2) Some d by (auto simp: send_def Let_def simp del: yields_simps(2) split: option.split sum.split)
qed (use assms in \<open>simp add: send_def\<close>)

lemma next_attempt_yields:
  assumes "lookup_qids e \<subseteq> K" "\<forall>i. U (unavailable i)"
  shows "yields K U (next_attempt i now e)"
proof (cases "get_task e i")
  case (Some task)
  show ?thesis
    using settle_yields [OF assms(1), of U _ i] send_yields [OF _ assms(2), of _ K i] assms Some
    by (simp add: next_attempt_def Let_def del: yields_simps(2))
qed (use assms in \<open>simp add: next_attempt_def\<close>)

lemma failed_yields:
  assumes "lookup_qids e \<subseteq> K" "\<forall>i. U (unavailable i)"
  shows "yields K U (failed x now e)" "yields K U (local_failed x now e)"
  using next_attempt_yields [OF _ assms(2), of _ K] assms
  by (simp_all add: failed_def local_failed_def Let_def split: option.split)

lemma run_each_yields:
  assumes "\<And>x e. lookup_qids e \<subseteq> K \<Longrightarrow> yields K U (f x e)" "lookup_qids e \<subseteq> K"
  shows "yields K U (run_each f xs e)"
  using assms(2)
proof (induction xs arbitrary: e)
  case (Cons x xs)
  show ?case
  proof (cases "f x e")
    case (Some r)
    then have r: "lookup_qids (fst r) \<subseteq> K" "done_ok K U (snd r)" using assms(1) [OF Cons.prems, of x] by simp_all
    then show ?thesis using Cons.IH [OF r(1)] Some by (cases r; cases "run_each f xs (fst r)") auto
  qed simp
qed simp

lemma tick_yields:
  assumes "lookup_qids e \<subseteq> K" "\<forall>i. U (unavailable i)"
  shows "yields K U (tick now e)"
proof -
  have "yields K U (expire now x e)" if "lookup_qids e \<subseteq> K" for x e
    using failed_yields(1) [OF that assms(2), of x now] by (cases "failed x now e") (auto simp: expire_def)
  then show ?thesis unfolding tick_def Let_def by (intro run_each_yields assms(1))
qed

lemma next_candidate_yields:
  "lookup_qids e \<subseteq> K \<Longrightarrow> yields K (\<lambda>a. True) (next_candidate i now e)"
proof (induction i now e rule: next_candidate.induct)
  case (1 i now e)
  show ?case
  proof (cases "get_task e i")
    case None
    then show ?thesis using 1(2) by (simp add: next_candidate.simps)
  next
    case (Some task)
    show ?thesis
    proof (cases "t_candidates task")
      case Nil
      then show ?thesis using Some 1(2) settle_yields [of e K "\<lambda>a. True"] by (simp add: next_candidate.simps [of i now e])
    next
      case (Cons candidate rest)
      let ?e1 = "update_task i (take_candidate candidate rest) e"
      show ?thesis
      proof (cases "route ?e1 candidate")
        case None
        then show ?thesis
          using Some Cons 1(2) settle_yields [of ?e1 K "\<lambda>a. True"] by (simp add: next_candidate.simps [of i now e])
      next
        case sid: (Some sid)
        let ?e2 = "update_task i (\<lambda>t. t\<lparr>t_scope := Some sid\<rparr>) ?e1"
        obtain r e3 where c: "consult_cache task candidate sid now ?e2 = (r, e3)" by force
        have e3: "lookup_qids e3 \<subseteq> K" using 1(2) lookup_qids_simps(11) [of task candidate sid now ?e2] c by simp
        show ?thesis
        proof (cases r)
          case None
          then show ?thesis
            using Some Cons sid c next_attempt_yields [OF e3, of "\<lambda>a. True" i now] by (simp add: next_candidate.simps [of i now e])
        next
          case en: (Some en)
          let ?e4 = "bump (\<lambda>c. c\<lparr>c_cache_hits := c_cache_hits c + 1\<rparr>) e3"
          have "yields K (\<lambda>a. True) (Some (settle i ans ?e4))" for ans by (rule settle_yields) (use e3 in simp_all)
          then show ?thesis
            using Some Cons sid c en e3 1(1) [OF Some Cons refl sid refl c [symmetric]]
            by (simp add: next_candidate.simps [of i now e] Let_def del: yields_simps(2))
        qed
      qed
    qed
  qed
qed

lemma settle_any: "lookup_qids e \<subseteq> K \<Longrightarrow> yields K (\<lambda>a. True) (Some (settle i ans e))"
  by (rule settle_yields) simp_all

lemma advance_yields:
  assumes "lookup_qids e \<subseteq> K"
  shows "yields K (\<lambda>a. True) (advance i now e)"
proof (cases "get_task e i")
  case None
  then show ?thesis using assms by (simp add: advance_def)
next
  case (Some task)
  have "yields K (\<lambda>a. True) (next_candidate i now (update_task i g e))" "yields K (\<lambda>a. True) (next_candidate i now e)" for g
    by (rule next_candidate_yields, use assms in simp)+
  moreover have "yields K (\<lambda>a. True) (Some (settle i ans (bump f e)))" "yields K (\<lambda>a. True) (Some (settle i ans e))" for ans f
    by (rule settle_any, use assms in simp)+
  ultimately show ?thesis
    using Some by (simp only: advance_def option.case Let_def) (simp del: yields_simps(2) split: option.split)
qed

lemma resolve_name_yields: "lookup_qids e \<subseteq> K \<Longrightarrow> yields K (\<lambda>a. True) (resolve_name q n rtype no_cache now e)"
  using lookup_qids_simps(10) [of e]
  by (cases "fresh_id e") (simp add: resolve_name_def start_task_def advance_yields)

lemma resolve_yields: "lookup_qids e \<subseteq> K \<Longrightarrow> yields K (\<lambda>a. True) (resolve q s rtype no_cache now e)"
  by (simp add: resolve_def resolve_name_yields split: option.split)

lemma start_tasks_qids: "start_tasks q n ts e = (pending, e') \<Longrightarrow> lookup_qids e' = lookup_qids e"
proof (induction ts arbitrary: e pending)
  case (Cons t ts)
  obtain j e1 where f: "fresh_id e = (j, e1)" by force
  then have "lookup_qids e1 = lookup_qids e" using lookup_qids_simps(10) [of e] by simp
  then show ?case using Cons f by (auto simp: start_task_def split: prod.splits)
qed simp

lemma lookup_yields:
  assumes "lookup_qids e \<subseteq> K" "q \<in> K"
  shows "yields K (\<lambda>a. True) (lookup_addresses q s fam now e)"
proof (cases "ok (parse s)")
  case (Some n)
  obtain pending e1 where p: "start_tasks q n (family_types fam) (count_query e) = (pending, e1)" by force
  have "lookup_qids (e1\<lparr>lookups := hm_insert (=) q l (lookups e1)\<rparr>) \<subseteq> K" for l
    using start_tasks_qids [OF p] assms by (simp add: lookup_qids_map)
  then have "yields K (\<lambda>a. True) (run_each (\<lambda>i. advance i now) pending (e1\<lparr>lookups := hm_insert (=) q l (lookups e1)\<rparr>))" for l
    by (intro run_each_yields advance_yields)
  then show ?thesis using Some p by (simp add: lookup_addresses_def Let_def)
qed (use assms in \<open>simp add: lookup_addresses_def Let_def\<close>)

lemma abandon_tasks_qids:
  "lookup_qids (fst (abandon_tasks is e)) = lookup_qids e \<and> done_ok K U (snd (abandon_tasks is e))"
proof (induction "is" arbitrary: e)
  case (Cons i "is")
  show ?case
  proof (cases "Option.bind (get_task e i) t_tx")
    case None
    then show ?thesis using Cons.IH [of "e\<lparr>tasks := hm_remove (=) i (tasks e)\<rparr>"] by (simp add: case_prod_unfold Let_def)
  next
    case (Some x)
    then show ?thesis
      using Cons.IH [of "e\<lparr>tasks := hm_remove (=) i (tasks e), txs := hm_remove (=) x (txs e)\<rparr>"] by (simp add: case_prod_unfold Let_def)
  qed
qed simp

lemma accept_yields:
  assumes "lookup_qids e \<subseteq> K"
  shows "yields K (\<lambda>a. True) (accept_answer i task server msg now e)"
proof -
  have "yields K (\<lambda>a. True) (Some (settle i ans e'))" "yields K (\<lambda>a. True) (next_candidate i now e')"
    if "lookup_qids e' = lookup_qids e" for ans e'
    using that assms by (auto simp del: yields_simps(2) intro!: settle_any next_candidate_yields)
  then show ?thesis by (simp add: accept_answer_def Let_def del: yields_simps(2))
qed

lemma received_yields:
  assumes "lookup_qids e \<subseteq> K"
  shows "yields K (\<lambda>a. True) (received x bs now e)"
proof -
  have "yields K (\<lambda>a. True) (send i server tcp now e')" "yields K (\<lambda>a. True) (next_attempt i now e')"
    "yields K (\<lambda>a. True) (accept_answer i task server msg now e')"
    if "lookup_qids e' = lookup_qids e" for i server tcp task msg e'
    using that assms by (auto intro!: send_yields next_attempt_yields accept_yields)
  then show ?thesis using assms by (simp add: received_def Let_def split: option.split)
qed

fun looks_up :: "event \<Rightarrow> qid set" where
  "looks_up (ELookup q s fam) = {q}"
| "looks_up _ = {}"

lemma step_yields:
  assumes "lookup_qids e \<union> looks_up ev \<subseteq> K"
  shows "yields K (\<lambda>a. True) (engine_step now ev e)"
proof -
  have same: "lookup_qids e' = lookup_qids e" if "reconfigured e e'" for e'
    using that unfolding reconfigured_def lookup_qids_def by simp
  have e: "lookup_qids e \<subseteq> K" using assms by simp
  show ?thesis
  proof (cases ev)
    case (ELookup q s fam)
    then show ?thesis using lookup_yields [OF e] assms by simp
  next
    case (EReverse q addr)
    then show ?thesis using resolve_yields [OF e] by (simp add: reverse_def split: option.split ip_addr.split)
  next
    case (EAbandon q)
    show ?thesis
      using e EAbandon abandon_tasks_qids [of "map fst (filter (\<lambda>(_, t). owner_qid (t_owner t) = q) (tasks e))" e K "\<lambda>a. True"]
      by (auto simp: abandon_def Let_def lookup_qids_map case_prod_unfold)
  qed (simp_all add: e resolve_yields resolve_question_def resolve_name_yields lookup_yields received_yields
      failed_yields tick_yields same [OF reconfigured_step(1)] same [OF reconfigured_step(2)]
      same [OF reconfigured_step(3)] same [OF reconfigured_step(4)] same [OF reconfigured_step(5)])
qed

section \<open>Replies are handed over\<close>

text \<open>
  A query that could not be resolved gets the reply with the code SERVFAIL, which always encodes.
\<close>

abbreviation failed_answer :: answer where
  "failed_answer \<equiv> default_answer\<lparr>a_outcome := Unavailable\<rparr>"

lemma failure_reply: "a_outcome ans = Unavailable \<Longrightarrow> build_reply query ans = build_reply query failed_answer"
  by (simp add: build_reply_def)

lemma failure_encodes:
  assumes "parse_query p = Inr query"
  obtains b where "encode (build_reply query failed_answer) = Inr b" "length b \<le> 282"
    "decode b = Inr (build_reply query failed_answer)"
proof -
  let ?m = "build_reply query failed_answer"
  obtain q where q: "decode p = Inr query" "questions query = [q]"
    using assms by (auto simp: parse_query_accepts resolvable_def)
  have wf: "wf_message query" by (rule decode_sound [OF q(1)])
  then have "wire_len (q_name q) \<le> 255" using q(2) by (simp add: wf_message_def wf_name_def MAX_NAME_LEN_def)
  moreover have "answers ?m = []" "authority ?m = []" "additional ?m = (if message_opt query = None then [] else [record_opt EDNS_UDP_SIZE False])"
    by (simp_all add: build_reply_answers) (simp_all add: build_reply_def reply_to_def default_message_def Let_def)
  ultimately have "\<exists>b. encode ?m = Inr b \<and> length b \<le> 282"
    using q(2) by (simp add: encode_Inr build_reply_fields(3) length_question_write length_record_opt MAX_MESSAGE_SIZE_def)
  then obtain b where b: "encode ?m = Inr b" "length b \<le> 282" by blast
  have "wf_message ?m" by (rule wf_build_reply [OF wf]) (simp add: wf_answer_def default_answer_def)
  from that [OF b decode_encode [OF this b(1)]] show thesis .
qed

text \<open>
  What was handed over between two states: the frames given to the reply queues, and the datagrams
  sent. A waiter has been given its reply when it is among them: a native client the frame of an
  answer or of addresses, a query of the stub its SERVFAIL reply.
\<close>

definition news :: "('d \<Rightarrow> 'a list) \<Rightarrow> 'd \<Rightarrow> 'd \<Rightarrow> 'a set" where
  "news f d d' = set (drop (length (f d)) (f d'))"

definition native_calls :: "('u, 's, 'sd) resolvd \<Rightarrow> ('s \<times> bytes \<times> (io_error + unit)) list" where
  "native_calls d = rp_tried (d_replies d)"

definition stub_calls :: "('u, 's, 'sd) resolvd \<Rightarrow> ('s \<times> bytes \<times> (io_error + unit)) list" where
  "stub_calls d = rp_tried (sb_replies (d_stub d))"

fun given :: "('u, 's, 'sd) resolvd \<Rightarrow> ('u, 's, 'sd) resolvd \<Rightarrow> 's waiter \<Rightarrow> bool" where
  "given d d' (WNative stream) \<longleftrightarrow>
     (\<exists>rp r. (stream, response_frame rp, r) \<in> news native_calls d d' \<and>
        ((\<exists>a. a_outcome a = Unavailable \<and> rp = RpAnswer (to_answer a)) \<or> (\<exists>a. rp = RpAddresses (to_addresses a))))"
| "given d d' (WStub (OTcp stream query)) \<longleftrightarrow>
     (\<exists>b r. (stream, be_bytes 2 (word_of_nat (length b) :: u16) @ b, r) \<in> news stub_calls d d' \<and>
        decode b = Inr (build_reply query failed_answer))"
| "given d d' (WStub (OUdp peer query)) \<longleftrightarrow>
     (\<exists>b. (b, peer) \<in> news d_sent d d' \<and> decode b = Inr (build_reply query failed_answer))"

definition grown :: "('u, 's, 'sd) resolvd \<Rightarrow> ('u, 's, 'sd) resolvd \<Rightarrow> bool" where
  "grown d d' \<longleftrightarrow> prefix (native_calls d) (native_calls d') \<and> prefix (stub_calls d) (stub_calls d') \<and> prefix (d_sent d) (d_sent d')"

lemma grown_refl [simp]: "grown d d"
  by (simp add: grown_def)

lemma grown_trans: "grown d d' \<Longrightarrow> grown d' d'' \<Longrightarrow> grown d d''"
  unfolding grown_def by (meson prefix_order.trans)

lemma news_mono:
  assumes "prefix (f d0) (f d1)" "prefix (f d2) (f d3)"
  shows "news f d1 d2 \<subseteq> news f d0 d3"
proof -
  obtain xs ys where x: "f d1 = f d0 @ xs" "f d3 = f d2 @ ys" using assms by (auto simp: prefix_def)
  have "set (drop (length (f d1)) (f d2)) \<subseteq> set (drop (length (f d0)) (f d2))"
    unfolding x(1) length_append by (metis add.commute drop_drop set_drop_subset)
  then show ?thesis using x(2) by (auto simp: news_def)
qed

lemma given_mono:
  assumes "given d1 d2 w" "grown d0 d1" "grown d2 d3"
  shows "given d0 d3 w"
proof -
  have "news native_calls d1 d2 \<subseteq> news native_calls d0 d3" "news stub_calls d1 d2 \<subseteq> news stub_calls d0 d3"
    "news d_sent d1 d2 \<subseteq> news d_sent d0 d3"
    using assms(2,3) by (simp_all only: grown_def news_mono)
  then show ?thesis using assms(1) by (cases w rule: waiter_stream.cases) (simp_all, blast+)
qed

definition tended :: "('u, 's, 'sd) resolvd \<Rightarrow> ('u, 's, 'sd) resolvd \<Rightarrow> bool" where
  "tended d d' \<longleftrightarrow>
     grown d d' \<and> (\<forall>(q, w) \<in> set (d_waiters d). (q, w) \<in> set (d_waiters d') \<or> given d d' w)"

lemma tended_refl [simp]: "tended d d"
  by (auto simp: tended_def)

lemma tended_trans:
  assumes "tended d d'" "tended d' d''"
  shows "tended d d''"
  using assms given_mono [of d d' _ d d''] given_mono [of d' d'' _ d d''] grown_trans [of d d' d'']
  unfolding tended_def by (auto split: prod.splits) blast+

lemma tended_same:
  "d_waiters d' = d_waiters d \<Longrightarrow> d_replies d' = d_replies d \<Longrightarrow> d_stub d' = d_stub d \<Longrightarrow> d_sent d' = d_sent d \<Longrightarrow> tended d d'"
  by (auto simp: tended_def grown_def native_calls_def stub_calls_def)

section \<open>Waiters and their kinds\<close>

text \<open>
  With the open address lookups in \<open>K\<close>: no query of the stub waits for one of them, and each came
  from a datagram or a stream the stub accepted.
\<close>

definition kinds_ok :: "qid set \<Rightarrow> ('u, 's, 'sd) resolvd \<Rightarrow> bool" where
  "kinds_ok K d \<longleftrightarrow>
     lookup_qids (d_engine d) \<subseteq> K \<and> (\<forall>q \<in> K. q < d_next_id d) \<and> hm_wf (=) (d_waiters d) \<and>
     (\<forall>(q, w) \<in> set (d_waiters d). q < d_next_id d \<and>
        (\<forall>orig. w = WStub orig \<longrightarrow> q \<notin> K \<and> (\<exists>b. parse_query b = Inr (origin_query orig))))"

lemma enqueue_tried:
  "\<exists>r. rp_tried (snd (snd (enqueue wr stream frame now q))) = rp_tried q @ [(stream, frame, r)]"
  by (auto simp: enqueue_def Let_def split: sum.splits prod.splits)

lemma reply_given:
  assumes "d' = daemon_reply os stream rp d"
  shows "grown d d' \<and> d_waiters d' = d_waiters d \<and> (\<exists>r. (stream, response_frame rp, r) \<in> news native_calls d d')"
proof -
  obtain r where "rp_tried (d_replies d') = rp_tried (d_replies d) @ [(stream, response_frame rp, r)]"
    using enqueue_tried assms by (fastforce simp: daemon_reply_def read_clock_def)
  moreover have "d_stub d' = d_stub d" "d_sent d' = d_sent d" "d_waiters d' = d_waiters d"
    using assms by (simp_all add: daemon_reply_def read_clock_def)
  ultimately show ?thesis by (auto simp: grown_def native_calls_def stub_calls_def news_def)
qed

lemma stub_answer_given:
  assumes d': "d' = daemon_stub_answer os orig ans d"
    and q: "parse_query p = Inr (origin_query orig)" and a: "a_outcome ans = Unavailable"
  shows "grown d d' \<and> d_waiters d' = d_waiters d \<and> given d d' (WStub orig)"
proof -
  have same: "d_replies d' = d_replies d" "d_waiters d' = d_waiters d"
    using d' by (simp_all add: daemon_stub_answer_def read_clock_def split: prod.split)
  let ?m = "build_reply (origin_query orig) failed_answer"
  obtain b where b: "encode ?m = Inr b" "length b \<le> 282" "decode b = Inr ?m" by (rule failure_encodes [OF q])
  note m = failure_reply [OF a, of "origin_query orig"]
  show ?thesis
  proof (cases orig)
    case (OUdp peer query)
    have "512 \<le> unat (udp_size query)"
      by (auto simp: udp_size_def CLASSIC_UDP_SIZE_def word_le_nat_alt max_def split: option.splits)
    then have "encode_udp (build_reply query ans) (udp_size query) = Inr b"
      using b m OUdp by (simp add: encode_udp_alt rust_simps)
    then have "d_stub d' = d_stub d" "d_sent d' = d_sent d @ [(b, peer)]"
      using d' OUdp by (simp_all add: daemon_stub_answer_def read_clock_def stub_answer_def)
    then show ?thesis using same b(3) OUdp by (auto simp: grown_def native_calls_def stub_calls_def news_def)
  next
    case (OTcp stream query)
    let ?f = "be_bytes 2 (word_of_nat (length b) :: u16) @ b"
    obtain r where "rp_tried (sb_replies (d_stub d')) = rp_tried (sb_replies (d_stub d)) @ [(stream, ?f, r)]"
      using enqueue_tried [of "os_write os" stream ?f _ "sb_replies (d_stub d)"] d' OTcp b m
      by (fastforce simp: daemon_stub_answer_def read_clock_def stub_answer_def send_tcp_def)
    moreover have "d_sent d' = d_sent d"
      using d' OTcp b m by (simp add: daemon_stub_answer_def read_clock_def stub_answer_def)
    ultimately show ?thesis using same b(3) OTcp by (auto simp: grown_def native_calls_def stub_calls_def news_def)
  qed
qed

lemma removed_other: "(q', w) \<in> set ws \<Longrightarrow> q' \<noteq> q \<Longrightarrow> (q', w) \<in> set (hm_remove (=) q ws)"
  by (auto simp: hm_remove_def)

lemma deliver_tended:
  assumes k: "kinds_ok K d" and c: "case c of CAnswer a \<Rightarrow> a_outcome a = Unavailable | CAddresses a \<Rightarrow> q \<in> K"
  shows "tended d (deliver os q c d)"
proof (cases "hm_get (=) q (d_waiters d)")
  case None
  then show ?thesis by (simp add: deliver_def)
next
  case (Some w)
  let ?d1 = "d\<lparr>d_waiters := hm_remove (=) q (d_waiters d)\<rparr>" and ?d2 = "deliver os q c d"
  have mem: "(q, w) \<in> set (d_waiters d)" using ids.get_in_set [OF Some] by auto
  have only: "w' = w" if "(q, w') \<in> set (d_waiters d)" for w'
    using that Some k ids.in_set_get [of "d_waiters d" q w'] by (simp add: kinds_ok_def)
  have stub: "q \<notin> K" "\<exists>b. parse_query b = Inr (origin_query orig)" if "w = WStub orig" for orig
    using k mem that by (auto simp: kinds_ok_def)
  have g: "grown ?d1 ?d2 \<and> d_waiters ?d2 = d_waiters ?d1 \<and> given ?d1 ?d2 w"
  proof (cases w)
    case (WNative stream)
    let ?rp = "case c of CAnswer a \<Rightarrow> RpAnswer (to_answer a) | CAddresses a \<Rightarrow> RpAddresses (to_addresses a)"
    have "?d2 = daemon_reply os stream ?rp ?d1" using Some WNative by (cases c) (simp_all add: deliver_def)
    note r = reply_given [OF this]
    have "(\<exists>a. a_outcome a = Unavailable \<and> ?rp = RpAnswer (to_answer a)) \<or> (\<exists>a. ?rp = RpAddresses (to_addresses a))"
      using c by (cases c) auto
    then have "given ?d1 ?d2 (WNative stream)" using r unfolding given.simps by blast
    then show ?thesis using r WNative by blast
  next
    case (WStub orig)
    obtain a where a: "c = CAnswer a" "a_outcome a = Unavailable" using c stub(1) [OF WStub] by (cases c) auto
    obtain p where p: "parse_query p = Inr (origin_query orig)" using stub(2) [OF WStub] by blast
    have "?d2 = daemon_stub_answer os orig a ?d1" using Some WStub a by (simp add: deliver_def)
    from stub_answer_given [OF this p a(2)] WStub show ?thesis by simp
  qed
  have d1: "grown d ?d1" by (simp add: grown_def native_calls_def stub_calls_def)
  have "given d ?d2 w" by (rule given_mono [OF _ d1 grown_refl]) (use g in blast)
  moreover have "grown d ?d2" using g grown_trans [OF d1] by blast
  moreover have "(q', w') \<in> set (d_waiters ?d2) \<or> w' = w" if "(q', w') \<in> set (d_waiters d)" for q' w'
    using that only removed_other [of q' w' "d_waiters d" q] g by (cases "q' = q") auto
  ultimately show ?thesis unfolding tended_def by blast
qed

lemma kinds_cong:
  "kinds_ok K d \<Longrightarrow> lookup_qids (d_engine d') \<subseteq> K \<Longrightarrow> d_next_id d' = d_next_id d \<Longrightarrow>
   hm_wf (=) (d_waiters d') \<Longrightarrow> set (d_waiters d') \<subseteq> set (d_waiters d) \<Longrightarrow> kinds_ok K d'"
  unfolding kinds_ok_def by (simp only:) blast

lemma kinds_same:
  "d_engine d' = d_engine d \<Longrightarrow> d_waiters d' = d_waiters d \<Longrightarrow> d_next_id d' = d_next_id d \<Longrightarrow> kinds_ok K d' = kinds_ok K d"
  by (simp add: kinds_ok_def)

lemma deliver_keeps:
  "d_engine (deliver os q c d) = d_engine d \<and> d_next_id (deliver os q c d) = d_next_id d \<and>
   (d_waiters (deliver os q c d) = d_waiters d \<or> d_waiters (deliver os q c d) = hm_remove (=) q (d_waiters d))"
  by (auto simp: deliver_def daemon_reply_def daemon_stub_answer_def read_clock_def Let_def
      split: option.split waiter.split completion.split prod.split)

lemma action_kinds:
  assumes k: "kinds_ok K d" and U: "\<forall>i. U (unavailable i)" and p: "perform_action os now a d = Some (d', fs)"
  shows "kinds_ok K d' \<and> done_ok K U fs"
proof (cases a)
  case (Send x server i tcp payload)
  have e: "lookup_qids (d_engine d) \<subseteq> K" using k by (simp add: kinds_ok_def)
  show ?thesis
  proof (cases "d_engine d' = d_engine d \<and> fs = []")
    case True
    moreover have "d_waiters d' = d_waiters d" "d_next_id d' = d_next_id d"
      using p Send by (auto split: prod.splits sum.splits if_splits)
    ultimately show ?thesis using k kinds_same [of d' d K] by simp
  next
    case False
    obtain e' up where e': "failed x now (d_engine d) = Some (e', fs) \<or> local_failed x now (d_engine d) = Some (e', fs)"
      "d' = d\<lparr>d_upstream := up, d_engine := e'\<rparr>"
      using p Send False by (auto split: prod.splits sum.splits if_splits)
    then have "lookup_qids e' \<subseteq> K \<and> done_ok K U fs" using failed_yields [OF e U, of x now] by auto
    moreover have "hm_wf (=) (d_waiters d)" using k by (simp add: kinds_ok_def)
    ultimately show ?thesis using kinds_cong [OF k, of d'] e'(2) by simp
  qed
next
  case (Cancel x)
  then show ?thesis using p k kinds_same [of d' d K] by auto
next
  case (Done q c)
  have d': "d' = deliver os q c d" "fs = []" using p Done by simp_all
  have "kinds_ok K (deliver os q c d)"
    by (rule kinds_cong [OF k]) (use k deliver_keeps [of os q c d] set_remove [of q "d_waiters d"] in \<open>auto simp: kinds_ok_def ids.wf_remove\<close>)
  then show ?thesis using d' by simp
qed

lemma action_tended:
  assumes k: "kinds_ok K d" and a: "done_ok K (\<lambda>a. a_outcome a = Unavailable) [a]"
    and p: "perform_action os now a d = Some (d', fs)"
  shows "tended d d'"
proof (cases a)
  case (Send x server i tcp payload)
  then show ?thesis using p by (auto intro: tended_same split: prod.splits sum.splits if_splits)
next
  case (Cancel x)
  then show ?thesis using p by (auto intro: tended_same)
next
  case (Done q c)
  then have "case c of CAnswer a \<Rightarrow> a_outcome a = Unavailable | CAddresses a \<Rightarrow> q \<in> K" using a by (simp add: done_ok_def)
  from deliver_tended [OF k this] show ?thesis using p Done by auto
qed

lemma perform_all_kinds:
  assumes "\<forall>i. U (unavailable i)"
  shows "kinds_ok K d \<Longrightarrow> perform_all os now acts d = Some (d', fs) \<Longrightarrow> kinds_ok K d' \<and> done_ok K U fs"
proof (induction acts arbitrary: d fs)
  case (Cons a acts)
  obtain d1 f1 where 1: "perform_action os now a d = Some (d1, f1)" using Cons.prems(2) by (auto split: option.splits)
  obtain f2 where 2: "perform_all os now acts d1 = Some (d', f2)" "fs = f1 @ f2" using Cons.prems(2) 1 by auto
  from action_kinds [OF Cons.prems(1) assms 1] have "kinds_ok K d1" "done_ok K U f1" by auto
  with Cons.IH [OF _ 2(1)] 2(2) show ?case by simp
qed simp

lemma perform_all_tended:
  "kinds_ok K d \<Longrightarrow> done_ok K (\<lambda>a. a_outcome a = Unavailable) acts \<Longrightarrow> perform_all os now acts d = Some (d', fs) \<Longrightarrow> tended d d'"
proof (induction acts arbitrary: d fs)
  case (Cons a acts)
  obtain d1 f1 where 1: "perform_action os now a d = Some (d1, f1)" using Cons.prems(3) by (auto split: option.splits)
  obtain f2 where 2: "perform_all os now acts d1 = Some (d', f2)" using Cons.prems(3) 1 by auto
  have a: "done_ok K (\<lambda>a. a_outcome a = Unavailable) [a]" "done_ok K (\<lambda>a. a_outcome a = Unavailable) acts"
    using Cons.prems(2) done_ok_simps(6) [of K "\<lambda>a. a_outcome a = Unavailable" "[a]" acts] by simp_all
  have "kinds_ok K d1" using action_kinds [OF Cons.prems(1) _ 1, of "\<lambda>a. True"] by simp
  from tended_trans [OF action_tended [OF Cons.prems(1) a(1) 1] Cons.IH [OF this a(2) 2]] show ?case .
qed simp

lemma perform_kinds:
  assumes "perform os now acts d = Some d'"
  shows "kinds_ok K d \<longrightarrow> kinds_ok K d' \<and> (done_ok K (\<lambda>a. a_outcome a = Unavailable) acts \<longrightarrow> tended d d')"
proof (rule perform.raw_induct [where P = "\<lambda>os now acts d d'. kinds_ok K d \<longrightarrow> kinds_ok K d' \<and>
    (done_ok K (\<lambda>a. a_outcome a = Unavailable) acts \<longrightarrow> tended d d')", OF _ assms])
  fix f os now acts d d'
  assume IH: "\<And>os now acts d d'. f os now acts d = Some d' \<Longrightarrow> kinds_ok K d \<longrightarrow> kinds_ok K d' \<and>
      (done_ok K (\<lambda>a. a_outcome a = Unavailable) acts \<longrightarrow> tended d d')"
    and f: "(case perform_all os now acts d of None \<Rightarrow> None
      | Some r \<Rightarrow> if snd r = [] then Some (fst r) else f os now (snd r) (fst r)) = Some d'"
  obtain d1 fs where r: "perform_all os now acts d = Some (d1, fs)" "if fs = [] then d' = d1 else f os now fs d1 = Some d'"
    using f by (auto split: option.splits if_splits)
  show "kinds_ok K d \<longrightarrow> kinds_ok K d' \<and> (done_ok K (\<lambda>a. a_outcome a = Unavailable) acts \<longrightarrow> tended d d')"
  proof (intro impI conjI)
    assume k: "kinds_ok K d"
    have k1: "kinds_ok K d1" "done_ok K (\<lambda>a. a_outcome a = Unavailable) fs"
      using perform_all_kinds [OF _ k r(1), of "\<lambda>a. a_outcome a = Unavailable"] by (simp_all add: unavailable_def)
    have rest: "kinds_ok K d' \<and> tended d1 d'"
      using IH [of os now fs d1 d'] r(2) k1 by (cases "fs = []") simp_all
    then show "kinds_ok K d'" ..
    assume a: "done_ok K (\<lambda>a. a_outcome a = Unavailable) acts"
    show "tended d d'" using tended_trans [OF perform_all_tended [OF k a r(1)]] rest by blast
  qed
qed

lemma timers_tended:
  assumes k: "kinds_ok K d" and t: "timers_step os now connect d = Some d'"
  shows "kinds_ok K d' \<and> tended d d'"
proof -
  obtain e acts where e: "tick now (d_engine d) = Some (e, acts)" using t by (auto simp: timers_step_def split: option.splits)
  obtain d2 where p: "perform os now acts (d\<lparr>d_engine := e\<rparr>) = Some d2"
    and d': "d' = d2\<lparr>d_netd := maintain connect now (d_netd d2), d_stub := expire_stub now (d_stub d2),
      d_replies := snd (snd (expire_replies now (d_replies d2))),
      d_clients := filter (\<lambda>(i, c). now - cl_since c < CLIENT_TIMEOUT) (d_clients d2)\<rparr>"
    using t e by (auto simp: timers_step_def)
  have "lookup_qids e \<subseteq> K" "done_ok K (\<lambda>a. a_outcome a = Unavailable) acts"
    using tick_yields [of "d_engine d" K "\<lambda>a. a_outcome a = Unavailable" now] k e by (simp_all add: kinds_ok_def unavailable_def)
  moreover have "kinds_ok K (d\<lparr>d_engine := e\<rparr>)" by (rule kinds_cong [OF k]) (use calculation k in \<open>auto simp: kinds_ok_def\<close>)
  ultimately have d2: "kinds_ok K d2" "tended (d\<lparr>d_engine := e\<rparr>) d2" using perform_kinds [OF p] by auto
  have "tended d (d\<lparr>d_engine := e\<rparr>)" by (rule tended_same) simp_all
  moreover have "tended d2 d'"
    by (auto simp: d' tended_def grown_def native_calls_def stub_calls_def expire_stub_def expire_replies_def Let_def)
  ultimately have "tended d d'" using d2(2) tended_trans by blast
  then show ?thesis using d2(1) by (simp add: d' kinds_ok_def)
qed

section \<open>Every step keeps the kinds\<close>

definition kinds_inv :: "('u, 's, 'sd) resolvd \<Rightarrow> bool" where
  "kinds_inv d \<longleftrightarrow> (\<exists>K. kinds_ok K d)"

lemma kinds_inv_same:
  "d_engine d' = d_engine d \<Longrightarrow> d_waiters d' = d_waiters d \<Longrightarrow> d_next_id d' = d_next_id d \<Longrightarrow> kinds_inv d' = kinds_inv d"
  by (simp add: kinds_inv_def kinds_ok_def)

lemma kinds_inv_engine:
  "kinds_inv d \<Longrightarrow> lookup_qids e \<subseteq> lookup_qids (d_engine d) \<Longrightarrow> kinds_inv (d\<lparr>d_engine := e\<rparr>)"
proof -
  assume i: "kinds_inv d" and e: "lookup_qids e \<subseteq> lookup_qids (d_engine d)"
  from i obtain K where k: "kinds_ok K d" by (auto simp: kinds_inv_def)
  then have "lookup_qids (d_engine d) \<subseteq> K" "hm_wf (=) (d_waiters d)" by (simp_all add: kinds_ok_def)
  then have "kinds_ok K (d\<lparr>d_engine := e\<rparr>)" using e by (intro kinds_cong [OF k]) auto
  then show ?thesis by (auto simp: kinds_inv_def)
qed

lemma kinds_next: "kinds_ok K d \<Longrightarrow> kinds_ok K (d\<lparr>d_next_id := Suc (d_next_id d)\<rparr>)"
  unfolding kinds_ok_def by (simp add: less_Suc_eq) blast

lemma event_kinds:
  assumes k: "kinds_ok K d" and ev: "engine_step now ev (d_engine d) = Some (e, acts)" and K': "K \<union> looks_up ev \<subseteq> K'"
    and d': "d_engine d' = e" "kinds_ok K' (d'\<lparr>d_engine := d_engine d\<rparr>)" and p: "perform os now acts d' = Some d''"
  shows "kinds_ok K' d''"
proof -
  have "lookup_qids (d_engine d) \<union> looks_up ev \<subseteq> K'" using k K' by (auto simp: kinds_ok_def)
  from step_yields [OF this, of now] have "lookup_qids e \<subseteq> K'" by (simp add: ev)
  moreover have "hm_wf (=) (d_waiters d')" using d'(2) by (simp add: kinds_ok_def)
  ultimately have "kinds_ok K' d'" using kinds_cong [OF d'(2), of d'] d'(1) by simp
  then show ?thesis using perform_kinds [OF p] by blast
qed

lemma ask_kinds:
  assumes k: "kinds_ok K d" and ev: "engine_step now ev (d_engine d) = res" "looks_up ev \<subseteq> {d_next_id d}"
    and w: "\<forall>orig. w = WStub orig \<longrightarrow> looks_up ev = {} \<and> (\<exists>b. parse_query b = Inr (origin_query orig))"
    and a: "ask_engine os now (d_next_id d) w res (d\<lparr>d_next_id := Suc (d_next_id d)\<rparr>) = Some d'"
  shows "kinds_inv d'"
proof -
  let ?q = "d_next_id d" and ?K = "K \<union> looks_up ev"
  let ?d1 = "d\<lparr>d_next_id := Suc ?q, d_waiters := hm_insert (=) ?q w (d_waiters d)\<rparr>"
  have old: "\<forall>q \<in> K. q < ?q" "hm_wf (=) (d_waiters d)" "lookup_qids (d_engine d) \<subseteq> K"
    and ws: "\<And>q w. (q, w) \<in> set (d_waiters d) \<Longrightarrow> q < ?q \<and>
      (\<forall>orig. w = WStub orig \<longrightarrow> q \<notin> K \<and> (\<exists>b. parse_query b = Inr (origin_query orig)))"
    using k unfolding kinds_ok_def by blast+
  have new: "q < Suc ?q \<and> (\<forall>orig. v = WStub orig \<longrightarrow> q \<notin> ?K \<and> (\<exists>b. parse_query b = Inr (origin_query orig)))"
    if "(q, v) \<in> set (hm_insert (=) ?q w (d_waiters d))" for q v
  proof (cases "(q, v) = (?q, w)")
    case True
    then show ?thesis using w old(1) by auto
  next
    case False
    then have "(q, v) \<in> set (d_waiters d)" using that set_insert [of ?q w "d_waiters d"] by auto
    from ws [OF this] ev(2) show ?thesis by auto
  qed
  have "\<forall>q \<in> ?K. q < Suc ?q" using old(1) ev(2) by auto
  moreover have "lookup_qids (d_engine d) \<subseteq> ?K" using old(3) by auto
  ultimately have "kinds_ok ?K ?d1"
    unfolding kinds_ok_def using new by (simp add: ids.wf_insert [OF old(2)]) blast
  note d1 = this
  obtain e acts where e: "res = Some (e, acts)"
    "perform os now acts (d\<lparr>d_next_id := Suc ?q, d_engine := e, d_waiters := hm_insert (=) ?q w (d_waiters d)\<rparr>) = Some d'"
    using a by (auto simp: ask_engine_def split: option.splits)
  let ?d2 = "d\<lparr>d_next_id := Suc ?q, d_engine := e, d_waiters := hm_insert (=) ?q w (d_waiters d)\<rparr>"
  have "kinds_ok ?K (?d2\<lparr>d_engine := d_engine d\<rparr>)" using d1 kinds_same [of "?d2\<lparr>d_engine := d_engine d\<rparr>" ?d1 ?K] by simp
  then have "kinds_ok ?K d'" using event_kinds [OF k ev(1) [unfolded e(1)] order_refl, of ?d2 os d'] e(2) by simp
  then show ?thesis unfolding kinds_inv_def by blast
qed

lemma hangup_kinds:
  assumes "kinds_inv d" "hangup_step os now slot d = Some d'"
  shows "kinds_inv d'"
proof -
  obtain q revents where slot: "slot = (q, revents)" by force
  obtain K where k: "kinds_ok K d" using assms(1) by (auto simp: kinds_inv_def)
  obtain e acts where e: "abandon q (d_engine d) = (e, acts)" by force
  let ?d1 = "d\<lparr>d_waiters := hm_remove (=) q (d_waiters d), d_engine := e\<rparr>"
  have "kinds_ok K (?d1\<lparr>d_engine := d_engine d\<rparr>)"
    using k set_remove [of q "d_waiters d"] by (intro kinds_cong [OF k]) (simp_all add: kinds_ok_def ids.wf_remove)
  then have "kinds_ok K d'" if "perform os now acts ?d1 = Some d'"
    using event_kinds [OF k, of now "EAbandon q" e acts K ?d1 os d'] that e by simp
  then show ?thesis using assms e by (auto simp: hangup_step_def slot kinds_inv_def split: if_splits)
qed

lemma upstream_kinds:
  assumes "kinds_inv d" "upstream_step os now slot d = Some d'"
  shows "kinds_inv d'"
proof -
  obtain tx revents err recv rd where slot: "slot = (tx, revents, err, recv, rd)" by (cases slot)
  obtain K where k: "kinds_ok K d" using assms(1) by (auto simp: kinds_inv_def)
  have keep: "kinds_inv (d\<lparr>d_upstream := up\<rparr>)" for up using assms(1) kinds_inv_same [of "d\<lparr>d_upstream := up\<rparr>" d] by simp
  have step: "kinds_inv d'" if "engine_step now ev (d_engine d) = Some (e, acts)" "looks_up ev = {}"
    "perform os now acts (d\<lparr>d_upstream := up, d_engine := e\<rparr>) = Some d'" for ev e acts up
  proof -
    have "kinds_ok K (d\<lparr>d_upstream := up, d_engine := e, d_engine := d_engine d\<rparr>)"
      using k kinds_same [of "d\<lparr>d_upstream := up, d_engine := e, d_engine := d_engine d\<rparr>" d K] by simp
    then have "kinds_ok K d'"
      using event_kinds [OF k that(1), of K "d\<lparr>d_upstream := up, d_engine := e\<rparr>" os d'] that(2,3) by simp
    then show ?thesis by (auto simp: kinds_inv_def)
  qed
  show ?thesis
  proof (cases "revents = 0")
    case True
    then show ?thesis using assms slot by (simp add: upstream_step_def)
  next
    case False
    then obtain ev up where s: "upstream_service (os_write os) err recv rd tx revents (response_matches (d_engine d) tx) (d_upstream d) = Some (ev, up)"
      using assms(2) slot by (auto simp: upstream_step_def split: option.splits)
    show ?thesis
    proof (cases ev)
      case None
      then have "d' = d\<lparr>d_upstream := up\<rparr>" using assms(2) slot False s by (simp add: upstream_step_def)
      then show ?thesis using keep by simp
    next
      case (Some ev')
      let ?ev = "case ev' of Received b \<Rightarrow> EReceived tx b | Failed \<Rightarrow> EFailed tx"
      have l: "looks_up ?ev = {}" by (simp split: up_event.split)
      obtain e acts where "engine_step now ?ev (d_engine d) = Some (e, acts)"
        "perform os now acts (d\<lparr>d_upstream := up, d_engine := e\<rparr>) = Some d'"
        using assms(2) slot False s Some
        by (cases ev') (auto simp: upstream_step_def split: option.splits)
      from step [OF this(1) l this(2)] show ?thesis .
    qed
  qed
qed

lemma reply_kinds: "kinds_inv (daemon_reply os stream rp d) = kinds_inv d"
  by (rule kinds_inv_same) (simp_all add: daemon_reply_def read_clock_def)

lemma stub_answer_kinds: "kinds_inv (daemon_stub_answer os orig ans d) = kinds_inv d"
  by (rule kinds_inv_same) (simp_all add: daemon_stub_answer_def read_clock_def split: prod.split)

lemma stub_query_kinds:
  assumes k: "kinds_inv d" and b: "parse_query b = Inr (origin_query orig)"
    and h: "handle_stub os [IQuery orig] now d = Some d'"
  shows "kinds_inv d'"
proof (cases "message_question (origin_query orig)")
  case None
  then show ?thesis using k h by simp
next
  case (Some qu)
  show ?thesis
  proof (cases "over_capacity (d_waiters d) orig")
    case True
    have "kinds_inv (d\<lparr>d_engine := count_refused (d_engine d)\<rparr>)"
      by (rule kinds_inv_engine [OF k]) (simp add: count_refused_def)
    then show ?thesis using h Some True by (auto simp: stub_answer_kinds)
  next
    case False
    obtain K where "kinds_ok K d" using k by (auto simp: kinds_inv_def)
    from ask_kinds [OF this, of now "EQuestion (d_next_id d) qu" _ "WStub orig" os d'] show ?thesis
      using h Some False b by (auto simp: daemon_fresh_id_def bind_eq_Some_conv)
  qed
qed

lemma stub_queries_kinds:
  assumes "kinds_inv d" "\<forall>orig. IQuery orig \<in> set xs \<longrightarrow> (\<exists>b. parse_query b = Inr (origin_query orig))"
    "handle_stub os xs now d = Some d'"
  shows "kinds_inv d'"
  using assms
proof (induction xs arbitrary: d)
  case (Cons x xs)
  obtain d1 where d1: "handle_stub os [x] now d = Some d1" "handle_stub os xs now d1 = Some d'"
    using Cons.prems(3) handle_stub_cons [of os x xs now d] by (cases "handle_stub os [x] now d") auto
  have "kinds_inv d1"
  proof (cases x)
    case (IQuery orig)
    then obtain b where "parse_query b = Inr (origin_query orig)" using Cons.prems(2) by auto
    then show ?thesis using stub_query_kinds Cons.prems(1) d1(1) IQuery by blast
  qed (use Cons.prems(1) d1(1) in simp)
  then show ?case using Cons.IH d1(2) Cons.prems(2) by auto
qed simp

lemma udp_kinds:
  assumes "kinds_inv d" "udp_step os now input d = Some d'"
  shows "kinds_inv d'"
proof (cases "fst input = 0")
  case True
  then show ?thesis using assms by (simp add: udp_step_def)
next
  case False
  obtain incoming :: "'b incoming list" and sent where r: "receive_loop IO_BATCH_LIMIT (snd input) = (incoming, sent)" by force
  have "\<forall>orig. IQuery orig \<in> set incoming \<longrightarrow> (\<exists>b. parse_query b = Inr (origin_query orig))"
    using receive_loopback_only [OF r] by fastforce
  moreover have "handle_stub os incoming now (d\<lparr>d_sent := d_sent d @ sent\<rparr>) = Some d'"
    using assms(2) False r by (simp add: udp_step_def receive_udp_def)
  moreover have "kinds_inv (d\<lparr>d_sent := d_sent d @ sent\<rparr>)"
    using assms(1) kinds_inv_same [of "d\<lparr>d_sent := d_sent d @ sent\<rparr>" d] by simp
  ultimately show ?thesis using stub_queries_kinds by blast
qed

lemma served_query:
  "service_client wr clock rds i st = (Some (IQuery orig), st') \<Longrightarrow> \<exists>b. parse_query b = Inr (origin_query orig)"
  by (auto simp: service_client_def Let_def split: option.splits prod.splits if_splits sum.splits)

lemma stub_client_kinds:
  assumes "kinds_inv d" "stub_client_step os now slot d = Some d'"
  shows "kinds_inv d'"
proof -
  obtain i revents arrived where slot: "slot = (i, revents, arrived)" by (cases slot)
  obtain inc st where s: "service_client (os_write os) (os_clock os (d_reads d)) arrived i (d_stub d) = (inc, st)" by force
  let ?d1 = "d\<lparr>d_reads := Suc (d_reads d), d_stub := st\<rparr>"
  have k1: "kinds_inv ?d1" using assms(1) kinds_inv_same [of ?d1 d] by simp
  show ?thesis
  proof (cases "revents = 0 \<or> inc = None")
    case True
    then have "d' = d \<or> d' = ?d1"
      using assms(2) s slot by (auto simp: stub_client_step_def read_clock_def split: if_splits)
    then show ?thesis using assms(1) k1 by blast
  next
    case False
    then obtain x where x: "inc = Some x" by auto
    have "handle_stub os [x] now ?d1 = Some d'"
      using assms(2) s slot False x by (simp add: stub_client_step_def read_clock_def)
    moreover have "\<forall>orig. IQuery orig \<in> set [x] \<longrightarrow> (\<exists>b. parse_query b = Inr (origin_query orig))"
      using served_query s x by fastforce
    ultimately show ?thesis using stub_queries_kinds [OF k1] by blast
  qed
qed

lemma request_kinds:
  assumes k: "kinds_inv d" and h: "handle_request os stream rq now d = Some d'"
  shows "kinds_inv d'"
proof (cases "permits (os_open_peer os) (os_check os) (d_control d) stream (required_right rq)")
  case False
  then show ?thesis using k h by (auto simp: handle_request_def reply_kinds)
next
  case True
  obtain K where K: "kinds_ok K d" using k by (auto simp: kinds_inv_def)
  let ?d1 = "d\<lparr>d_next_id := Suc (d_next_id d)\<rparr>" and ?q = "d_next_id d"
  have k1: "kinds_inv ?d1" using kinds_next [OF K] by (auto simp: kinds_inv_def)
  have "lookup_qids (flush (d_engine d)) = lookup_qids (d_engine d)"
    using reconfigured_step(5) [of "d_engine d"] by (simp add: reconfigured_def lookup_qids_def)
  then have fl: "kinds_inv (?d1\<lparr>d_engine := flush (d_engine d)\<rparr>)" using kinds_inv_engine [OF k1] by simp
  note ask = ask_kinds [OF K, of now _ _ "WNative stream" os d']
  show ?thesis
  proof (cases rq)
    case (RqResolve name rtype no_cache)
    then show ?thesis using h True ask [of "EResolve ?q name rtype no_cache"] by (simp add: handle_request_def daemon_fresh_id_def)
  next
    case (RqLookup name fam)
    then show ?thesis using h True ask [of "ELookup ?q name (engine_family fam)"] by (simp add: handle_request_def daemon_fresh_id_def)
  next
    case (RqReverse address)
    then show ?thesis using h True ask [of "EReverse ?q address"] by (simp add: handle_request_def daemon_fresh_id_def)
  qed (use h True k1 fl in \<open>auto simp: handle_request_def daemon_fresh_id_def reply_kinds\<close>)
qed

lemma client_kinds:
  assumes k: "kinds_inv d" and c: "client_step os now slot d = Some d'"
  shows "kinds_inv d'"
proof -
  obtain i revents arrived where slot: "slot = (i, revents, arrived)" by (cases slot)
  have cl: "kinds_inv (d\<lparr>d_clients := cs\<rparr>)" for cs using k kinds_inv_same [of "d\<lparr>d_clients := cs\<rparr>" d] by simp
  show ?thesis
  proof (cases "revents = 0 \<or> hm_get (=) i (d_clients d) = None")
    case True
    then show ?thesis using k c slot by (auto simp: client_step_def split: if_splits)
  next
    case False
    then obtain cl p buf rest where r: "hm_get (=) i (d_clients d) = Some cl"
      "client_read (os_text os) arrived (cl_buf cl) = Some (p, buf, rest)"
      using c slot by (auto simp: client_step_def split: option.splits)
    show ?thesis
      using c slot False r cl request_kinds [OF cl, of os "cl_stream cl"]
      by (cases p) (auto simp: client_step_def reply_kinds)
  qed
qed

lemma native_accept_kinds: "kinds_inv d \<Longrightarrow> kinds_inv (native_accept_loop os n now pending inputs d)"
proof (induction os n now pending inputs d rule: native_accept_loop.induct)
  case (3 os n now pending e inputs d)
  have "kinds_inv (d\<lparr>d_reads := r, d_accept_backoff := b\<rparr>)" for r b
    using 3(2) kinds_inv_same [of "d\<lparr>d_reads := r, d_accept_backoff := b\<rparr>" d] by simp
  then show ?case using 3 by (simp add: read_clock_def)
next
  case (4 os n now pending stream nonblocking inputs d)
  have "kinds_inv (d\<lparr>d_next_id := Suc (d_next_id d)\<rparr>)"
    using 4(4) kinds_next unfolding kinds_inv_def by blast
  then have new: "kinds_inv (d\<lparr>d_next_id := Suc (d_next_id d), d_clients := cs\<rparr>)" for cs
    using kinds_inv_same [of "d\<lparr>d_next_id := Suc (d_next_id d), d_clients := cs\<rparr>" "d\<lparr>d_next_id := Suc (d_next_id d)\<rparr>"] by simp
  show ?case
  proof (cases "length (d_clients d) + pending \<ge> MAX_PENDING_CLIENTS \<or> client_new stream nonblocking now = None")
    case True
    then show ?thesis using 4(1,2,4) by auto
  next
    case False
    then obtain c where c: "client_new stream nonblocking now = Some c" by auto
    then show ?thesis using 4(3) new False by (auto simp: daemon_fresh_id_def)
  qed
qed simp_all

lemma reconfigured_kinds: "kinds_inv d \<Longrightarrow> reconfigured (d_engine d) e \<Longrightarrow> kinds_inv (d\<lparr>d_engine := e\<rparr>)"
  by (rule kinds_inv_engine) (simp_all add: reconfigured_def lookup_qids_def)

lemma config_kinds:
  assumes "kinds_inv d"
  shows "kinds_inv (apply_config os fresh d)"
proof -
  let ?e = "set_hosts (cf_hosts fresh) (set_fallback (cf_servers fresh) (cf_search fresh) (d_engine d))"
  have "reconfigured (d_engine d) ?e" by (intro reconfigured_trans [OF reconfigured_step(2) reconfigured_step(4)])
  then have "kinds_inv (d\<lparr>d_engine := ?e\<rparr>)" by (rule reconfigured_kinds [OF assms])
  then have "kinds_inv (d\<lparr>d_control := c, d_engine := ?e, d_config := fresh\<rparr>)" for c
    using kinds_inv_same [of "d\<lparr>d_control := c, d_engine := ?e, d_config := fresh\<rparr>" "d\<lparr>d_engine := ?e\<rparr>"] by simp
  then show ?thesis using assms by (simp add: apply_config_def)
qed

lemma snapshot_kinds: "kinds_inv d \<Longrightarrow> kinds_inv (apply_snapshot os snap d)"
  unfolding apply_snapshot_def Let_def
  by (rule reconfigured_kinds) (auto intro: reconfigured_trans [OF reconfigured_step(3) reconfigured_step(1)])

lemma netd_kinds:
  assumes "kinds_inv d"
  shows "kinds_inv (netd_step os dec now slot d)"
proof -
  have "kinds_inv d' \<Longrightarrow> kinds_inv (fold (apply_snapshot os) snaps d')" for snaps d'
    by (induction snaps arbitrary: d') (simp_all add: snapshot_kinds)
  moreover have "kinds_inv (d\<lparr>d_netd := l\<rparr>)" for l using assms kinds_inv_same [of "d\<lparr>d_netd := l\<rparr>" d] by simp
  ultimately show ?thesis using assms by (auto simp: netd_step_def case_prod_unfold Let_def split: option.split)
qed

lemma watch_kinds:
  assumes "kinds_inv d"
  shows "kinds_inv (watch_step os slot d)"
proof -
  have "kinds_inv (d\<lparr>d_watch := b\<rparr>)" for b using assms kinds_inv_same [of "d\<lparr>d_watch := b\<rparr>" d] by simp
  then show ?thesis using assms config_kinds by (auto simp: watch_step_def split: option.split sum.split bool.split)
qed

lemma reply_step_kinds:
  assumes "kinds_inv d"
  shows "reply_step os slot d = Some d' \<Longrightarrow> kinds_inv d'" "stub_reply_step os slot d = Some d' \<Longrightarrow> kinds_inv d'"
proof -
  have same: "kinds_inv (d\<lparr>d_reads := r, d_replies := q\<rparr>)" "kinds_inv (d\<lparr>d_reads := r, d_stub := st\<rparr>)" for r q st
    using assms kinds_inv_same [of "d\<lparr>d_reads := r, d_replies := q\<rparr>" d] kinds_inv_same [of "d\<lparr>d_reads := r, d_stub := st\<rparr>" d] by simp_all
  show "reply_step os slot d = Some d' \<Longrightarrow> kinds_inv d'"
    using assms same(1) by (cases slot) (auto simp: reply_step_def read_clock_def split: if_splits)
  show "stub_reply_step os slot d = Some d' \<Longrightarrow> kinds_inv d'"
    using assms same(2) by (cases slot) (auto simp: stub_reply_step_def read_clock_def split: if_splits)
qed

lemma for_each_kinds:
  "(\<And>x d d'. kinds_inv d \<Longrightarrow> f x d = Some d' \<Longrightarrow> kinds_inv d') \<Longrightarrow> kinds_inv d \<Longrightarrow> for_each f xs d = Some d' \<Longrightarrow> kinds_inv d'"
proof (induction xs arbitrary: d)
  case (Cons x xs)
  obtain d1 where "f x d = Some d1" "for_each f xs d1 = Some d'" using Cons.prems(3) by (auto simp: bind_eq_Some_conv)
  with Cons show ?case by blast
qed simp

lemma turn_kinds:
  assumes k: "kinds_inv d" and t: "daemon_turn os tn d = Some d'"
  shows "kinds_inv d'"
proof -
  let ?now = "tn_now tn"
  obtain d1 d2 d3 d4 d5 d6 d7 where
    s: "for_each (hangup_step os ?now) (tn_hangups tn) d = Some d1" "for_each (upstream_step os ?now) (tn_upstream tn) d1 = Some d2"
    "for_each (reply_step os) (tn_replies tn) d2 = Some d3" "for_each (stub_reply_step os) (tn_stub_replies tn) d3 = Some d4"
    "udp_step os ?now (tn_udp tn) d4 = Some d5"
    "for_each (stub_client_step os ?now) (tn_stub_clients tn) (tcp_accept_step os ?now (tn_tcp tn) d5) = Some d6"
    "for_each (client_step os ?now) (tn_clients tn) (native_accept_step os ?now (tn_native tn) d6) = Some d7"
    "timers_step os ?now (tn_connect tn) (watch_step os (tn_watch tn) (netd_step os (tn_snapshot tn) ?now (tn_netd tn) d7)) = Some d'"
    using t by (auto simp: daemon_turn_def Let_def bind_eq_Some_conv)
  have "kinds_inv d1" by (rule for_each_kinds [OF _ k s(1)]) (rule hangup_kinds)
  then have "kinds_inv d2" by (rule for_each_kinds [OF _ _ s(2), rotated]) (rule upstream_kinds)
  then have "kinds_inv d3" by (rule for_each_kinds [OF _ _ s(3), rotated]) (rule reply_step_kinds(1))
  then have "kinds_inv d4" by (rule for_each_kinds [OF _ _ s(4), rotated]) (rule reply_step_kinds(2))
  then have "kinds_inv d5" using udp_kinds s(5) by blast
  then have "kinds_inv (tcp_accept_step os ?now (tn_tcp tn) d5)"
    using kinds_inv_same [of "tcp_accept_step os ?now (tn_tcp tn) d5" d5] by (simp add: tcp_accept_step_def read_clock_def)
  then have "kinds_inv d6" by (rule for_each_kinds [OF _ _ s(6), rotated]) (rule stub_client_kinds)
  then have "kinds_inv (native_accept_step os ?now (tn_native tn) d6)" by (simp add: native_accept_step_def native_accept_kinds)
  then have "kinds_inv d7" by (rule for_each_kinds [OF _ _ s(7), rotated]) (rule client_kinds)
  then have "kinds_inv (watch_step os (tn_watch tn) (netd_step os (tn_snapshot tn) ?now (tn_netd tn) d7))"
    by (intro watch_kinds netd_kinds)
  then show ?thesis using timers_tended [OF _ s(8)] unfolding kinds_inv_def by blast
qed

lemma run_kinds: "kinds_inv d \<Longrightarrow> daemon_run polls d = Some (going, d') \<Longrightarrow> kinds_inv d'"
proof (induction polls d rule: daemon_run.induct)
  case (3 os tn polls d)
  then obtain d1 where "daemon_turn os tn d = Some d1" "daemon_run polls d1 = Some (going, d')" by (auto simp: bind_eq_Some_conv)
  then show ?case using 3 turn_kinds by blast
qed (auto split: if_splits)

lemma start_kinds: "kinds_inv (daemon_start os ent cfg watch connect now)"
proof -
  let ?e = "set_hosts (cf_hosts cfg) (set_fallback (cf_servers cfg) (cf_search cfg)
    (set_hostname (kernel_hostname (os_gethostname os)) (with_entropy ent)))"
  have "reconfigured (with_entropy ent) ?e"
    by (intro reconfigured_trans [OF reconfigured_trans [OF reconfigured_step(3) reconfigured_step(2)] reconfigured_step(4)])
  then have "lookup_qids ?e = {}" by (simp add: reconfigured_def lookup_qids_def with_entropy_def)
  then have "kinds_ok {} (daemon_start os ent cfg watch connect now)" by (simp add: kinds_ok_def daemon_start_def)
  then show ?thesis unfolding kinds_inv_def by blast
qed

section \<open>Silence answers\<close>

lemma silent_tended:
  assumes "kinds_inv d" "daemon_run [Inr (os1, silent_turn t1 c1), Inr (os2, silent_turn t2 c2), Inr (os3, silent_turn t3 c3)] d = Some (going, d')"
  shows "tended d d'"
proof -
  obtain K where k: "kinds_ok K d" using assms(1) by (auto simp: kinds_inv_def)
  obtain d1 d2 where t: "timers_step os1 t1 c1 d = Some d1" "timers_step os2 t2 c2 d1 = Some d2" "timers_step os3 t3 c3 d2 = Some d'"
    using assms(2) by (auto simp: silent_timers bind_eq_Some_conv)
  have 1: "kinds_ok K d1" "tended d d1" using timers_tended [OF k t(1)] by auto
  have 2: "kinds_ok K d2" "tended d1 d2" using timers_tended [OF 1(1) t(2)] by auto
  have "tended d2 d'" using timers_tended [OF 2(1) t(3)] by auto
  with 1(2) 2(2) show ?thesis using tended_trans by blast
qed

end
