(* ===== verification/Example_Engine.thy ===== *)
theory Example_Engine
  imports Engine_Machine "HOL-Library.Code_Target_Nat"
begin

text \<open>
  Concrete reachable states of the engine, evaluated, as instances for the theorems of the
  development.
\<close>

section \<open>A concrete engine\<close>

text \<open>
  One interface with two servers and the search domain \<open>lan\<close>; the question 7 asks for the
  addresses of \<open>pc\<close>. These states serve as concrete instances of the theorems below.
\<close>

definition demo_scope :: scope where
  "demo_scope = \<lparr>sc_id = ''1'', sc_interface = ''eth0'', sc_servers = [V4 0x0a000001, V4 0x0a000002],
     sc_domains = [Name [byte_str ''lan'']], sc_addresses = [(V4 0x0a000005, 24)], sc_default_route = True,
     sc_exclusive = False, sc_metric = 100, sc_level = Routed\<rparr>"

definition demo_entropy :: "nat \<Rightarrow> bytes option" where
  "demo_entropy n = Some (replicate 34 0)"

definition demo_name :: name where
  "demo_name = Name [byte_str ''pc'', byte_str ''lan'']"

definition demo0 :: engine where
  "demo0 = set_scopes [demo_scope] (with_entropy demo_entropy)"

definition demo1 :: engine where
  "demo1 = fst (the (resolve_question 7 (question_new (Name [byte_str ''pc'']) RT_A) 0 demo0))"

definition demo2 :: engine where
  "demo2 = fst (the (failed 2 5 demo1))"

definition demo_reply :: bytes where
  "demo_reply =
     (case encode (default_message\<lparr>header := default_header\<lparr>response := True\<rparr>,
        questions := [question_new demo_name RT_A], answers := [record_new demo_name 60 (A 0x0a000009)]\<rparr>) of
        Inl _ \<Rightarrow> [] | Inr bs \<Rightarrow> bs)"

definition demo3 :: engine where
  "demo3 = fst (the (received 2 demo_reply 5 demo1))"

lemma demo0_reachable: "reachable demo_entropy demo0"
  unfolding demo0_def by (rule reachable.step [OF reachable.start, where ev = "ESetScopes [demo_scope]"]) simp_all

lemma demo0_tasks: "tasks demo0 = [] \<and> next_id demo0 = 1"
  by code_simp

lemma demo0_new: "q \<notin> opens demo0"
  using demo0_tasks by (simp add: opens_def)

lemma demo_wf: "wf_name (Name [byte_str ''pc''])" "wf_name demo_name"
  by code_simp+

lemma demo1_step: "\<exists>acts. resolve_question 7 (question_new (Name [byte_str ''pc'']) RT_A) 0 demo0 = Some (demo1, acts)"
  using step_effect [OF reachable_ok [OF demo0_reachable], of "EQuestion 7 (question_new (Name [byte_str ''pc'']) RT_A)" 0]
    demo0_new demo_wf(1)
  by (auto simp: demo1_def no_panic_def question_new_def split: option.splits)

lemma demo1_reachable: "reachable demo_entropy demo1"
  using demo1_step reachable.step [OF demo0_reachable, where ev = "EQuestion 7 (question_new (Name [byte_str ''pc'']) RT_A)"]
    demo0_new demo_wf(1)
  by (auto simp: question_new_def)

lemma demo1_tables:
  "map (\<lambda>(x, y). (x, x_task y, x_server y, x_deadline y)) (txs demo1) = [(2, 1, V4 0x0a000001, 2000000000)]"
  "map (\<lambda>(i, t). (i, t_owner t, t_scope t, t_attempt t)) (tasks demo1) = [(1, OResolve 7, Some ''1'', 1)]"
  by code_simp+

lemma demo1_tx: "\<exists>y. txs demo1 = [(2, y)] \<and> x_task y = 1 \<and> x_server y = V4 0x0a000001 \<and> x_deadline y = 2000000000"
  using demo1_tables(1) by (auto simp: map_eq_Cons_conv)

lemma demo1_task: "\<exists>t. tasks demo1 = [(1, t)] \<and> t_owner t = OResolve 7 \<and> t_scope t = Some ''1'' \<and> t_attempt t = 1"
  using demo1_tables(2) by (auto simp: map_eq_Cons_conv)

lemma demo1_opens: "opens demo1 = {7}"
  using demo1_task by (auto simp: opens_def split: if_splits)

lemma demo2_attempt: "map (\<lambda>(i, t). (i, t_attempt t)) (tasks demo2) = [(1, 2)]"
  by code_simp

lemma demo2_step: "\<exists>acts. failed 2 5 demo1 = Some (demo2, acts)"
  using failed_ended [OF reachable_ok [OF demo1_reachable], of 2 5]
  by (auto simp: demo2_def no_panic_def split: option.splits)

lemma demo0_sends:
  "\<exists>e' acts x server iface tcp payload.
    resolve_name 7 (Name [byte_str ''pc'']) RT_A False 0 demo0 = Some (e', acts) \<and>
    Send x server iface tcp payload \<in> set acts"
proof -
  have c: "map_option (\<lambda>r. sents (snd r)) (resolve_name 7 (Name [byte_str ''pc'']) RT_A False 0 demo0) = Some [2]"
    by code_simp
  have "x \<in> set (sents acts) \<Longrightarrow> \<exists>server iface tcp payload. Send x server iface tcp payload \<in> set acts" for x acts
  proof (induction acts)
    case (Cons a acts)
    then show ?case by (cases a) auto
  qed simp
  moreover obtain e' acts where r: "resolve_name 7 (Name [byte_str ''pc'']) RT_A False 0 demo0 = Some (e', acts)"
    "sents acts = [2]"
    using c by auto
  ultimately have "\<exists>server iface tcp payload. Send 2 server iface tcp payload \<in> set acts" by simp
  with r(1) show ?thesis by blast
qed

lemma demo1_reply: "response_matches demo1 2 demo_reply"
  by code_simp

lemma demo3_reachable: "reachable demo_entropy demo3"
proof -
  obtain acts where "received 2 demo_reply 5 demo1 = Some (demo3, acts)"
    using received_ended [OF reachable_ok [OF demo1_reachable], of 2 demo_reply 5]
    by (auto simp: demo3_def no_panic_def split: option.splits)
  then show ?thesis
    using reachable.step [OF demo1_reachable, where ev = "EReceived 2 demo_reply"] by simp
qed

end
