(* ===== verification/Example_Daemon.thy ===== *)
theory Example_Daemon
  imports Daemon_Answers Example_Engine
begin

text \<open>
  A concrete system and a concrete state of the daemon, reached by its own handlers, as instances
  for the theorems about the daemon.
\<close>

definition demo_base :: "(nat, sock, unit, unit) system" where
  "demo_base =
     \<lparr>os_write = sock_write, os_fd = sk_fd, os_udp_fd = (\<lambda>u. u), os_nametoindex = (\<lambda>_. 2),
      os_tcp_open = (\<lambda>_ _. Inl TimedOut), os_udp_open = (\<lambda>tx _ _ _. Inr (20 + tx)), os_clock = (\<lambda>n. n),
      os_gethostname = Some (byte_str ''box''), os_open_peer = (\<lambda>_. Some ()), os_check = (\<lambda>_ _ _ _. Some True),
      os_validate = (\<lambda>_. Some ()), os_build = (\<lambda>_ _ _. ()), os_text = (\<lambda>_. [])\<rparr>"

text \<open>Datagrams leave; a connection is made but takes nothing.\<close>

definition demo_os :: "(nat, sock, unit, unit) system" where
  "demo_os = sock_os (\<lambda>tx _. Inr (40 + tx, [])) demo_base"

definition demo_config :: config where
  "demo_config = default_config\<lparr>cf_servers := [V4 0x0a000001, V4 0x0a000002], cf_search := [Name [byte_str ''lan'']]\<rparr>"

definition demo_start :: "(nat, sock, unit) resolvd" where
  "demo_start = daemon_start demo_os demo_entropy demo_config True (Inl TimedOut) 0"

definition demo_stream :: sock where
  "demo_stream = \<lparr>sk_fd = 9, sk_writes = [], sk_out = []\<rparr>"

text \<open>A client has asked for the address of \<open>pc\<close>, and the question waits for a server.\<close>

definition demo_asked :: "(nat, sock, unit) resolvd" where
  "demo_asked = the (handle_request demo_os demo_stream (RqResolve (byte_str ''pc'') RT_A False) 0 demo_start)"

interpretation demo: daemon_os demo_os sk_out
  unfolding demo_os_def by (rule sock_sys.daemon_os_axioms)

lemma demo_start_inv: "daemon_inv sk_out [] demo_start"
  unfolding demo_start_def by (rule start_inv)

lemma demo_asked_inv: "daemon_inv sk_out [] demo_asked"
proof -
  have "\<exists>d'. handle_request demo_os demo_stream (RqResolve (byte_str ''pc'') RT_A False) 0 demo_start = Some d' \<and> daemon_inv sk_out [] d'"
    by (rule demo.request_inv [OF demo_start_inv])
      (simp_all add: demo_stream_def demo_start_def daemon_start_def count_waiters_def MAX_PENDING_CLIENTS_def)
  then show ?thesis by (auto simp: demo_asked_def)
qed

lemma demo_asked_tables:
  "map fst (d_waiters demo_asked) = [1] \<and> map (\<lambda>(x, y). (x, x_deadline y)) (txs (d_engine demo_asked)) = [(2, 2000000000)] \<and>
   up_udp (d_upstream demo_asked) = [(2, 22)]"
  by code_simp

text \<open>The same question with its actions still to be carried out, and a system that can send nothing.\<close>

definition demo_pending :: "(nat, sock, unit) resolvd \<times> action list" where
  "demo_pending =
     (case resolve 1 (byte_str ''pc'') RT_A False 0 (d_engine demo_start) of
        Some (e, acts) \<Rightarrow> (demo_start\<lparr>d_engine := e, d_waiters := [(1, WNative demo_stream)], d_next_id := 2\<rparr>, acts)
      | None \<Rightarrow> (demo_start, []))"

definition demo_down :: "(nat, sock, unit, unit) system" where
  "demo_down = sock_os (\<lambda>_ _. Inl TimedOut) (demo_base\<lparr>os_udp_open := (\<lambda>_ _ _ _. Inl TimedOut), os_check := (\<lambda>_ _ _ _. Some False)\<rparr>)"

lemma demo_down_ok: "daemon_os demo_down sk_out"
  unfolding demo_down_def by (rule sock_sys.daemon_os_axioms)

lemma demo_pending_inv: "daemon_inv sk_out (snd demo_pending) (fst demo_pending)"
proof -
  have wk: "work_ok sk_out [] demo_start" using demo_start_inv by (simp add: daemon_inv_def)
  note quiet = quiet_facts [OF wk]
  have none: "d_waiters demo_start = []" by (simp add: demo_start_def daemon_start_def)
  then have "opens (d_engine demo_start) = {}" using quiet(2) by simp
  then obtain e acts where e: "resolve 1 (byte_str ''pc'') RT_A False 0 (d_engine demo_start) = Some (e, acts)"
    "effect (EResolve 1 (byte_str ''pc'') RT_A False) (d_engine demo_start) e acts"
    using step_effect [OF quiet(5), of "EResolve 1 (byte_str ''pc'') RT_A False" 0] by (auto simp: no_panic_def split: option.splits)
  let ?d = "demo_start\<lparr>d_engine := e, d_waiters := [(1, WNative demo_stream)], d_next_id := 2\<rparr>"
  have "work_ok sk_out acts ?d"
    by (rule event_work [OF wk, where ev = "EResolve 1 (byte_str ''pc'') RT_A False"]) (use e quiet none in simp_all)
  moreover have "doors_ok sk_out ?d"
    using demo_start_inv
    by (simp add: daemon_inv_def doors_ok_def admitted_def waiters_ok_def clients_ok_def count_waiters_def demo_stream_def
        demo_start_def daemon_start_def MAX_PENDING_CLIENTS_def MAX_PENDING_UDP_def MAX_PENDING_UDP_PER_PEER_def
        is_native_waiter_def is_tcp_waiter_def)
  ultimately show ?thesis using e(1) by (simp add: demo_pending_def daemon_inv_def)
qed

lemma demo_pending_sends: "map (\<lambda>a. case a of Send x server i tcp b \<Rightarrow> Some (x, server) | _ \<Rightarrow> None) (snd demo_pending) = [Some (2, V4 0x0a000001)]"
  by code_simp

lemma demo_asked_tx: "\<exists>y. txs (d_engine demo_asked) = [(2, y)] \<and> x_deadline y = 2000000000"
  using demo_asked_tables by auto

text \<open>The loops with a batch limit, as single equations for evaluation.\<close>

lemma native_accept_code [code]:
  "native_accept_loop os n now pending inputs d =
     (if n = 0 then d
      else case inputs of
          [] \<Rightarrow> d
        | Inl e # inputs \<Rightarrow>
            if e = WouldBlock then d
            else if e = Interrupted then native_accept_loop os (n - 1) now pending inputs d
            else let (clock, d) = read_clock os d in d\<lparr>d_accept_backoff := backoff_failed clock (d_accept_backoff d)\<rparr>
        | Inr (stream, nonblocking) # inputs \<Rightarrow>
            if length (d_clients d) + pending \<ge> MAX_PENDING_CLIENTS then native_accept_loop os (n - 1) now pending inputs d
            else (case client_new stream nonblocking now of
                None \<Rightarrow> native_accept_loop os (n - 1) now pending inputs d
              | Some c \<Rightarrow>
                  let (i, d) = daemon_fresh_id d
                  in native_accept_loop os (n - 1) now pending inputs (d\<lparr>d_clients := hm_insert (=) i c (d_clients d)\<rparr>)))"
  by (cases "(os, n, now, pending, inputs, d)" rule: native_accept_loop.cases) (simp_all split: option.split)

lemma receive_code [code]:
  "receive_loop n inputs =
     (if n = 0 then ([], [])
      else case inputs of
          [] \<Rightarrow> ([], [])
        | Inl e # inputs \<Rightarrow> if e = Interrupted then receive_loop (n - 1) inputs else ([], [])
        | Inr (b, peer) # inputs \<Rightarrow>
            (let (out, sent) = receive_loop (n - 1) inputs in
             if \<not> is_loopback (socket_ip peer) then (out, sent)
             else case parse_query (take 4096 b) of
                 Inr query \<Rightarrow> (IQuery (OUdp peer query) # out, sent)
               | Inl (Some reply) \<Rightarrow> (out, (reply, peer) # sent)
               | Inl None \<Rightarrow> (out, sent)))"
  by (cases "(n, inputs)" rule: receive_loop.cases) simp_all

lemma accept_code [code]:
  "accept_loop n clock now limit inputs st =
     (if n = 0 then st
      else case inputs of
          [] \<Rightarrow> st
        | Inl e # inputs \<Rightarrow>
            if e = WouldBlock then st
            else if e = Interrupted then accept_loop (n - 1) clock now limit inputs st
            else st\<lparr>sb_backoff := backoff_failed clock (sb_backoff st)\<rparr>
        | Inr (stream, peer, nonblocking) # inputs \<Rightarrow>
            if length (sb_clients st) \<ge> limit \<or> \<not> is_loopback (socket_ip peer) \<or> \<not> nonblocking
            then accept_loop (n - 1) clock now limit inputs st
            else accept_loop (n - 1) clock now limit inputs
              (st\<lparr>sb_next_client := sb_next_client st + 1,
                  sb_clients := hm_insert (=) (sb_next_client st)
                    \<lparr>tc_stream = stream, tc_buf = [], tc_since = now\<rparr> (sb_clients st)\<rparr>))"
  by (cases "(n, clock, now, limit, inputs, st)" rule: accept_loop.cases) simp_all

text \<open>A run: a client connects, then its request arrives in two pieces.\<close>

definition demo_frame :: bytes where
  "demo_frame = (case wire_send (request_encode (RqResolve (byte_str ''pc'') RT_A False)) of Inr f \<Rightarrow> f | Inl _ \<Rightarrow> [])"

definition demo_polls :: "(io_error + (nat, sock, unit, unit) system \<times> sock turn) list" where
  "demo_polls =
     [Inr (demo_os, (silent_turn 0 (Inl TimedOut))\<lparr>tn_native := (POLLIN, [Inr (demo_stream, True)])\<rparr>),
      Inl Interrupted,
      Inr (demo_os, (silent_turn 5 (Inl TimedOut))\<lparr>tn_clients := [(1, POLLIN, [Inr (take 7 demo_frame), Inr (drop 7 demo_frame)])]\<rparr>)]"

definition demo_last :: "(nat, sock, unit) resolvd" where
  "demo_last = snd (the (daemon_run demo_polls demo_start))"

lemma demo_polls_ok: "polls_ok sk_out demo_polls"
  by (simp add: demo_polls_def demo.daemon_os_axioms turn_ok_def silent_turn_def demo_stream_def)

lemma demo_run_tables:
  "map_option (\<lambda>(going, d). (going, map fst (d_waiters d), map fst (txs (d_engine d)), length (d_clients d)))
     (daemon_run demo_polls demo_start) = Some (True, [2], [2], 0)"
  by code_simp

lemma demo_run: "daemon_run demo_polls demo_start = Some (True, demo_last)"
  using demo_run_tables by (auto simp: demo_last_def)

lemma demo_run_waits:
  "map_option (\<lambda>(going, d). (d_waiters d, map (\<lambda>(x, y). x_deadline y) (txs (d_engine d)))) (daemon_run demo_polls demo_start)
     = Some ([(2, WNative demo_stream)], [2000000005])"
  by code_simp

lemma demo_last_waits: "d_waiters demo_last = [(2, WNative demo_stream)]" "get_tx (d_engine demo_last) x = Some y \<Longrightarrow> x_deadline y = 2000000005"
proof -
  have d: "d_waiters demo_last = [(2, WNative demo_stream)]" "map (\<lambda>(x, y). x_deadline y) (txs (d_engine demo_last)) = [2000000005]"
    using demo_run_waits by (auto simp: demo_run)
  then show "d_waiters demo_last = [(2, WNative demo_stream)]" by simp
  assume "get_tx (d_engine demo_last) x = Some y"
  then have "(x, y) \<in> set (txs (d_engine demo_last))" using ids.get_in_set [of x "txs (d_engine demo_last)" y] by auto
  then have "x_deadline y \<in> set (map (\<lambda>(x, y). x_deadline y) (txs (d_engine demo_last)))" by force
  then show "x_deadline y = 2000000005" using d(2) by simp
qed

lemma demo_last_live: "map fst (d_waiters demo_last) = [2]" "live (d_engine demo_last) = {2}"
  using demo_run_tables by (auto simp: demo_run live_def simp flip: set_map)

end
