(* ===== verification/Spec2Isabelle.thy ===== *)
theory Spec2Isabelle
  imports Example_Daemon "HOL-Library.Code_Target_Nat"
begin

text \<open>
  Verification of \<open>resolvd\<close>, the stub resolver daemon, over the sources under \<open>src/\<close>.

  \<^bold>\<open>The program.\<close> Clients ask through two doors: a native Unix socket that speaks MessagePack
  (\<open>resolvd/src/control.rs\<close>, \<open>resolvd-core/src/lib.rs\<close>) and a DNS listener on the loopback address
  (\<open>resolvd/src/stub.rs\<close>). The engine (\<open>resolvd/src/engine.rs\<close>), which does no input or output,
  takes questions, replies, failures and ticks as events and returns actions: send a query, cancel
  one, answer a question. The daemon (\<open>resolvd/src/main.rs\<close>) polls all sockets, turns what they
  deliver into events and carries out the actions over \<open>upstream.rs\<close>, \<open>reply_queue.rs\<close> and the stub.
  Its servers and domains come from netd (\<open>netd_link.rs\<close>) and from the registry (\<open>config.rs\<close>).

  \<^bold>\<open>Theories.\<close>
  \<^item> \<open>Prelude\<close>, \<open>Std_Io\<close>, \<open>Std_Text\<close>: results, slices, big-endian words, hash maps as association
    lists (locale \<open>hash_map\<close>), nonblocking streams (locale \<open>nonblocking_stream\<close>), UTF-8, decimal and
    IP address text as the Rust standard library reads and prints them.
  \<^item> \<open>Dns_Name\<close>, \<open>Dns_Reverse\<close>, \<open>Dns_Message\<close>, \<open>Dns_Codec\<close>, \<open>Dns_Text\<close>: \<open>dns/src/lib.rs\<close>. Names and
    messages survive printing and parsing, encoding and decoding; whatever is decoded is well-formed.
  \<^item> \<open>Cache\<close>: \<open>resolvd/src/cache.rs\<close>, behind the locale \<open>answer_cache\<close>.
  \<^item> \<open>Engine_State\<close>, \<open>Routing\<close>, \<open>Answers\<close>, \<open>Engine\<close>: \<open>resolvd/src/engine.rs\<close>, in the order state, choice of
    scope and servers, use of a reply, operations. One definition per method; the \<open>HashMap\<close>s are
    association lists, an iteration over one is in list order.
  \<^item> \<open>Engine_Invariant\<close>, \<open>Engine_Events\<close>, \<open>Engine_Machine\<close>: the invariant \<open>engine_ok\<close>, that every
    operation keeps it and never panics, the events as a step function with \<open>reachable\<close> states
    (which include every reordering of the maps), the abstract desk that the engine refines, the
    measures of progress, and what reaches the wire and the cache.
  \<^item> \<open>Msgpack\<close>, \<open>Native_Wire\<close>, \<open>Control\<close>: \<open>resolvd-core/src/msgpack.rs\<close>, \<open>resolvd-core/src/lib.rs\<close> and
    \<open>control.rs\<close>: codec, requests, replies, frames, access rights, reading of a request.
  \<^item> \<open>Reply_Queue\<close>, \<open>Stub\<close>, \<open>Upstream\<close>, \<open>Netd_Link\<close>, \<open>Config\<close>: \<open>reply_queue.rs\<close> with
    \<open>accept_backoff.rs\<close>, \<open>stub.rs\<close>, \<open>upstream.rs\<close>, \<open>netd_link.rs\<close>, \<open>config.rs\<close> with \<open>registry_reader.rs\<close>
    and \<open>entropy.rs\<close>.
  \<^item> \<open>Daemon\<close>: \<open>main.rs\<close>. The record \<open>resolvd\<close> is the state, \<open>daemon_turn\<close> one turn of the loop,
    \<open>daemon_run\<close> the loop over a sequence of polls.
  \<^item> \<open>Daemon_Invariant\<close>, \<open>Daemon_Steps\<close>: the daemon's invariant, that \<open>perform\<close> ends, that every step of
    a turn keeps the invariant, what silence leads to, and the poll set with its timeout.
  \<^item> \<open>Daemon_Answers\<close>: that a completion always fits its waiter, and that silence hands every waiter a
    reply. What is handed over is observed through the datagrams sent (\<open>d_sent\<close>) and a trace of the
    calls of a reply queue (\<open>rp_tried\<close> of the record \<open>replies\<close>: stream, frame and result), which are
    part of the model's state and not of the program's.
  \<^item> \<open>Example_Engine\<close>, \<open>Example_Daemon\<close>: concrete states, evaluated, for the instances of the theorems.

  \<^bold>\<open>Conventions.\<close> A byte is an 8-bit word and every integer of the wire keeps its width; identifiers
  and counters of 64 bits that only count up, instants and durations (in nanoseconds) are natural
  numbers. A \<open>Result\<close> is a sum with the error on the left; a panic is \<open>None\<close>, so that the theorems
  which claim a \<open>Some\<close> claim that nothing panics. A string is its bytes, except for interface names
  and scope identifiers inside the engine, which are character strings.

  \<^bold>\<open>Interfaces.\<close> What is not under \<open>src/\<close> is a parameter: entropy is a function of the number of the
  draw, the security library and the system calls are the fields of the record \<open>system\<close> (which may
  differ from turn to turn), and what \<open>poll\<close>, \<open>read\<close>, \<open>accept\<close> and \<open>recv\<close> deliver is the input of a
  turn. The theorems about the daemon assume of it only what \<open>daemon_os\<close> and \<open>turn_ok\<close> state: a write
  reports how much of the bytes it took, and a stream just connected or accepted has carried
  nothing. \<open>sock_os\<close> is such a system for every choice of results.

  \<^bold>\<open>What the properties show.\<close> The engine never panics, keeps its invariant and answers every question
  at most once (C1, C2); the daemon never panics or hangs in a turn, whatever the system answers, and
  has exactly one socket per transaction and one waiter per question (C3, C5, C13); silence drains all
  of it (C6, C7) and hands every waiting client a reply (C4); admission is bounded (C11), a denied request changes nothing (C12), and the
  poll wakes in time (C14). Queries go only to servers of the scope they are routed to, replies are
  matched exactly, and only what they may contribute is kept (C8 to C10, C15 to C18). Routing, search
  and local names choose as documented and independently of the order of hash maps (C19 to C26).
  Requests and replies of both doors survive encoding and every segmentation, and malformed ones are
  refused (C27 to C33); the one reply its client cannot read is a status with a count of 2 to the 63
  or more (C28). Datagrams fit, names and reverse names print and parse, and the cache is
  bounded and faithful.

  \<^bold>\<open>Loops and fuel.\<close> The batch limit of the accept and receive loops is the source's own
  \<open>IO_BATCH_LIMIT\<close>. All recursions are total by a termination proof except \<open>perform\<close>, which is partial
  by definition and total by theorem (C5).

  \<^bold>\<open>Not modelled.\<close> Log lines and the supervisor notification, which are pure output; the creation and
  protection of the listening sockets and the system calls of connecting, which have no logic of
  their own beyond error propagation; the NSS shim, the C library and its client, which move the
  native wire types across raw pointers; the command line tool; packaging, fuzzing and tests. The
  wrap-around of the 64-bit identifiers after 2 to the 64 questions is not modelled.
\<close>

section \<open>Properties that span components\<close>

text \<open>
  C1: In every reachable state the invariant holds: between events every task has exactly one
  transaction in flight, that transaction points back at it, a lookup waits for exactly its own
  tasks, no more than 4096 transactions are alive, and the cache is within its capacity.
\<close>

theorem reachable_invariant:
  assumes "reachable ent e"
  shows "engine_ok {} e"
  using assms by (rule reachable_ok)

theorem reachable_invariant_witness:
  "reachable demo_entropy demo1 \<and> engine_ok {} demo1"
  using reachable_invariant [OF demo1_reachable] demo1_reachable by (rule conjI [rotated])

text \<open>
  C2: No event panics in a reachable state, and every event refines the abstract desk: each
  question is answered exactly once or stays open, and the transactions alive are exactly those
  sent and neither reported over by the transport nor cancelled.
\<close>

theorem engine_refines_desk:
  assumes "reachable ent e" "event_ok ev e"
  shows "\<exists>e' acts. engine_step now ev e = Some (e', acts) \<and>
    desk_step (asks ev) (drops ev) (over e ev) (desk_of e) acts (desk_of e')"
proof -
  have "no_panic (engine_step now ev e) (effect ev e)"
    using step_effect [OF reachable_ok [OF assms(1)] assms(2)] .
  then show ?thesis by (auto simp: no_panic_def effect_def split: option.splits)
qed

theorem engine_refines_desk_witness:
  "\<exists>e' acts. engine_step 5 (EFailed 2) demo1 = Some (e', acts) \<and>
    desk_step {} {} {2} (desk_of demo1) acts (desk_of e')"
  using engine_refines_desk [OF demo1_reachable, of "EFailed 2" 5] by simp

text \<open>
  C3: Whatever the polls report and the system calls answer (streams being nonblocking and new
  when accepted or connected), no turn of the loop panics or fails to return, and the state after
  any run satisfies the daemon's invariant: there is exactly one socket per live transaction of the
  engine and exactly one waiter per open question.
\<close>

theorem daemon_never_panics:
  assumes "polls_ok out polls"
  shows "\<exists>going d. daemon_run polls (daemon_start os ent cfg watch connect now) = Some (going, d) \<and>
    daemon_inv out [] d \<and> engine_ok {} (d_engine d) \<and>
    up_keys (d_upstream d) = live (d_engine d) \<and> keyset (d_waiters d) = opens (d_engine d)"
proof -
  obtain going d where r: "daemon_run polls (daemon_start os ent cfg watch connect now) = Some (going, d)" "daemon_inv out [] d"
    using run_inv [OF start_inv assms] by blast
  then have "work_ok out [] d" by (simp add: daemon_inv_def)
  with r quiet_facts [OF this] show ?thesis by blast
qed

theorem daemon_never_panics_witness:
  "\<exists>going d. daemon_run demo_polls (daemon_start demo_os demo_entropy demo_config True (Inl TimedOut) 0) = Some (going, d) \<and>
    daemon_inv sk_out [] d \<and> engine_ok {} (d_engine d) \<and>
    up_keys (d_upstream d) = live (d_engine d) \<and> keyset (d_waiters d) = opens (d_engine d)"
  by (rule daemon_never_panics [OF demo_polls_ok])

text \<open>
  C4: Take any state a run reaches. If no poll reports anything any more, three turns (the first
  once all deadlines have passed, each next at least the server timeout later) leave no waiter and
  no upstream socket, whatever happens to the queries that are sent meanwhile. And each waiter has
  been handed its reply by then: the reply queue of the native door was called with the client's
  stream and the frame of an unavailable answer or of addresses; the reply queue of the stub with
  the stream of a TCP query and the framed bytes of a message that decodes to its SERVFAIL reply;
  and a datagram that decodes to it was sent to the peer of a UDP query. A call of a queue is
  recorded with its result, which is an error when the stream failed or the queue was full.
\<close>

theorem silent_daemon_drains:
  assumes "polls_ok out polls" "daemon_run polls (daemon_start os ent cfg watch connect now) = Some (going, d)"
    and "daemon_os os1 out" "daemon_os os2 out" "daemon_os os3 out"
    and "\<forall>x y. get_tx (d_engine d) x = Some y \<longrightarrow> x_deadline y \<le> t1"
    and "t1 + SERVER_TIMEOUT \<le> t2" "t2 + SERVER_TIMEOUT \<le> t3"
  shows "\<exists>d'. daemon_run [Inr (os1, silent_turn t1 c1), Inr (os2, silent_turn t2 c2), Inr (os3, silent_turn t3 c3)] d = Some (True, d') \<and>
    daemon_inv out [] d' \<and> d_waiters d' = [] \<and> up_keys (d_upstream d') = {} \<and>
    (\<forall>q stream. (q, WNative stream) \<in> set (d_waiters d) \<longrightarrow>
       (\<exists>rp r. (stream, response_frame rp, r) \<in> set (drop (length (rp_tried (d_replies d))) (rp_tried (d_replies d'))) \<and>
          ((\<exists>a. a_outcome a = Unavailable \<and> rp = RpAnswer (to_answer a)) \<or> (\<exists>a. rp = RpAddresses (to_addresses a))))) \<and>
    (\<forall>q stream query. (q, WStub (OTcp stream query)) \<in> set (d_waiters d) \<longrightarrow>
       (\<exists>b r. (stream, be_bytes 2 (word_of_nat (length b) :: u16) @ b, r)
            \<in> set (drop (length (rp_tried (sb_replies (d_stub d)))) (rp_tried (sb_replies (d_stub d')))) \<and>
          decode b = Inr (build_reply query (default_answer\<lparr>a_outcome := Unavailable\<rparr>)))) \<and>
    (\<forall>q peer query. (q, WStub (OUdp peer query)) \<in> set (d_waiters d) \<longrightarrow>
       (\<exists>b. (b, peer) \<in> set (drop (length (d_sent d)) (d_sent d')) \<and>
          decode b = Inr (build_reply query (default_answer\<lparr>a_outcome := Unavailable\<rparr>))))"
proof -
  have inv: "daemon_inv out [] d" using run_inv [OF start_inv assms(1), of os ent cfg watch connect now] assms(2) by auto
  obtain d' where d': "daemon_run [Inr (os1, silent_turn t1 c1), Inr (os2, silent_turn t2 c2), Inr (os3, silent_turn t3 c3)] d = Some (True, d')"
    "daemon_inv out [] d'" "d_waiters d' = []" "up_keys (d_upstream d') = {}"
    using silence_drains [OF inv assms(3-8)] by blast
  have "tended d d'" by (rule silent_tended [OF run_kinds [OF start_kinds assms(2)] d'(1)])
  then have g: "given d d' w" if "(q, w) \<in> set (d_waiters d)" for q w
    using that d'(3) by (auto simp: tended_def)
  show ?thesis
    using d' g [of _ "WNative _"] g [of _ "WStub (OTcp _ _)"] g [of _ "WStub (OUdp _ _)"]
    unfolding given.simps news_def native_calls_def stub_calls_def by blast
qed

theorem silent_daemon_drains_witness:
  "d_waiters demo_last = [(2, WNative demo_stream)] \<and>
   (\<exists>d'. daemon_run [Inr (demo_os, silent_turn (from_secs 3) (Inl TimedOut)), Inr (demo_down, silent_turn (from_secs 5) (Inl TimedOut)),
      Inr (demo_os, silent_turn (from_secs 7) (Inl TimedOut))] demo_last = Some (True, d') \<and>
    daemon_inv sk_out [] d' \<and> d_waiters d' = [] \<and> up_keys (d_upstream d') = {} \<and>
    (\<exists>rp r. (demo_stream, response_frame rp, r) \<in> set (drop (length (rp_tried (d_replies demo_last))) (rp_tried (d_replies d'))) \<and>
       ((\<exists>a. a_outcome a = Unavailable \<and> rp = RpAnswer (to_answer a)) \<or> (\<exists>a. rp = RpAddresses (to_addresses a)))))"
proof -
  have tx: "\<forall>x y. get_tx (d_engine demo_last) x = Some y \<longrightarrow> x_deadline y \<le> from_secs 3"
    using demo_last_waits(2) by (simp add: from_secs_def)
  have t: "from_secs 3 + SERVER_TIMEOUT \<le> from_secs 5" "from_secs 5 + SERVER_TIMEOUT \<le> from_secs 7"
    by (simp_all add: SERVER_TIMEOUT_def from_secs_def)
  from silent_daemon_drains [OF demo_polls_ok demo_run [unfolded demo_start_def] demo.daemon_os_axioms demo_down_ok
      demo.daemon_os_axioms tx t, of "Inl TimedOut" "Inl TimedOut" "Inl TimedOut"]
  show ?thesis using demo_last_waits(1) by auto
qed

text \<open>
  C5: perform carries out a batch of actions and calls itself on what failed sends produced; it
  ends, nothing is left to do, and the invariant holds again, whichever sends fail.
\<close>

theorem performing_actions_ends:
  assumes "daemon_os os out" "daemon_inv out acts d"
  shows "\<exists>d'. perform os now acts d = Some d' \<and> daemon_inv out [] d'"
  using daemon_os.perform_inv [OF assms] .

theorem performing_actions_ends_witness:
  "snd demo_pending \<noteq> [] \<and> (\<exists>d'. perform demo_down 0 (snd demo_pending) (fst demo_pending) = Some d' \<and> daemon_inv sk_out [] d')"
  using performing_actions_ends [OF demo_down_ok demo_pending_inv, of 0] demo_pending_sends by auto

text \<open>
  C6: If nothing arrives any more, three ticks, the first when all deadlines have passed and each
  next at least the server timeout later, answer every open question exactly once and leave no
  transaction alive.
\<close>

theorem silent_servers_drain:
  assumes "reachable ent e" "\<forall>x y. get_tx e x = Some y \<longrightarrow> x_deadline y \<le> t1"
    and "t1 + SERVER_TIMEOUT \<le> t2" "t2 + SERVER_TIMEOUT \<le> t3"
  shows "\<exists>e' acts. run_each tick [t1, t2, t3] e = Some (e', acts) \<and>
    opens e' = {} \<and> live e' = {} \<and> distinct (dones acts) \<and> set (dones acts) = opens e"
proof (cases "run_each tick [t1, t2, t3] e")
  case None
  then show ?thesis using ticks_drain [OF reachable_ok [OF assms(1)] assms(2-4)] by (simp only: no_panic_def option.case)
next
  case (Some r)
  then show ?thesis using ticks_drain [OF reachable_ok [OF assms(1)] assms(2-4)] by (cases r) (simp only: no_panic_Some, blast)
qed

theorem silent_servers_drain_witness:
  "opens demo1 = {7} \<and> (\<exists>e' acts. run_each tick [from_secs 2, from_secs 4, from_secs 6] demo1 = Some (e', acts) \<and>
    opens e' = {} \<and> live e' = {} \<and> distinct (dones acts) \<and> set (dones acts) = opens demo1)"
proof (intro conjI silent_servers_drain [OF demo1_reachable])
  show "opens demo1 = {7}" by (rule demo1_opens)
  show "\<forall>x y. get_tx demo1 x = Some y \<longrightarrow> x_deadline y \<le> from_secs 2"
    using demo1_tx by (auto simp: from_secs_def split: if_splits)
qed (simp_all add: SERVER_TIMEOUT_def from_secs_def)

text \<open>
  C7: However a transaction ends (a matching reply, a failure of the transport, a local failure),
  afterwards its task is gone or has strictly less left to do: search candidates plus attempts.
\<close>

theorem transaction_end_progress:
  assumes "reachable ent e" "get_tx e x = Some y" "get_task e (x_task y) = Some t"
    and "(response_matches e x bs \<and> received x bs now e = Some (e', acts)) \<or>
      failed x now e = Some (e', acts) \<or> local_failed x now e = Some (e', acts)"
    and "get_task e' (x_task y) = Some t'"
  shows "length (t_candidates t') + (MAX_ATTEMPTS - t_attempt t') <
    length (t_candidates t) + (MAX_ATTEMPTS - t_attempt t)"
  using assms received_progress [OF reachable_ok [OF assms(1)] assms(2,3)]
    failed_progress [OF reachable_ok [OF assms(1)] assms(2,3)]
  unfolding potential_def by blast

theorem transaction_end_progress_witness:
  "\<exists>t t'. get_task demo1 1 = Some t \<and> get_task demo2 1 = Some t' \<and> t_attempt t = 1 \<and> t_attempt t' = 2 \<and>
    length (t_candidates t') + (MAX_ATTEMPTS - t_attempt t') < length (t_candidates t) + (MAX_ATTEMPTS - t_attempt t)"
proof -
  obtain y where y: "get_tx demo1 2 = Some y" "x_task y = 1" using demo1_tx by auto
  obtain t where t: "get_task demo1 (x_task y) = Some t" "t_attempt t = 1" using demo1_task y(2) by auto
  obtain acts where f: "failed 2 5 demo1 = Some (demo2, acts)" using demo2_step by blast
  obtain t' where t': "get_task demo2 (x_task y) = Some t'" "t_attempt t' = 2"
    using demo2_attempt y(2) by (auto simp: map_eq_Cons_conv)
  show ?thesis
    using transaction_end_progress [OF demo1_reachable y(1) t(1) disjI2 [OF disjI1 [OF f]] t'(1)] t t' y(2) by auto
qed

text \<open>
  C8: Everything a new question sends goes over UDP to a server of the one scope that the
  candidate name routes to, out of that scope's interface; the payload decodes to a query for the
  candidate, up to the case of letters; and nothing is sent if there is a synthetic answer.
\<close>

theorem queries_stay_in_scope:
  assumes "reachable ent e" "wf_name n" "q \<notin> opens e"
    and "resolve_name q n rtype no_cache now e = Some (e', acts)"
    and "Send x server iface tcp payload \<in> set acts"
  shows "\<exists>c sid d n'. c \<in> set (candidates e n) \<and> route e c = Some sid \<and>
    server \<in> set (scope_servers e sid) \<and> iface = interface_of e sid \<and> \<not> tcp \<and>
    synthetic e n rtype = None \<and>
    decode payload = Inr (message_query d (question_new n' rtype)) \<and> name_eq n' c"
  using resolve_name_send [OF reachable_ok [OF assms(1)] assms(2-5)] .

theorem queries_stay_in_scope_witness:
  "\<exists>e' acts x server iface tcp payload.
    resolve_name 7 (Name [byte_str ''pc'']) RT_A False 0 demo0 = Some (e', acts) \<and>
    Send x server iface tcp payload \<in> set acts \<and>
    (\<exists>c sid d n'. c \<in> set (candidates demo0 (Name [byte_str ''pc''])) \<and> route demo0 c = Some sid \<and>
      server \<in> set (scope_servers demo0 sid) \<and> iface = interface_of demo0 sid \<and> \<not> tcp \<and>
      synthetic demo0 (Name [byte_str ''pc'']) RT_A = None \<and>
      decode payload = Inr (message_query d (question_new n' RT_A)) \<and> name_eq n' c)"
proof -
  obtain e' acts x server iface tcp payload where r:
    "resolve_name 7 (Name [byte_str ''pc'']) RT_A False 0 demo0 = Some (e', acts)"
    "Send x server iface tcp payload \<in> set acts"
    using demo0_sends by blast
  from queries_stay_in_scope [OF demo0_reachable demo_wf(1) demo0_new r] r show ?thesis by blast
qed

text \<open>
  C9: When the servers a scope stands for change, nothing of that scope is visible in the cache
  any more, and whatever arrives later for a question that was in flight in that scope, after any
  sequence of events, adds nothing to the cache.
\<close>

theorem changed_servers_isolate:
  assumes "reachable ent e" "servers_named sid ss \<noteq> servers_named sid (scopes e)"
    and "get_task e i = Some t" "t_scope t = Some sid"
    and "runs (set_scopes ss e) e1" "get_tx e1 x = Some y" "x_task y = i"
    and "received x bs now e1 = Some (e2, acts)"
  shows "hidden sid (answers_cache (set_scopes ss e)) \<and>
    (\<forall>k now' en. live_entry k now' (answers_cache e2) = Some en \<longrightarrow> live_entry k now' (answers_cache e1) = Some en)"
  using fold_invalidate(1) [OF invalidated_changed [OF assms(2)], of e]
    set_scopes_isolates [OF reachable_ok [OF assms(1)] assms(2-8)]
  by (simp add: set_scopes_alt cache_le_def)

theorem changed_servers_isolate_witness:
  "response_matches (set_scopes [] demo1) 2 demo_reply \<and>
   (\<exists>e2 acts. received 2 demo_reply 5 (set_scopes [] demo1) = Some (e2, acts) \<and>
     hidden ''1'' (answers_cache (set_scopes [] demo1)) \<and>
     (\<forall>k now' en. live_entry k now' (answers_cache e2) = Some en \<longrightarrow>
        live_entry k now' (answers_cache (set_scopes [] demo1)) = Some en))"
proof -
  have changed: "servers_named ''1'' [] \<noteq> servers_named ''1'' (scopes demo1)" by code_simp
  obtain t where t: "get_task demo1 1 = Some t" "t_scope t = Some ''1''" using demo1_task by auto
  have tx: "txs (set_scopes [] demo1) = txs demo1"
    using reconfigured_step(1) [of demo1 "[]"] by (simp add: reconfigured_def)
  then obtain y where y: "get_tx (set_scopes [] demo1) 2 = Some y" "x_task y = 1" using demo1_tx by auto
  obtain e2 acts where r: "received 2 demo_reply 5 (set_scopes [] demo1) = Some (e2, acts)"
    using received_ended [OF reconfigured_ok(1) [OF reconfigured_step(1) reachable_ok [OF demo1_reachable]], of 2 demo_reply 5 "[]"]
    by (auto simp: no_panic_def split: option.splits)
  have m: "response_matches (set_scopes [] demo1) 2 demo_reply"
    using demo1_reply tx by (simp add: response_matches_def matching_response_def)
  from changed_servers_isolate [OF demo1_reachable changed t runs_refl y r] m r show ?thesis by blast
qed

text \<open>
  C10: A reply is accepted for a transaction exactly if it decodes to a response with the
  transaction's identifier and exactly the one question that was sent, byte for byte; any other
  bytes leave the engine as it was.
\<close>

theorem replies_match_exactly:
  "(response_matches e x bs \<longleftrightarrow>
     (\<exists>y msg. get_tx e x = Some y \<and> decode bs = Inr msg \<and> hdr_id (header msg) = x_dns_id y \<and>
        response (header msg) \<and>
        (\<exists>q. questions msg = [q] \<and> q_name q = q_name (x_question y) \<and>
           q_type q = q_type (x_question y) \<and> q_class q = q_class (x_question y)))) \<and>
   (\<not> response_matches e x bs \<longrightarrow> received x bs now e = Some (e, []))"
proof -
  have "response_matches e x bs \<longleftrightarrow> (\<exists>msg. matching_response e x bs = Some msg)"
    by (auto simp: response_matches_def)
  moreover have "\<not> response_matches e x bs \<Longrightarrow> received x bs now e = Some (e, [])"
    by (cases "get_tx e x") (simp_all add: received_def response_matches_def)
  ultimately show ?thesis unfolding matching_response_Some by blast
qed

theorem replies_match_exactly_witness:
  "response_matches demo1 2 demo_reply \<and> \<not> response_matches demo1 2 (255 # tl demo_reply) \<and>
   received 2 (255 # tl demo_reply) 5 demo1 = Some (demo1, [])"
proof -
  have no: "\<not> response_matches demo1 2 (255 # tl demo_reply)" by code_simp
  then have "received 2 (255 # tl demo_reply) 5 demo1 = Some (demo1, [])"
    using replies_match_exactly [of demo1 2 "255 # tl demo_reply" 5] by simp
  with no demo1_reply show ?thesis by simp
qed

text \<open>
  C11: At any point of a run, readers plus waiting questions of the native socket and of the TCP
  listener stay within their bound each, waiting UDP questions stay within theirs, per peer and in
  all, and so do the replies still being written.
\<close>

theorem admission_is_bounded:
  assumes "polls_ok out polls" "daemon_run polls (daemon_start os ent cfg watch connect now) = Some (going, d)"
  shows "length (d_clients d) + count_waiters is_native_waiter (d_waiters d) \<le> MAX_PENDING_CLIENTS \<and>
    length (sb_clients (d_stub d)) + count_waiters is_tcp_waiter (d_waiters d) \<le> MAX_PENDING_CLIENTS \<and>
    count_waiters (\<lambda>w. udp_peer w \<noteq> None) (d_waiters d) \<le> MAX_PENDING_UDP \<and>
    (\<forall>peer. count_waiters (\<lambda>w. udp_peer w = Some peer) (d_waiters d) \<le> MAX_PENDING_UDP_PER_PEER) \<and>
    length (rp_pending (d_replies d)) \<le> MAX_PENDING_REPLIES \<and> length (rp_pending (sb_replies (d_stub d))) \<le> MAX_PENDING_REPLIES"
proof -
  have "daemon_inv out [] d" using run_inv [OF start_inv [of out os ent cfg watch connect now] assms(1)] assms(2) by fastforce
  then show ?thesis unfolding daemon_inv_def doors_ok_def stub_ok_def queue_ok_def admitted_def by auto
qed

theorem admission_is_bounded_witness:
  "daemon_run demo_polls demo_start = Some (True, demo_last) \<and> map fst (d_waiters demo_last) = [2] \<and>
    length (d_clients demo_last) + count_waiters is_native_waiter (d_waiters demo_last) \<le> MAX_PENDING_CLIENTS"
  using admission_is_bounded [OF demo_polls_ok demo_run [unfolded demo_start_def]] demo_run demo_last_live by simp

text \<open>
  C12: A request, of any kind, whose sender cannot be identified, whose check fails or whose token
  lacks the right is answered with the access error and changes nothing but the reply queue.
\<close>

theorem denied_requests_change_nothing:
  assumes "os_open_peer os stream = None \<or>
    (\<exists>token. os_open_peer os stream = Some token \<and> os_check os (d_control d) (required_right rq) control_mapping token \<in> {None, Some False})"
  shows "handle_request os stream rq now d = Some (d\<lparr>d_reads := d_reads d + 1,
    d_replies := snd (snd (enqueue (os_write os) stream (response_frame (RpError (byte_str ''access denied'')))
      (os_clock os (d_reads d)) (d_replies d)))\<rparr>)"
  using assms by (auto simp: handle_request_def permits_def daemon_reply_def read_clock_def)

theorem denied_requests_change_nothing_witness:
  "handle_request demo_down demo_stream RqFlush 0 demo_start = Some (demo_start\<lparr>d_reads := d_reads demo_start + 1,
    d_replies := snd (snd (enqueue (os_write demo_down) demo_stream (response_frame (RpError (byte_str ''access denied'')))
      (os_clock demo_down (d_reads demo_start)) (d_replies demo_start)))\<rparr>)"
  by (rule denied_requests_change_nothing) (simp add: demo_down_def sock_os_def demo_base_def)

text \<open>
  C13: In every state a run reaches, the poll set holds the socket of every live transaction,
  under the transaction's own slot, and the stream of every waiter that has one, so that neither a
  reply nor a hang-up can be missed.
\<close>

theorem everything_awaited_is_polled:
  assumes "polls_ok out polls" "daemon_run polls (daemon_start os ent cfg watch connect now) = Some (going, d)"
  shows "(\<forall>x \<in> live (d_engine d). \<exists>fd ev. (x, fd, ev) \<in> set (upstream_fds (os_udp_fd os') (os_fd os') (d_upstream d)) \<and>
      (int fd, ev) \<in> set (poll_set os' fds now' d)) \<and>
    (\<forall>(q, w) \<in> set (d_waiters d). \<forall>s. waiter_stream w = Some s \<longrightarrow> (int (os_fd os' s), 0) \<in> set (poll_set os' fds now' d))"
proof -
  have "daemon_inv out [] d" using run_inv [OF start_inv [of out os ent cfg watch connect now] assms(1)] assms(2) by fastforce
  then have "live (d_engine d) = up_keys (d_upstream d)" using quiet_facts(1) [of out d] by (simp add: daemon_inv_def)
  then show ?thesis using upstream_polled waiter_polled by fast
qed

theorem everything_awaited_is_polled_witness:
  "live (d_engine demo_last) = {2} \<and>
   (\<exists>fd ev. (2, fd, ev) \<in> set (upstream_fds (os_udp_fd demo_os) (os_fd demo_os) (d_upstream demo_last)) \<and>
      (int fd, ev) \<in> set (poll_set demo_os (3, 4, 5, 6) 7 demo_last))"
  using everything_awaited_is_polled [OF demo_polls_ok demo_run [unfolded demo_start_def], of demo_os "(3, 4, 5, 6)" 7] demo_last_live
  by simp

text \<open>
  C14: While a transaction is in flight, a client is being read or a reply is being written, the
  poll has a timeout, it fits a 32-bit integer, and it ends no later than that deadline (at once if
  the deadline has passed).
\<close>

theorem poll_wakes_in_time:
  assumes "(\<exists>x y. get_tx (d_engine d) x = Some y \<and> t = x_deadline y) \<or>
    (\<exists>i c. (i, c) \<in> set (d_clients d) \<and> t = cl_since c + CLIENT_TIMEOUT) \<or>
    (\<exists>i c. (i, c) \<in> set (sb_clients (d_stub d)) \<and> t = tc_since c + TCP_TIMEOUT) \<or>
    (\<exists>i p. (i, p) \<in> set (rp_pending (d_replies d)) \<union> set (rp_pending (sb_replies (d_stub d))) \<and> t = pd_deadline p)"
  shows "0 \<le> poll_timeout now d \<and> poll_timeout now d \<le> 2147483647 \<and> now + nat (poll_timeout now d) * 1000000 \<le> max now t"
proof (rule poll_wait)
  have queued: "\<exists>u \<in> set (poll_deadlines now d). u \<le> pd_deadline p" if "(i, p) \<in> set (rp_pending (d_replies d))" for i p
    using replies_deadline_listed [OF that] by (auto simp: poll_deadlines_def)
  show "\<exists>u \<in> set (poll_deadlines now d). u \<le> t"
    using assms tx_deadline_listed [where d = d and now = now] client_deadline_listed [where d = d and now = now] stub_deadline_listed [where d = d and t = t and now = now] queued
    by (elim disjE exE conjE UnE) blast+
qed

theorem poll_wakes_in_time_witness:
  "0 \<le> poll_timeout 5 demo_asked \<and> poll_timeout 5 demo_asked \<le> 2147483647 \<and>
   5 + nat (poll_timeout 5 demo_asked) * 1000000 \<le> max 5 2000000000"
  by (rule poll_wakes_in_time) (use demo_asked_tx in auto)

text \<open>
  C15: Whatever a server answers, if its response is a well-formed message with the identifier and
  the question of the transaction, its encoding is accepted for that transaction.
\<close>

theorem echoed_question_accepted:
  assumes "get_tx e x = Some y" "wf_message m" "hdr_id (header m) = x_dns_id y" "response (header m)"
    and "questions m = [x_question y]" "encode m = Inr bs"
  shows "response_matches e x bs"
proof -
  have "decode bs = Inr m" using decode_encode [OF assms(2,6)] .
  then have "matching_response e x bs = Some m" using assms by (simp add: matching_response_Some)
  then show ?thesis by (simp add: response_matches_def)
qed

theorem echoed_question_accepted_witness:
  "\<exists>y bs. get_tx demo1 2 = Some y \<and>
    encode (default_message\<lparr>header := default_header\<lparr>response := True, hdr_id := x_dns_id y\<rparr>,
      questions := [x_question y]\<rparr>) = Inr bs \<and> response_matches demo1 2 bs"
proof -
  obtain y where y: "get_tx demo1 2 = Some y" using demo1_tx by auto
  let ?m = "default_message\<lparr>header := default_header\<lparr>response := True, hdr_id := x_dns_id y\<rparr>, questions := [x_question y]\<rparr>"
  have "list_all (\<lambda>(x, y). wf_name (q_name (x_question y))) (txs demo1)" by code_simp
  then have wfq: "wf_name (q_name (x_question y))" using y ids.get_in_set [OF y] by (auto simp: list_all_iff)
  then have wf: "wf_message ?m"
    by (simp add: wf_message_def wf_header_def default_message_def default_header_def)
  have "wire_len (q_name (x_question y)) \<le> 255" using wfq by (simp add: wf_name_def MAX_NAME_LEN_def)
  then obtain bs where bs: "encode ?m = Inr bs"
    by (auto simp: encode_Inr default_message_def length_question_write MAX_MESSAGE_SIZE_def)
  have "response_matches demo1 2 bs" by (rule echoed_question_accepted [OF y wf _ _ _ bs]) simp_all
  with y bs show ?thesis by blast
qed

text \<open>
  C16: The lifetime computed for a reply is at most the TTL of every record it keeps and at most a
  day; without records it is at most five minutes; and a negative answer keeps no records.
\<close>

theorem reply_lifetimes:
  "(\<forall>r \<in> set (dg_records (digest msg c rtype)). dg_ttl (digest msg c rtype) \<le> r_ttl r \<and> dg_ttl (digest msg c rtype) \<le> 86400) \<and>
   (dg_records (digest msg c rtype) = [] \<longrightarrow> dg_ttl (digest msg c rtype) \<le> 300) \<and>
   (dg_outcome (digest msg c rtype) = NotFound \<longrightarrow> dg_records (digest msg c rtype) = [])"
  using digest_ttl_records [of _ msg c rtype] digest_ttl_empty [of msg c rtype] digest_NotFound [of msg c rtype] by blast

theorem reply_lifetimes_witness:
  "dg_records (digest (default_message\<lparr>answers := [record_new demo_name 100000 (A 1)]\<rparr>) demo_name RT_A) =
     [record_new demo_name 100000 (A 1)] \<and>
   dg_ttl (digest (default_message\<lparr>answers := [record_new demo_name 100000 (A 1)]\<rparr>) demo_name RT_A) \<le> 86400"
proof -
  let ?d = "digest (default_message\<lparr>answers := [record_new demo_name 100000 (A 1)]\<rparr>) demo_name RT_A"
  have "dg_records ?d = [record_new demo_name 100000 (A 1)]" by code_simp
  then show ?thesis
    using reply_lifetimes [of "default_message\<lparr>answers := [record_new demo_name 100000 (A 1)]\<rparr>" demo_name RT_A] by simp
qed

text \<open>
  C17: Every record that goes from a reply into an answer (and the cache) is one of the reply's
  answer records of class IN: of the type asked for, at a name that following aliases from the
  candidate leads to, or an alias on that path. At most the case of its owner name changes.
\<close>

theorem answers_only_from_the_alias_path:
  assumes "r \<in> set (dg_records (digest msg c rtype))"
  shows "\<exists>r0 \<in> set (answers msg). \<exists>eff. aliased (answers msg) c eff \<and>
    (wanted eff rtype r0 \<or> on_path (answers msg) c r0) \<and>
    r = r0\<lparr>r_name := r_name r\<rparr> \<and> name_eq (r_name r) (r_name r0)"
  using assms by (rule digest_records)

theorem answers_only_from_the_alias_path_witness:
  "\<exists>r0 \<in> {record_new demo_name 60 (A 1), record_new localhost 60 (A 2)}. \<exists>eff.
    aliased [record_new demo_name 60 (A 1), record_new localhost 60 (A 2)] demo_name eff \<and>
    (wanted eff RT_A r0 \<or> on_path [record_new demo_name 60 (A 1), record_new localhost 60 (A 2)] demo_name r0) \<and>
    record_new demo_name 60 (A 1) = r0\<lparr>r_name := demo_name\<rparr> \<and> name_eq demo_name (r_name r0)"
proof -
  let ?m = "default_message\<lparr>answers := [record_new demo_name 60 (A 1), record_new localhost 60 (A 2)]\<rparr>"
  have "dg_records (digest ?m demo_name RT_A) = [record_new demo_name 60 (A 1)]" by code_simp
  then have "record_new demo_name 60 (A 1) \<in> set (dg_records (digest ?m demo_name RT_A))" by simp
  from answers_only_from_the_alias_path [OF this] show ?thesis by (simp add: record_new_def)
qed

text \<open>
  C18: No event but a reply adds to the cache: whatever is visible afterwards was visible before.
\<close>

theorem only_replies_fill_the_cache:
  assumes "reachable ent e" "event_ok ev e" "engine_step now ev e = Some (e', acts)"
    and "\<forall>x bs. ev \<noteq> EReceived x bs" "live_entry k now' (answers_cache e') = Some en"
  shows "live_entry k now' (answers_cache e) = Some en"
  using step_cache [OF reachable_ok [OF assms(1)] assms(2-4)] assms(5) by (simp add: cache_le_def)

theorem only_replies_fill_the_cache_witness:
  "\<exists>k en. live_entry k 6 (answers_cache demo3) = Some en \<and> e_outcome en = Found"
proof -
  have vis: "live_entry (cache_key_new demo_name RT_A ''1'') 6 (answers_cache (set_hostname None demo3)) \<noteq> None \<and>
     e_outcome (the (live_entry (cache_key_new demo_name RT_A ''1'') 6 (answers_cache (set_hostname None demo3)))) = Found"
    by code_simp
  then obtain en where en: "live_entry (cache_key_new demo_name RT_A ''1'') 6 (answers_cache (set_hostname None demo3)) = Some en"
    "e_outcome en = Found" by auto
  have "live_entry (cache_key_new demo_name RT_A ''1'') 6 (answers_cache demo3) = Some en"
    by (rule only_replies_fill_the_cache [OF demo3_reachable, of "ESetHostname None" 0 "set_hostname None demo3" "[]"])
       (simp_all add: en(1))
  with en(2) show ?thesis by blast
qed

text \<open>
  C19: When no scope is exclusive and the name ends with a search domain of a scope that is up, it
  goes to an up scope with a matching domain at least as long as every matching one, and with the
  least metric among those as long.
\<close>

theorem longest_search_domain_wins:
  assumes "exclusive e = None" "s \<in> set (scopes e)" "sc_level s \<ge> Link" "d \<in> set (sc_domains s)" "ends_with n d"
  shows "\<exists>s' \<in> set (scopes e). sc_level s' \<ge> Link \<and> route e n = Some (sc_id s') \<and>
    (\<exists>d' \<in> set (sc_domains s'). ends_with n d' \<and>
       (label_count d < label_count d' \<or> label_count d = label_count d' \<and> sc_metric s' \<le> sc_metric s))"
proof -
  have s: "s \<in> set (up_scopes e)" using assms by (simp add: up_scopes_def)
  then have "best_match n (up_scopes e) \<noteq> None" using assms(4,5) by (auto simp: best_match_None)
  then obtain l m s' where b: "best_match n (up_scopes e) = Some (l, m, s')" by (metis not_None_eq prod_cases3)
  note f = best_match_Some [OF b]
  have "s' \<in> set (scopes e)" "sc_level s' \<ge> Link" using f(1) by (auto simp: up_scopes_def)
  moreover have "route e n = Some (sc_id s')" using route_domain [OF assms(1) b] .
  moreover obtain d' where "d' \<in> set (sc_domains s')" "ends_with n d'" "label_count d' = l" using f(3) by blast
  ultimately show ?thesis using f(2) f(4) [OF s assms(4,5)] by (intro bexI [of _ s'] conjI bexI [of _ d']) simp_all
qed

theorem longest_search_domain_wins_witness:
  "\<exists>s' \<in> set (scopes demo0). sc_level s' \<ge> Link \<and> route demo0 demo_name = Some (sc_id s') \<and>
    (\<exists>d' \<in> set (sc_domains s'). ends_with demo_name d' \<and>
       (label_count (Name [byte_str ''lan'']) < label_count d' \<or>
        label_count (Name [byte_str ''lan'']) = label_count d' \<and> sc_metric s' \<le> sc_metric demo_scope))"
proof (rule longest_search_domain_wins)
  have sc: "scopes demo0 = [demo_scope]" by (simp add: demo0_def set_scopes_alt)
  show "demo_scope \<in> set (scopes demo0)" by (simp add: sc)
  show "exclusive demo0 = None" by (simp add: exclusive_None sc demo_scope_def)
  show "sc_level demo_scope \<ge> Link" by (simp add: demo_scope_def less_eq_level_def)
  show "Name [byte_str ''lan''] \<in> set (sc_domains demo_scope)" by (simp add: demo_scope_def)
  show "ends_with demo_name (Name [byte_str ''lan''])" by code_simp
qed

text \<open>
  C20: While some exclusive scope has an address, every name is routed to one exclusive scope of
  least metric, and single-label names are expanded only with the search domains of that scope.
\<close>

theorem exclusive_scope_takes_all:
  assumes "s \<in> set (scopes e)" "sc_exclusive s" "sc_level s \<ge> Addressed"
  shows "\<exists>x \<in> set (scopes e). sc_exclusive x \<and> sc_level x \<ge> Addressed \<and>
    (\<forall>y \<in> set (scopes e). sc_exclusive y \<and> sc_level y \<ge> Addressed \<longrightarrow> sc_metric x \<le> sc_metric y) \<and>
    (\<forall>n. route e n = Some (sc_id x)) \<and>
    (\<forall>n. label_count n = 1 \<longrightarrow> (\<forall>c \<in> set (candidates e n). \<exists>d \<in> set (sc_domains x). join n d = Inr c))"
proof -
  obtain x where x: "exclusive e = Some x" using assms exclusive_None [of e] by (cases "exclusive e") auto
  have "\<exists>d \<in> set (sc_domains x). join n d = Inr c" if "label_count n = 1" "c \<in> set (candidates e n)" for n c
    using that x add_candidates_sound [of "[]" n "search_domains e"] by (auto simp: candidates_alt search_domains_def)
  then show ?thesis using exclusive_Some [OF x] route_exclusive [OF x] by blast
qed

theorem exclusive_scope_takes_all_witness:
  "\<exists>x \<in> set [demo_scope, demo_scope\<lparr>sc_id := ''vpn'', sc_exclusive := True\<rparr>]. sc_exclusive x \<and>
    (\<forall>n. route (set_scopes [demo_scope, demo_scope\<lparr>sc_id := ''vpn'', sc_exclusive := True\<rparr>] demo0) n = Some (sc_id x))"
proof -
  let ?e = "set_scopes [demo_scope, demo_scope\<lparr>sc_id := ''vpn'', sc_exclusive := True\<rparr>] demo0"
  have s: "scopes ?e = [demo_scope, demo_scope\<lparr>sc_id := ''vpn'', sc_exclusive := True\<rparr>]"
    by (simp add: set_scopes_alt)
  have "demo_scope\<lparr>sc_id := ''vpn'', sc_exclusive := True\<rparr> \<in> set (scopes ?e)"
    "sc_exclusive (demo_scope\<lparr>sc_id := ''vpn'', sc_exclusive := True\<rparr>)"
    "sc_level (demo_scope\<lparr>sc_id := ''vpn'', sc_exclusive := True\<rparr>) \<ge> Addressed"
    unfolding s by (simp_all add: demo_scope_def less_eq_level_def)
  from exclusive_scope_takes_all [OF this] show ?thesis unfolding s by blast
qed

text \<open>
  C21: The routing loop with its running best is the first least element, for most labels and then
  least metric, of all matching pairs of a scope and one of its search domains.
\<close>

theorem best_match_is_least_key:
  "best_match n ss =
     map_option (\<lambda>(s, d). (label_count d, sc_metric s, s))
       (min_by_key (\<lambda>(s, d). (- int (label_count d), sc_metric s))
          (filter (\<lambda>(s, d). ends_with n d) (concat (map (\<lambda>s. map (Pair s) (sc_domains s)) ss))))"
  unfolding best_match_min domain_best_def domain_key_def domain_pairs_def ..

text \<open>
  C22: A name at or under \<open>localhost\<close> or \<open>local\<close> never leaves the host: it is answered at once,
  and no transaction is created.
\<close>

theorem local_names_stay_local:
  assumes "ends_with n localhost \<or> ends_with n local_domain"
  shows "\<exists>a e'. synthetic e n rtype = Some a \<and>
    resolve_name q n rtype nc now e = Some (e', [Done q (CAnswer a)]) \<and>
    txs e' = txs e"
proof -
  obtain a where a: "synthetic e n rtype = Some a"
    using assms synthetic_localhost [of n e rtype] synthetic_local [of n e rtype] by (cases "synthetic e n rtype") auto
  show ?thesis using resolve_name_synthetic [OF a, of q nc now] a by auto
qed

theorem local_names_stay_local_witness:
  "\<exists>a e'. resolve_name 9 (Name [byte_str ''printer'', byte_str ''LOCAL'']) RT_A False 0 demo1 = Some (e', [Done 9 (CAnswer a)]) \<and>
    txs e' = txs demo1"
proof -
  have "ends_with (Name [byte_str ''printer'', byte_str ''LOCAL'']) local_domain" by code_simp
  then show ?thesis using local_names_stay_local [of "Name [byte_str ''printer'', byte_str ''LOCAL'']" demo1 RT_A 9 False 0]
    by blast
qed

text \<open>
  C23: A name that is not a single label is its own only candidate. The candidates of a single
  label are exactly its joins with the search domains that fit, in the order of the domains, each
  name kept at its first place, up to the case of letters. The search domains are those of the
  exclusive scope alone if there is one, and otherwise those of the up scopes, sorted by metric
  with equal metrics in the order of the snapshot, followed by the extra domains. Unless the root
  is one of them, every candidate has more than one label.
\<close>

theorem candidates_of_a_name:
  "(label_count n \<noteq> 1 \<longrightarrow> candidates e n = [n]) \<and>
   (label_count n = 1 \<longrightarrow>
     (\<exists>ds. candidates e n = first_names (joins n ds) \<and>
        (case exclusive e of
           Some x \<Rightarrow> ds = sc_domains x
         | None \<Rightarrow> \<exists>ss. sorted (map sc_metric ss) \<and>
             (\<forall>k. filter (\<lambda>s. sc_metric s = k) ss = filter (\<lambda>s. sc_metric s = k) (up_scopes e)) \<and>
             ds = concat (map sc_domains ss) @ fallback_domains e) \<and>
        (root \<notin> set ds \<longrightarrow> (\<forall>c \<in> set (candidates e n). 1 < label_count c)))) \<and>
   distinct_names (candidates e n)"
proof -
  let ?ss = "sort_key sc_metric (up_scopes e)"
  have ord: "case exclusive e of
           Some x \<Rightarrow> search_domains e = sc_domains x
         | None \<Rightarrow> \<exists>ss. sorted (map sc_metric ss) \<and>
             (\<forall>k. filter (\<lambda>s. sc_metric s = k) ss = filter (\<lambda>s. sc_metric s = k) (up_scopes e)) \<and>
             search_domains e = concat (map sc_domains ss) @ fallback_domains e"
  proof (cases "exclusive e")
    case None
    then show ?thesis by (auto simp: search_domains_def sort_key_stable intro!: exI [of _ ?ss])
  qed (simp add: search_domains_def)
  have bare: "\<forall>c \<in> set (candidates e n). 1 < label_count c"
    if "label_count n = 1" "root \<notin> set (search_domains e)"
    using that candidates_not_bare [of n _ e] by (auto simp: root_def)
  show ?thesis
    using ord bare candidates_joins [of n e] candidates_distinct [of e n]
    by (intro conjI impI exI [of _ "search_domains e"]) (simp_all add: candidates_alt)
qed

theorem candidates_of_a_name_witness:
  "label_count (Name [byte_str ''pc'']) = 1 \<and> candidates demo0 (Name [byte_str ''pc'']) = [demo_name] \<and>
   (\<exists>ds. candidates demo0 (Name [byte_str ''pc'']) = first_names (joins (Name [byte_str ''pc'']) ds)) \<and>
   candidates demo0 demo_name = [demo_name]"
proof -
  have l: "label_count (Name [byte_str ''pc'']) = 1" "label_count demo_name \<noteq> 1" by code_simp+
  have c: "candidates demo0 (Name [byte_str ''pc'']) = [demo_name]" by code_simp
  show ?thesis
    using candidates_of_a_name [of "Name [byte_str ''pc'']" demo0] candidates_of_a_name [of demo_name demo0] l c by blast
qed

text \<open>
  C24: The servers tried for a scope are exactly its servers, the healthy ones before the demoted
  ones, and within both groups in configured order: demotion reorders, it never removes.
\<close>

theorem servers_in_health_order:
  "mset (servers_of e sid now) = mset (scope_servers e sid) \<and>
   filter (\<lambda>s. is_demoted e s sid now = b) (servers_of e sid now) = filter (\<lambda>s. is_demoted e s sid now = b) (scope_servers e sid) \<and>
   (\<forall>i j. i < j \<and> j < length (servers_of e sid now) \<and> is_demoted e (servers_of e sid now ! i) sid now \<longrightarrow>
      is_demoted e (servers_of e sid now ! j) sid now)"
  using mset_servers_of [of e sid now] servers_of_healthy_first [of _ _ e sid now]
  by (cases b) (auto simp: servers_of_partition)

theorem servers_in_health_order_witness:
  "servers_of demo2 ''1'' 6 = [V4 0x0a000002, V4 0x0a000001] \<and>
   mset (servers_of demo2 ''1'' 6) = mset (scope_servers demo2 ''1'')"
proof -
  have "servers_of demo2 ''1'' 6 = [V4 0x0a000002, V4 0x0a000001]" by code_simp
  then show ?thesis using servers_in_health_order [of demo2 "''1''" 6 True] by simp
qed

text \<open>
  C25: The answer from static hosts, forward or reverse, is the same for every iteration order of
  the hash map the hosts are kept in.
\<close>

theorem hash_order_does_not_answer:
  assumes "hosts_wf (hosts e)" "mset hs = mset (hosts e)"
  shows "synthetic (e\<lparr>hosts := hs\<rparr>) n t = synthetic e n t"
  using assms by (rule synthetic_hosts_order)

theorem hash_order_does_not_answer_witness:
  "synthetic (demo0\<lparr>hosts := [(demo_name, [V4 2]), (Name [byte_str ''pc''], [V4 1, V4 2])]\<rparr>) demo_name RT_A =
   synthetic (demo0\<lparr>hosts := [(Name [byte_str ''pc''], [V4 1, V4 2]), (demo_name, [V4 2])]\<rparr>) demo_name RT_A"
proof -
  let ?e = "demo0\<lparr>hosts := [(Name [byte_str ''pc''], [V4 1, V4 2]), (demo_name, [V4 2])]\<rparr>"
  have "\<not> name_eq (Name [byte_str ''pc'']) demo_name" by code_simp
  then have wf: "hosts_wf (hosts ?e)" using demo_wf by (simp add: hosts_wf_def)
  show ?thesis
    using hash_order_does_not_answer [OF wf, of "[(demo_name, [V4 2]), (Name [byte_str ''pc''], [V4 1, V4 2])]" demo_name RT_A]
    by simp
qed

text \<open>
  C26: Which of the two families of an address lookup answers first changes neither the outcome,
  the canonical name and the source nor the addresses, only the order of the addresses.
\<close>

theorem lookup_result_ignores_arrival_order:
  assumes "mset (l_results l) = mset (l_results l')" "l_name l = l_name l'"
    and "distinct (map fst (l_results l))"
  shows "ad_outcome (combine l) = ad_outcome (combine l') \<and>
    ad_canonical (combine l) = ad_canonical (combine l') \<and>
    ad_source (combine l) = ad_source (combine l') \<and>
    mset (ad_addresses (combine l)) = mset (ad_addresses (combine l'))"
  using combine_order [OF assms] by blast

theorem lookup_result_ignores_arrival_order_witness:
  "ad_canonical (combine \<lparr>l_name = demo_name, l_pending = [], l_results = [(RT_A, default_answer), (RT_AAAA, default_answer)]\<rparr>) =
   ad_canonical (combine \<lparr>l_name = demo_name, l_pending = [], l_results = [(RT_AAAA, default_answer), (RT_A, default_answer)]\<rparr>)"
proof -
  have "RT_A \<noteq> RT_AAAA" by code_simp
  then show ?thesis
    using lookup_result_ignores_arrival_order
      [of "\<lparr>l_name = demo_name, l_pending = [], l_results = [(RT_A, default_answer), (RT_AAAA, default_answer)]\<rparr>"
          "\<lparr>l_name = demo_name, l_pending = [], l_results = [(RT_AAAA, default_answer), (RT_A, default_answer)]\<rparr>"]
    by (simp add: add_mset_commute)
qed

text \<open>
  C27: A request that was encoded and framed arrives as the same request however the stream is cut
  into reads, with interruptions in between, and not a byte behind its frame is taken.
\<close>

theorem requests_survive_segmentation:
  assumes "request_ok rq" "wire_send (request_encode rq) = Inr frame" "steady ss" "data_of ss = frame @ rest"
  shows "\<exists>ss'. client_read text_of ss [] = Some (PRequest rq, frame, ss') \<and> data_of ss' = rest"
  using client_reads_frame [OF assms(2,3), of "[]" frame rest text_of] assms(4) request_round_trip [OF assms(1)] by simp

theorem requests_survive_segmentation_witness:
  "\<exists>frame ss'. wire_send (request_encode RqFlush) = Inr frame \<and>
    client_read (\<lambda>_. []) [Inr (take 3 frame), Inl Interrupted, Inr (drop 3 frame @ [1])] [] = Some (PRequest RqFlush, frame, ss') \<and> data_of ss' = [1]"
proof -
  have n: "length (request_encode RqFlush) \<le> MAX_MESSAGE_BYTES" by code_simp
  obtain frame where f: "wire_send (request_encode RqFlush) = Inr frame" "4 \<le> length frame" using n by (auto simp: wire_send_def)
  have "\<exists>ss'. client_read (\<lambda>_. []) [Inr (take 3 frame), Inl Interrupted, Inr (drop 3 frame @ [1])] [] = Some (PRequest RqFlush, frame, ss') \<and> data_of ss' = [1]"
    by (rule requests_survive_segmentation) (use f in \<open>auto simp: steady_def data_of_def\<close>)
  with f show ?thesis by blast
qed

text \<open>
  C28: What a client reads of the frame of a reply, whose strings and lists fit the format, decodes
  to that reply, with two exceptions: a reply over the message limit arrives as the error that says
  so, and a status with a cache size or a counter of \<open>2 ^ 63\<close> or more is refused by the client with a
  type error. What follows the frame is left in the stream.
\<close>

theorem replies_reach_the_client:
  assumes "reply_ok rp"
  shows "\<exists>payload. wire_recv e (response_frame rp @ rest) = Inr (payload, rest) \<and>
    reply_decode payload =
      (if length (reply_encode rp) > MAX_MESSAGE_BYTES then Inr (RpError (byte_str ''reply too large''))
       else if (case rp of
           RpStatus s \<Rightarrow> sr_cache_entries s < 2 ^ 63 \<and>
             (\<forall>v \<in> set [wc_queries (sr_counters s), wc_synthetic (sr_counters s), wc_cache_hits (sr_counters s),
                wc_upstream_sent (sr_counters s), wc_upstream_answered (sr_counters s),
                wc_upstream_failed (sr_counters s), wc_refused (sr_counters s)]. v < 2 ^ 63)
         | _ \<Rightarrow> True) then Inr rp
       else Inl (WEncoding MpType))"
proof -
  have "counts_ok rp = (case rp of
      RpStatus s \<Rightarrow> sr_cache_entries s < 2 ^ 63 \<and>
        (\<forall>v \<in> set [wc_queries (sr_counters s), wc_synthetic (sr_counters s), wc_cache_hits (sr_counters s),
           wc_upstream_sent (sr_counters s), wc_upstream_answered (sr_counters s),
           wc_upstream_failed (sr_counters s), wc_refused (sr_counters s)]. v < 2 ^ 63)
    | _ \<Rightarrow> True)"
    by (cases rp) (simp_all add: counters_ok_def)
  then show ?thesis using client_gets_reply [OF assms, of e rest] by (simp only:)
qed

theorem replies_reach_the_client_witness:
  "(\<exists>payload. wire_recv WouldBlock (response_frame (RpError (byte_str ''access denied'')) @ [7]) = Inr (payload, [7]) \<and>
      reply_decode payload = Inr (RpError (byte_str ''access denied''))) \<and>
   (\<exists>payload. wire_recv WouldBlock (response_frame (RpStatus (default_status\<lparr>sr_cache_entries := 2 ^ 63\<rparr>)) @ [7]) = Inr (payload, [7]) \<and>
      reply_decode payload = Inl (WEncoding MpType))"
proof -
  let ?r = "RpError (byte_str ''access denied'')" and ?s = "RpStatus (default_status\<lparr>sr_cache_entries := 2 ^ 63\<rparr>)"
  have l: "\<not> length (reply_encode ?r) > MAX_MESSAGE_BYTES" "\<not> length (reply_encode ?s) > MAX_MESSAGE_BYTES" by code_simp+
  have r: "reply_ok ?r" by (simp add: key_ok_text key_ok_def)
  have "text_ok []" by (simp add: text_ok_def valid_utf8_ascii)
  then have s: "reply_ok ?s" by (simp add: default_status_def texts_ok_def)
  show ?thesis
    using replies_reach_the_client [OF r, of WouldBlock "[7]"] replies_reach_the_client [OF s, of WouldBlock "[7]"] l
    by (simp add: default_status_def del: reply_encode.simps)
qed



text \<open>
  C30: However the byte stream of a server is cut into reads, successive ready events deliver the
  first message that is accepted as an answer, after passing over those that are not.
\<close>

theorem tcp_replies_are_reassembled:
  assumes "list_all (\<lambda>m. length m \<le> 65535) ms" "list_all (\<lambda>c. c \<noteq> []) chunks"
    and "concat chunks = concat (map tcp_frame ms)"
  shows "receive_run accepts chunks [] = (case find accepts ms of Some m \<Rightarrow> (Some (Received m), []) | None \<Rightarrow> (None, []))"
  using assms by (rule reassembly)

theorem tcp_replies_are_reassembled_witness:
  "receive_run (\<lambda>m. length m = 2) [[0], [1, 1, 0], [2, 2, 3]] [] =
     (case find (\<lambda>m. length m = 2) [[1], [2, 3]] of Some m \<Rightarrow> (Some (Received m), []) | None \<Rightarrow> (None, []))"
  by (rule tcp_replies_are_reassembled) (simp_all, code_simp)

text \<open>
  C31: Over any history of enqueuing, servicing and expiring, with writes that are cut short,
  refused or interrupted, no call panics, the queue stays within its bound, and every stream it
  closes has carried a prefix of its own frame: the whole frame exactly when success is reported.
\<close>

theorem queued_replies_are_whole:
  assumes "nonblocking_stream wr out" "list_all (op_fresh out) ops"
  shows "\<exists>q log. q_run wr ops (replies_new, []) = Some (q, log) \<and> length (rp_pending q) \<le> MAX_PENDING_REPLIES \<and>
    (\<forall>(s, frame, r) \<in> set log. (\<exists>n. out s = take n frame) \<and> (r = Inr () \<longrightarrow> out s = frame))"
proof -
  obtain q log where "q_run wr ops (replies_new, []) = Some (q, log)" "queue_ok out (q, log)"
    using nonblocking_stream.run_ok [OF assms(1) new_queue_ok assms(2)] by auto
  then show ?thesis by (auto simp: queue_ok_def closed_ok_def)
qed

theorem queued_replies_are_whole_witness:
  "\<exists>q log. q_run sock_write [Enqueue \<lparr>sk_fd = 1, sk_writes = [Inr 1, Inl WouldBlock, Inr 2], sk_out = []\<rparr> [1, 2, 3] 0, Service 0 1, Service 0 2]
      (replies_new, []) = Some (q, log) \<and> length (rp_pending q) \<le> MAX_PENDING_REPLIES \<and>
    (\<forall>(s, frame, r) \<in> set log. (\<exists>n. sk_out s = take n frame) \<and> (r = Inr () \<longrightarrow> sk_out s = frame))"
  by (rule queued_replies_are_whole [OF sock.nonblocking_stream_axioms]) (simp add: op_fresh_def)

text \<open>
  C32: Decoding what \<open>encode\<close> writes for a well-formed message gives exactly that message.
\<close>

theorem message_round_trip:
  assumes "wf_message m" "encode m = Inr bs"
  shows "decode bs = Inr m"
  using assms by (rule decode_encode)

theorem message_round_trip_witness:
  "\<exists>bs. encode (message_query 77 (question_new demo_name RT_AAAA)) = Inr bs \<and>
    decode bs = Inr (message_query 77 (question_new demo_name RT_AAAA))"
proof -
  have n: "wf_name (q_name (question_new demo_name RT_AAAA))" using demo_wf by (simp add: question_new_def)
  obtain bs where "encode (message_query 77 (question_new demo_name RT_AAAA)) = Inr bs" using encode_query [OF n] .
  with message_round_trip [OF wf_query [OF n] this] show ?thesis by blast
qed

text \<open>
  C33: Whatever the bytes, a message that decodes is well formed, each of its sections has fewer
  than 65536 entries, and the data of each record takes fewer than 65536 bytes when written back.
  A name read from a message ends inside it and after the position where it starts.
\<close>

theorem decoded_messages_are_well_formed:
  "(decode bs = Inr m \<longrightarrow> wf_message m \<and>
     length (questions m) < 65536 \<and> length (answers m) < 65536 \<and> length (authority m) < 65536 \<and>
     length (additional m) < 65536 \<and>
     (\<forall>r \<in> set (answers m @ authority m @ additional m). length (write_rdata (r_data r)) < 65536)) \<and>
   (name_read bs pos = Inr (n, q) \<longrightarrow> wf_name n \<and> pos < q \<and> q \<le> length bs)"
  using decode_sound [of bs m] decode_size [of bs m] name_read_sound [of bs pos n q] by blast

theorem decoded_messages_are_well_formed_witness:
  "\<exists>m. decode demo_reply = Inr m \<and> wf_message m \<and> length (answers m) < 65536"
proof -
  obtain m where "decode demo_reply = Inr m"
    using demo1_reply by (auto simp: response_matches_def matching_response_Some)
  then show ?thesis using decoded_messages_are_well_formed [where bs = demo_reply and m = m] by blast
qed

text \<open>
  C34: Two addresses of one family are in the same subnet exactly if their leading prefix-length
  bits agree, with a prefix length beyond the width counting as the width; addresses of different
  families never are.
\<close>

theorem subnet_is_leading_bits:
  "(same_subnet (V4 a) plen (V4 b) \<longleftrightarrow> drop_bit (32 - min (unat plen) 32) a = drop_bit (32 - min (unat plen) 32) b) \<and>
   (same_subnet (V6 c) plen (V6 d) \<longleftrightarrow> drop_bit (128 - min (unat plen) 128) c = drop_bit (128 - min (unat plen) 128) d) \<and>
   \<not> same_subnet (V4 a) plen (V6 d) \<and> \<not> same_subnet (V6 c) plen (V4 b)"
  by (simp only: same_subnet_iff same_subnet.simps simp_thms)

text \<open>
  C35: A well-formed reply to at most one question, with no OPT record or one the program built,
  encoded for UDP: when its encoding fits the limit it is sent as it is and decodes to the reply;
  otherwise at most 282 bytes are sent, and they decode to the header of the reply with the TC bit
  set, its question, no answer and no authority record, and the OPT record of the reply if it has
  one.
\<close>

theorem udp_replies_fit:
  assumes "wf_message m" "length (questions m) \<le> 1" "encode_udp m limit = Inr out"
    and "\<forall>opt. message_opt m = Some opt \<longrightarrow> opt = record_opt s b"
  shows "\<exists>full. encode m = Inr full \<and>
    (if length full \<le> unat limit then out = full \<and> decode out = Inr m
     else length out \<le> 282 \<and>
       decode out = Inr \<lparr>header = (header m)\<lparr>truncated := True\<rparr>, questions = questions m,
         answers = [], authority = [],
         additional = (case message_opt m of None \<Rightarrow> [] | Some opt \<Rightarrow> [opt])\<rparr>)"
proof -
  obtain full where full: "encode m = Inr full" using assms(3) by (auto simp: encode_udp_alt rust_simps)
  show ?thesis
  proof (cases "length full \<le> unat limit")
    case True
    then have "out = full" using assms(3) full by (simp add: encode_udp_alt rust_simps)
    then show ?thesis using True full decode_encode [OF assms(1) full] by simp
  next
    case False
    then have t: "encode (truncated_form m) = Inr out" using assms(3) full by (simp add: encode_udp_alt rust_simps)
    have "decode out = Inr (truncated_form m)" by (rule decode_encode [OF wf_truncated_form [OF assms(1)] t])
    moreover have "length out \<le> 282" using length_truncated_form [OF t assms(1,2)] assms(4) by blast
    ultimately show ?thesis using False full by (simp add: truncated_form_def default_message_def)
  qed
qed

theorem udp_replies_fit_witness:
  "\<exists>out. encode_udp (message_query 1 (question_new demo_name RT_A)) 5 = Inr out \<and> length out \<le> 282 \<and>
     decode out = Inr \<lparr>header = (header (message_query 1 (question_new demo_name RT_A)))\<lparr>truncated := True\<rparr>,
       questions = [question_new demo_name RT_A], answers = [], authority = [],
       additional = [record_opt EDNS_UDP_SIZE False]\<rparr>"
proof -
  let ?m = "message_query 1 (question_new demo_name RT_A)"
  have wf: "wf_message ?m" using demo_wf by (intro wf_query) (simp add: question_new_def)
  have "\<not> isl (encode_udp ?m 5)" by code_simp
  then obtain out where out: "encode_udp ?m 5 = Inr out" by (cases "encode_udp ?m 5") auto
  have q: "questions ?m = [question_new demo_name RT_A]" by (simp add: message_query_def default_message_def)
  have o: "message_opt ?m = Some (record_opt EDNS_UDP_SIZE False)"
    by (simp add: message_query_def message_opt_def default_message_def record_opt_def)
  have long: "case encode ?m of Inl _ \<Rightarrow> False | Inr full \<Rightarrow> \<not> length full \<le> unat (5 :: u16)" by code_simp
  from o have "\<forall>opt. message_opt ?m = Some opt \<longrightarrow> opt = record_opt EDNS_UDP_SIZE False" by simp
  from udp_replies_fit [OF wf _ out this] long show ?thesis using out by (auto simp: q o)
qed

text \<open>
  C36: For every address the reverse name exists and names that address.
\<close>

theorem reverse_names_round_trip:
  "Option.bind (reverse_v4 a) reverse_address = Some (V4 a) \<and>
   Option.bind (reverse_v6 b) reverse_address = Some (V6 b)"
  using reverse_v4_address reverse_v6_address by blast

text \<open>
  C37: A well-formed name with plain labels is what its display form parses to, and two well-formed
  names, plain or not, with the same display form are the same.
\<close>

theorem names_print_and_parse:
  assumes "wf_name n" "wf_name m"
  shows "(plain_name n \<longrightarrow> parse (name_display n) = Inr n) \<and> (name_display n = name_display m \<longrightarrow> n = m)"
  using parse_display [of n] name_display_inj [of n m] assms by blast

theorem names_print_and_parse_witness:
  "parse (name_display demo_name) = Inr demo_name"
proof -
  have "plain_name demo_name" by code_simp
  then show ?thesis using names_print_and_parse [OF demo_wf(2) demo_wf(2)] by blast
qed

text \<open>
  C38: After any sequence of operations on a new cache no two entries have equal keys and there are
  at most \<open>MAX_ENTRIES\<close> entries.
\<close>

theorem cache_stays_bounded:
  "hm_wf cache_key_eq (entries (fold cache_step ops cache_new)) \<and>
   length (entries (fold cache_step ops cache_new)) \<le> MAX_ENTRIES"
  using wf_cache_run [OF wf_cache_new, of ops] by (simp add: cache_wf_def)

text \<open>
  C39: A lookup of a key after an insertion under it returns the entry, every TTL reduced to at most
  the whole seconds the entry has left, until the entry expires, and nothing from then on.
\<close>

theorem cache_returns_what_was_inserted:
  "fst (cache_get k now' (cache_insert k en now c)) =
     (if e_expires en \<le> now' then None
      else Some (en\<lparr>e_records := map (\<lambda>r. r\<lparr>r_ttl := min (r_ttl r) (word_of_nat (as_secs (e_expires en - now')))\<rparr>) (e_records en)\<rparr>))"
  by (simp add: fst_cache_get live_entry_insert_same aged_def)

text \<open>
  C40: Inserting under another key leaves a live entry visible when there is room, or when some
  other live entry expires earlier: only the entry first to expire is ever given up, and only at
  capacity.
\<close>

theorem eviction_spares_longer_lived:
  assumes "cache_wf c" "live_entry k now c = Some e" "\<not> cache_key_eq k k'"
    and "cache_len c < MAX_ENTRIES \<or> (\<exists>(k2, e2) \<in> set (entries c). now < e_expires e2 \<and> e_expires e2 < e_expires e)"
  shows "live_entry k now (cache_insert k' e' now c) = Some e"
proof -
  have get: "hm_get cache_key_eq k (entries c) = Some e" "e_expires e > now"
    using assms(2) by (auto simp: live_entry_def split: option.splits if_splits)
  have "hm_get cache_key_eq k (evict now (entries c)) = Some e" if "MAX_ENTRIES \<le> length (entries c)"
  proof (rule ccontr)
    assume "hm_get cache_key_eq k (evict now (entries c)) \<noteq> Some e"
    with evict_get(2) [OF _ get] assms(1) have "\<forall>(k', e') \<in> set (entries c). e_expires e' > now \<longrightarrow> e_expires e \<le> e_expires e'"
      by (simp add: cache_wf_def)
    with assms(4) that show False by (fastforce simp: cache_len_def)
  qed
  with get assms(3) show ?thesis by (simp add: cache_insert_def live_entry_def keys.get_insert Let_def)
qed

theorem eviction_spares_longer_lived_witness:
  "live_entry (cache_key_new demo_name RT_A ''1'') 5 (cache_insert (cache_key_new root RT_A ''1'')
     \<lparr>e_outcome = NotFound, e_records = [], e_rcode = 3, e_server = V4 1, e_expires = 70\<rparr> 5
     (cache_insert (cache_key_new demo_name RT_A ''1'')
        \<lparr>e_outcome = Found, e_records = [], e_rcode = 0, e_server = V4 1, e_expires = 60\<rparr> 1 cache_new)) =
   Some \<lparr>e_outcome = Found, e_records = [], e_rcode = 0, e_server = V4 1, e_expires = 60\<rparr>"
proof (rule eviction_spares_longer_lived)
  show "\<not> cache_key_eq (cache_key_new demo_name RT_A ''1'') (cache_key_new root RT_A ''1'')"
    by (simp add: cache_key_new_eq demo_name_def root_def name_eq_iff to_lowercase_def)
qed (simp_all add: live_entry_insert_same wf_cache_insert wf_cache_new,
     simp add: cache_len_def cache_insert_def cache_new_def MAX_ENTRIES_def)

end
